(* ===== verification/Prelude.thy ===== *)
theory Prelude
  imports Main "HOL-Library.Word" "HOL-Library.Signed_Division"
begin

text \<open>
  Shared vocabulary of the development: the C integer types the sources use, C's truncating
  division, wide strings, the no-data marker, and the generic lemmas on lists and words that
  the components rely on.

  \<^item> A \<open>short\<close> (and \<open>SZB_FILE_TYPE\<close>, \<open>int16_t\<close>) is a \<open>16 word\<close>, read with \<open>sint\<close>.
  \<^item> A \<open>time_t\<close> and the \<open>int\<close> counters derived from it are \<open>int\<close>; where a 32-bit product can
    leave the range the two's complement wrap is written with \<open>c_int\<close>.
  \<^item> A \<open>wchar_t\<close> is its code point, an \<open>int\<close>; a \<open>std::wstring\<close> is a list of them.
\<close>

named_theorems c_arith \<open>facts on C integer conversions and truncating division\<close>
named_theorems list_facts \<open>generic facts on lists used by the component proofs\<close>

type_synonym short = "16 word"
type_synonym ushort = "16 word"
type_synonym uint32 = "32 word"
type_synonym time_t = int
type_synonym wchar = int
type_synonym wstring = "wchar list"

definition c_int :: "int \<Rightarrow> int" where
  "c_int x = signed_take_bit 31 x"

definition int_range :: "int \<Rightarrow> bool" where
  "int_range x \<longleftrightarrow> - (2 ^ 31) \<le> x \<and> x < 2 ^ 31"

text \<open>Reading a C array: \<open>None\<close> is a read outside of it.\<close>

definition c_index :: "'a list \<Rightarrow> int \<Rightarrow> 'a option" where
  "c_index xs i = (if 0 \<le> i \<and> i < int (length xs) then Some (xs ! nat i) else None)"

text \<open>\<open>SZARP_NO_DATA\<close> of \<open>szdefines.h\<close> and \<open>SZB_FILE_NODATA\<close> of \<open>szbdefines.h\<close> are both
  the least \<open>short\<close>.\<close>

definition SZARP_NO_DATA :: short where
  "SZARP_NO_DATA = 0x8000"

lemma sint_no_data: "sint SZARP_NO_DATA = - 32768"
  by (simp add: SZARP_NO_DATA_def)

lemma sint_short_bounds:
  fixes w :: short
  shows "- 32768 \<le> sint w" and "sint w \<le> 32767"
  using sint_greater_eq [of w] sint_less [of w] by simp_all

lemma sint_eq_no_data_iff: "sint w = - 32768 \<longleftrightarrow> w = SZARP_NO_DATA"
  by (metis sint_no_data signed_word_eqI)

lemma sint_data_bound: "w \<noteq> SZARP_NO_DATA \<Longrightarrow> - 32767 \<le> sint w"
  using sint_short_bounds(1) [of w] sint_eq_no_data_iff [of w] by linarith

subsection \<open>C integers\<close>

lemma c_int_id [simp, c_arith]: "int_range x \<Longrightarrow> c_int x = x"
  by (simp add: c_int_def int_range_def signed_take_bit_int_eq_self)

lemma c_int_range [simp, c_arith]: "int_range (c_int x)"
  using signed_take_bit_int_greater_eq_minus_exp [of 31 x] signed_take_bit_int_less_exp [of 31 x]
  by (simp add: c_int_def int_range_def)

lemma c_int_wrap: "c_int (x - 2 ^ 32) = c_int x"
proof -
  have "take_bit (Suc 31) (x - 2 ^ 32) = take_bit (Suc 31) x"
    by (simp add: take_bit_eq_mod)
  then show ?thesis
    unfolding c_int_def by (simp only: signed_take_bit_eq_iff_take_bit_eq)
qed

lemma sdiv_nonneg [c_arith]: "0 \<le> a \<Longrightarrow> 0 < b \<Longrightarrow> (a :: int) sdiv b = a div b"
  by (simp add: signed_divide_int_def sgn_if)

lemma smod_nonneg [c_arith]: "0 \<le> a \<Longrightarrow> 0 < b \<Longrightarrow> (a :: int) smod b = a mod b"
  by (cases "a = 0") (simp_all add: signed_modulo_int_def)

lemma smod_eq_0_iff [c_arith]: "(a :: int) smod b = 0 \<longleftrightarrow> b dvd a"
  by (simp add: signed_modulo_int_def sgn_0_0 mod_eq_0_iff_dvd) auto

lemma int_div_eqI: "a = b * q + r \<Longrightarrow> 0 \<le> r \<Longrightarrow> r < b \<Longrightarrow> (a :: int) div b = q"
  by (simp add: int_div_pos_eq)

lemma int_mod_eqI: "a = b * q + r \<Longrightarrow> 0 \<le> r \<Longrightarrow> r < b \<Longrightarrow> (a :: int) mod b = r"
  by (simp add: int_mod_pos_eq)

lemma div_pred:
  assumes "0 < (k :: int)"
  shows "y div k = (y - 1) div k + (if k dvd y then 1 else 0)"
proof (cases "k dvd y")
  case True
  then obtain q where "y = k * q" by blast
  then have "(y - 1) div k = q - 1" and "y div k = q"
    using assms by (simp_all add: int_div_eqI [of "k * q - 1" k "q - 1" "k - 1"] algebra_simps)
  with True show ?thesis by simp
next
  case False
  then have "0 < y mod k" using assms by (simp add: dvd_eq_mod_eq_0 order_less_le)
  moreover have "y mod k < k" using assms by simp
  ultimately have "(y - 1) div k = y div k"
    by (intro int_div_eqI [of _ _ _ "y mod k - 1"]) simp_all
  with False show ?thesis by simp
qed

text \<open>Seconds of a day split into hours, minutes and seconds.\<close>

lemma hms_join: "(s :: int) div 3600 * 3600 + s div 60 mod 60 * 60 + s mod 60 = s"
proof -
  have "s div 3600 = s div 60 div 60" using zdiv_zmult2_eq [of 60 s 60] by simp
  moreover have "s div 60 div 60 * 60 + s div 60 mod 60 = s div 60" by (rule div_mult_mod_eq)
  moreover have "s div 60 * 60 + s mod 60 = s" by (rule div_mult_mod_eq)
  ultimately show ?thesis by linarith
qed

lemma hms_split:
  fixes h m s :: int
  assumes "0 \<le> m" "m < 60" "0 \<le> s" "s < 60"
  shows "(h * 3600 + m * 60 + s) mod 60 = s" and "(h * 3600 + m * 60 + s) div 60 mod 60 = m"
    and "(h * 3600 + m * 60 + s) div 3600 = h"
proof -
  have "(h * 3600 + m * 60 + s) div 60 = h * 60 + m"
    using assms by (intro int_div_eqI [of _ _ _ s]) auto
  then show "(h * 3600 + m * 60 + s) div 60 mod 60 = m" using assms by simp
  show "(h * 3600 + m * 60 + s) mod 60 = s"
    using assms by (intro int_mod_eqI [of _ _ "h * 60 + m"]) auto
  show "(h * 3600 + m * 60 + s) div 3600 = h"
    using assms by (intro int_div_eqI [of _ _ _ "m * 60 + s"]) auto
qed

lemma sint_word_of_int_eq [c_arith]:
  "- (2 ^ (LENGTH('a) - Suc 0)) \<le> x \<Longrightarrow> x < 2 ^ (LENGTH('a) - Suc 0) \<Longrightarrow>
     sint (word_of_int x :: 'a :: len word) = x"
  by (simp add: sint_sbintrunc' signed_take_bit_int_eq_self)

lemma uint_word_of_int_eq [c_arith]:
  "0 \<le> x \<Longrightarrow> x < 2 ^ LENGTH('a) \<Longrightarrow> uint (word_of_int x :: 'a :: len word) = x"
  by (simp add: uint_word_of_int)

lemma mask8: "(0xFF :: 'a :: len word) = mask 8"
  by (simp add: mask_eq_exp_minus_1)

lemma mask16: "(0xFFFF :: 'a :: len word) = mask 16"
  by (simp add: mask_eq_exp_minus_1)

subsection \<open>Lists\<close>

text \<open>Padding a list to a length, as the writers of data files do with no-data probes.\<close>

definition pad_to :: "'a \<Rightarrow> nat \<Rightarrow> 'a list \<Rightarrow> 'a list" where
  "pad_to x n xs = xs @ replicate (n - length xs) x"

lemma length_pad_to [simp, list_facts]: "length (pad_to x n xs) = max n (length xs)"
  by (simp add: pad_to_def)

lemma nth_pad_to [list_facts]:
  "i < max n (length xs) \<Longrightarrow> pad_to x n xs ! i = (if i < length xs then xs ! i else x)"
  by (auto simp: pad_to_def nth_append)

text \<open>Overwriting a stretch of a list in place, extending it at the end if needed: the effect
  of \<open>write\<close> at an offset that is at most the length of the file.\<close>

definition overwrite_at :: "nat \<Rightarrow> 'a list \<Rightarrow> 'a list \<Rightarrow> 'a list" where
  "overwrite_at k ys xs = take k xs @ ys @ drop (k + length ys) xs"

lemma length_overwrite_at [simp, list_facts]:
  "k \<le> length xs \<Longrightarrow> length (overwrite_at k ys xs) = max (length xs) (k + length ys)"
  by (auto simp: overwrite_at_def)

lemma nth_overwrite_at [list_facts]:
  assumes "k \<le> length xs" and "i < max (length xs) (k + length ys)"
  shows "overwrite_at k ys xs ! i =
    (if i < k then xs ! i else if i < k + length ys then ys ! (i - k) else xs ! i)"
  using assms by (auto simp: overwrite_at_def nth_append min_def)

end
