(* ===== verification/Cron_Time.thy ===== *)
theory Cron_Time
  imports Prelude
begin

text \<open>
  The parser of crontab fields, \<open>libSzarp2/misc/crontime.cc\<close>: a state machine over the characters
  of the string that collects a bit mask. A field is a star, or numbers and periods separated by
  commas. The functions of this theory take the character codes, the terminating zero included.
\<close>

unbundle bit_operations_syntax

subsection \<open>The automaton\<close>

datatype pt_state = PTAS_START | PTAS_DIGIT | PTAS_COMMA | PTAS_PERIOD | PTAS_ALL

record cron =
  cr_state :: pt_state
  cr_bits :: "32 word"
  cr_n :: int
  cr_m :: int

datatype cron_outcome = Cerror | Cend "32 word" | Cmore cron

definition is_digit_code :: "int \<Rightarrow> bool" where
  "is_digit_code c \<longleftrightarrow> 48 \<le> c \<and> c \<le> 57"

text \<open>\<open>bits |= 1 << i\<close>, and the loop \<open>for (i = a; i < b; i++)\<close> over it.\<close>

definition set_one :: "int \<Rightarrow> 32 word \<Rightarrow> 32 word" where
  "set_one i w = w OR push_bit (nat i) 1"

definition set_range :: "int \<Rightarrow> int \<Rightarrow> 32 word \<Rightarrow> 32 word" where
  "set_range a b w = foldl (\<lambda>w i. set_one i w) w [a..b - 1]"

definition cron_step :: "int \<Rightarrow> int \<Rightarrow> bool \<Rightarrow> int \<Rightarrow> cron \<Rightarrow> cron_outcome" where
  "cron_step maxi mini minutes c st =
     (case cr_state st of
        PTAS_START \<Rightarrow>
          if c = 0 then Cend (cr_bits st)
          else if c = 42 then
            Cmore (st\<lparr>cr_bits := set_range 0 (maxi - mini + 1) (cr_bits st), cr_state := PTAS_ALL\<rparr>)
          else if is_digit_code c then Cmore (st\<lparr>cr_n := c - 48, cr_state := PTAS_DIGIT\<rparr>)
          else Cerror
      | PTAS_ALL \<Rightarrow> if c = 0 then Cend (cr_bits st) else Cerror
      | PTAS_DIGIT \<Rightarrow>
          let n = (if (c = 44 \<or> c = 45 \<or> c = 0) \<and> minutes then cr_n st sdiv 10 else cr_n st);
              st = st\<lparr>cr_n := n\<rparr> in
          if (c = 44 \<or> c = 45 \<or> c = 0) \<and> (n < mini \<or> n > maxi) then Cerror
          else if c = 44 \<or> c = 0 then
            (let st = st\<lparr>cr_bits := set_one (n - mini) (cr_bits st), cr_state := PTAS_COMMA\<rparr> in
             if c = 0 then Cend (cr_bits st) else Cmore st)
          else if c = 45 then Cmore (st\<lparr>cr_state := PTAS_PERIOD, cr_m := - 1\<rparr>)
          else if is_digit_code c then Cmore (st\<lparr>cr_n := c_int (n * 10 + (c - 48))\<rparr>)
          else Cerror
      | PTAS_COMMA \<Rightarrow>
          if is_digit_code c then Cmore (st\<lparr>cr_n := c - 48, cr_state := PTAS_DIGIT\<rparr>) else Cerror
      | PTAS_PERIOD \<Rightarrow>
          if is_digit_code c then
            Cmore (st\<lparr>cr_m := (if cr_m st < 0 then c - 48 else c_int (cr_m st * 10 + (c - 48)))\<rparr>)
          else if c = 44 \<or> c = 0 then
            (let m = (if minutes then cr_m st sdiv 10 else cr_m st); n = cr_n st in
             if m < mini \<or> m > maxi \<or> n > m then Cerror
             else
               let st = st\<lparr>cr_m := m, cr_bits := set_range (n - mini) (m - mini) (cr_bits st)\<rparr> in
               if c = 0 then Cend (cr_bits st) else Cmore st)
          else Cerror)"

fun cron_run :: "int \<Rightarrow> int \<Rightarrow> bool \<Rightarrow> int list \<Rightarrow> cron \<Rightarrow> 32 word option" where
  "cron_run maxi mini minutes [] st = None"
| "cron_run maxi mini minutes (c # cs) st =
     (case cron_step maxi mini minutes c st of
        Cerror \<Rightarrow> None | Cend w \<Rightarrow> Some w | Cmore st' \<Rightarrow> cron_run maxi mini minutes cs st')"

definition cron_init :: cron where
  "cron_init = \<lparr> cr_state = PTAS_START, cr_bits = 0, cr_n = 0, cr_m = 0 \<rparr>"

definition parse_cron_time :: "int list \<Rightarrow> int \<Rightarrow> int \<Rightarrow> bool \<Rightarrow> 32 word option" where
  "parse_cron_time s maxi mini minutes = cron_run maxi mini minutes (s @ [0]) cron_init"

subsection \<open>Bits\<close>

lemma bit_set_one:
  "0 \<le> i \<Longrightarrow> i < 32 \<Longrightarrow> k < 32 \<Longrightarrow> bit (set_one i w) k \<longleftrightarrow> bit w k \<or> int k = i"
  by (auto simp: set_one_def bit_simps)

lemma bit_set_range:
  assumes "0 \<le> a" "b \<le> 32" "k < 32"
  shows "bit (set_range a b w) k \<longleftrightarrow> bit w k \<or> (a \<le> int k \<and> int k < b)"
proof -
  have "\<forall>i\<in>set is. 0 \<le> i \<and> i < 32 \<Longrightarrow>
      bit (foldl (\<lambda>w i. set_one i w) w is) k \<longleftrightarrow> bit w k \<or> int k \<in> set is" for "is" :: "int list"
    using assms(3) by (induction "is" arbitrary: w) (auto simp: bit_set_one)
  from this [of "[a..b - 1]"] assms show ?thesis by (auto simp: set_range_def)
qed

text \<open>Only bits of the field's range are set.\<close>

definition in_field :: "int \<Rightarrow> int \<Rightarrow> 32 word \<Rightarrow> bool" where
  "in_field maxi mini w \<longleftrightarrow> (\<forall>k<32. bit w k \<longrightarrow> int k \<le> maxi - mini)"

definition cron_ok :: "int \<Rightarrow> int \<Rightarrow> cron \<Rightarrow> bool" where
  "cron_ok maxi mini st \<longleftrightarrow> in_field maxi mini (cr_bits st) \<and> (cr_state st = PTAS_PERIOD \<longrightarrow> mini \<le> cr_n st)"

lemma cron_step_ok:
  assumes "cron_ok maxi mini st" "0 \<le> mini" "mini < maxi" "maxi < 32"
  shows "case cron_step maxi mini minutes c st of
    Cerror \<Rightarrow> True | Cend w \<Rightarrow> in_field maxi mini w | Cmore st' \<Rightarrow> cron_ok maxi mini st'"
proof (cases "cr_state st")
  case PTAS_PERIOD
  then have "mini \<le> cr_n st" using assms(1) by (simp add: cron_ok_def)
  then show ?thesis using assms PTAS_PERIOD
    by (auto simp: cron_step_def cron_ok_def Let_def in_field_def bit_set_range)
qed (use assms in \<open>auto simp: cron_step_def cron_ok_def Let_def in_field_def bit_set_range bit_set_one\<close>)

lemma cron_run_in_field:
  assumes "cron_ok maxi mini st" "0 \<le> mini" "mini < maxi" "maxi < 32" "cron_run maxi mini minutes cs st = Some w"
  shows "in_field maxi mini w"
  using assms(1,5)
proof (induction cs arbitrary: st)
  case (Cons c cs)
  then show ?case
    using cron_step_ok [OF Cons.prems(1) assms(2-4), of minutes c] by (auto split: cron_outcome.splits)
qed simp

subsection \<open>Lists of numbers\<close>

definition dec_value :: "int list \<Rightarrow> int" where
  "dec_value ds = foldl (\<lambda>v c. v * 10 + (c - 48)) 0 ds"

definition number_text :: "int list \<Rightarrow> bool" where
  "number_text ds \<longleftrightarrow> ds \<noteq> [] \<and> (\<forall>c\<in>set ds. is_digit_code c)"

fun join_commas :: "int list list \<Rightarrow> int list" where
  "join_commas [] = []"
| "join_commas [ds] = ds"
| "join_commas (ds # e # es) = ds @ 44 # join_commas (e # es)"

text \<open>The index a number of the field stands for.\<close>

definition field_index :: "int \<Rightarrow> bool \<Rightarrow> int list \<Rightarrow> int" where
  "field_index mini minutes ds = (if minutes then dec_value ds sdiv 10 else dec_value ds) - mini"

lemma dec_value_acc:
  "\<forall>c\<in>set ds. is_digit_code c \<Longrightarrow> 0 \<le> v \<Longrightarrow> v \<le> foldl (\<lambda>v c. v * 10 + (c - 48)) v ds"
proof (induction ds arbitrary: v)
  case (Cons d ds)
  then have v: "v \<le> v * 10 + (d - 48)" "0 \<le> v * 10 + (d - 48)" by (auto simp: is_digit_code_def)
  then have "v * 10 + (d - 48) \<le> foldl (\<lambda>v c. v * 10 + (c - 48)) (v * 10 + (d - 48)) ds"
    using Cons by simp
  with v(1) show ?case by simp
qed simp

lemma run_digits:
  assumes "\<forall>c\<in>set ds. is_digit_code c" "cr_state st = PTAS_DIGIT" "0 \<le> cr_n st"
    and "foldl (\<lambda>v c. v * 10 + (c - 48)) (cr_n st) ds < 2 ^ 31"
  shows "cron_run maxi mini minutes (ds @ rest) st =
    cron_run maxi mini minutes rest (st\<lparr>cr_n := foldl (\<lambda>v c. v * 10 + (c - 48)) (cr_n st) ds\<rparr>)"
  using assms
proof (induction ds arbitrary: st)
  case (Cons d ds)
  let ?n = "cr_n st * 10 + (d - 48)"
  have d: "is_digit_code d" "d \<noteq> 44" "d \<noteq> 45" "d \<noteq> 0" using Cons.prems(1) by (auto simp: is_digit_code_def)
  have n: "0 \<le> ?n" using d(1) Cons.prems(3) by (auto simp: is_digit_code_def)
  have "?n \<le> foldl (\<lambda>v c. v * 10 + (c - 48)) ?n ds" using dec_value_acc Cons.prems(1) n by simp
  then have "c_int ?n = ?n" using Cons.prems(4) n by (intro c_int_id) (simp add: int_range_def)
  then show ?case
    using Cons.IH [of "st\<lparr>cr_n := ?n\<rparr>"] Cons.prems d n by (simp add: cron_step_def)
qed simp

lemma number_head:
  assumes "number_text ds" "cr_state st = PTAS_START \<or> cr_state st = PTAS_COMMA" "dec_value ds < 2 ^ 31"
  shows "cron_run maxi mini minutes (ds @ rest) st =
    cron_run maxi mini minutes rest (st\<lparr>cr_state := PTAS_DIGIT, cr_n := dec_value ds\<rparr>)"
proof -
  obtain d es where ds: "ds = d # es" "is_digit_code d" "\<forall>c\<in>set es. is_digit_code c"
    using assms(1) by (cases ds) (auto simp: number_text_def)
  have "d \<noteq> 0" "d \<noteq> 42" "0 \<le> d - 48" using ds(2) by (auto simp: is_digit_code_def)
  moreover have "dec_value ds = foldl (\<lambda>v c. v * 10 + (c - 48)) (d - 48) es"
    by (simp add: dec_value_def ds(1))
  ultimately show ?thesis
    using run_digits [OF ds(3), of "st\<lparr>cr_n := d - 48, cr_state := PTAS_DIGIT\<rparr>"] assms(2,3) ds
    by (auto simp: cron_step_def)
qed

text \<open>A list of numbers sets their bits.\<close>

lemma run_numbers:
  assumes "ns \<noteq> []" "\<forall>ds\<in>set ns. number_text ds \<and> dec_value ds < 2 ^ 31 \<and>
      0 \<le> field_index mini minutes ds \<and> field_index mini minutes ds \<le> maxi - mini"
    and "cr_state st = PTAS_START \<or> cr_state st = PTAS_COMMA"
  shows "cron_run maxi mini minutes (join_commas ns @ [0]) st =
    Some (foldl (\<lambda>w ds. set_one (field_index mini minutes ds) w) (cr_bits st) ns)"
  using assms
proof (induction ns arbitrary: st rule: join_commas.induct)
  case (2 ds)
  then show ?case by (cases minutes) (simp_all add: number_head cron_step_def Let_def field_index_def)
next
  case (3 ds e es)
  let ?st = "st\<lparr>cr_n := field_index mini minutes ds + mini, cr_bits := set_one (field_index mini minutes ds) (cr_bits st),
      cr_state := PTAS_COMMA\<rparr>"
  have "cron_run maxi mini minutes (join_commas (ds # e # es) @ [0]) st =
      cron_run maxi mini minutes (join_commas (e # es) @ [0]) ?st"
    using "3.prems" by (cases minutes) (simp_all add: number_head cron_step_def Let_def field_index_def)
  also have "\<dots> = Some (foldl (\<lambda>w ds. set_one (field_index mini minutes ds) w) (cr_bits ?st) (e # es))"
    using "3.prems" by (intro "3.IH") auto
  finally show ?case by simp
qed simp

lemma bit_set_many:
  assumes "\<forall>ds\<in>set ns. 0 \<le> f ds \<and> f ds < 32" "k < 32"
  shows "bit (foldl (\<lambda>w ds. set_one (f ds) w) w ns) k \<longleftrightarrow> bit w k \<or> (\<exists>ds\<in>set ns. int k = f ds)"
  using assms by (induction ns arbitrary: w) (auto simp: bit_set_one)

subsection \<open>Properties\<close>

text \<open>C29. A comma-separated list of numbers of the field, or a star, is accepted, and the mask has
  exactly the bits of the numbers named (tens of minutes for the minutes field); and whatever
  string is accepted, only bits of the field are set.\<close>

theorem parse_cron_time_numbers:
  assumes "0 \<le> mini" "mini < maxi" "maxi < 32" "ns \<noteq> []"
    and "\<forall>ds\<in>set ns. number_text ds \<and> dec_value ds < 2 ^ 31 \<and>
      0 \<le> field_index mini minutes ds \<and> field_index mini minutes ds \<le> maxi - mini"
  shows "(\<exists>w. parse_cron_time (join_commas ns) maxi mini minutes = Some w \<and>
      (\<forall>k<32. bit w k \<longleftrightarrow> (\<exists>ds\<in>set ns. int k = field_index mini minutes ds))) \<and>
    (\<exists>w. parse_cron_time [42] maxi mini minutes = Some w \<and> (\<forall>k<32. bit w k \<longleftrightarrow> int k \<le> maxi - mini)) \<and>
    (\<forall>s w. parse_cron_time s maxi mini minutes = Some w \<longrightarrow> (\<forall>k<32. bit w k \<longrightarrow> int k \<le> maxi - mini))"
proof (intro conjI)
  have "\<forall>ds\<in>set ns. 0 \<le> field_index mini minutes ds \<and> field_index mini minutes ds < 32"
    using assms by fastforce
  from bit_set_many [OF this, where w = 0]
  show "\<exists>w. parse_cron_time (join_commas ns) maxi mini minutes = Some w \<and>
      (\<forall>k<32. bit w k \<longleftrightarrow> (\<exists>ds\<in>set ns. int k = field_index mini minutes ds))"
    using run_numbers [OF assms(4,5), of cron_init]
    by (simp add: parse_cron_time_def cron_init_def)
  show "\<exists>w. parse_cron_time [42] maxi mini minutes = Some w \<and> (\<forall>k<32. bit w k \<longleftrightarrow> int k \<le> maxi - mini)"
    using assms by (simp add: parse_cron_time_def cron_init_def cron_step_def bit_set_range)
  have "cron_ok maxi mini cron_init" by (simp add: cron_ok_def cron_init_def in_field_def)
  then show "\<forall>s w. parse_cron_time s maxi mini minutes = Some w \<longrightarrow> (\<forall>k<32. bit w k \<longrightarrow> int k \<le> maxi - mini)"
    using cron_run_in_field [OF _ assms(1-3)] by (auto simp: parse_cron_time_def in_field_def)
qed

theorem parse_cron_time_numbers_witness:
  "\<exists>w. parse_cron_time (join_commas [[49], [52]]) 8 1 False = Some w \<and> bit w 0 \<and> bit w 3 \<and> \<not> bit w 1"
proof -
  have *: "\<forall>ds\<in>set [[49], [52]]. number_text ds \<and> dec_value ds < 2 ^ 31 \<and>
      0 \<le> field_index 1 False ds \<and> field_index 1 False ds \<le> 8 - 1"
    by (simp add: number_text_def is_digit_code_def dec_value_def field_index_def)
  have "field_index 1 False [49] = 0" "field_index 1 False [52] = 3"
    by (simp_all add: dec_value_def field_index_def)
  then show ?thesis using parse_cron_time_numbers [OF _ _ _ _ *] by fastforce
qed


end
