(* ===== verification/Calendar.thy ===== *)
theory Calendar
  imports Prelude
begin

text \<open>
  The part of the C library's \<open><time.h>\<close> that the sources call: broken-down time, \<open>gmtime_r\<close>,
  \<open>timegm\<close> and the time-zone dependent pair \<open>localtime_r\<close> and \<open>mktime\<close>. Years are those of the
  proleptic Gregorian calendar, as POSIX prescribes. The time-zone rules are data of the host,
  not of the program, so \<open>localtime_r\<close> and \<open>mktime\<close> are a record that the clients take as an
  argument; \<open>fixed_zone\<close> is the family of zones with a constant offset from UTC, in which both
  are computed from \<open>gmtime_r\<close> and \<open>timegm\<close>.

  The main facts: \<open>timegm\<close> inverts \<open>gmtime\<close> on every time and \<open>gmtime\<close> inverts \<open>timegm\<close> on
  every well-formed date.
\<close>

record tm =
  tm_sec :: int
  tm_min :: int
  tm_hour :: int
  tm_mday :: int
  tm_mon :: int
  tm_year :: int
  tm_wday :: int
  tm_isdst :: int

subsection \<open>Years and months\<close>

definition leap :: "int \<Rightarrow> bool" where
  "leap y \<longleftrightarrow> (4 dvd y \<and> \<not> 100 dvd y) \<or> 400 dvd y"

definition year_length :: "int \<Rightarrow> int" where
  "year_length y = (if leap y then 366 else 365)"

definition month_lengths :: "int \<Rightarrow> int list" where
  "month_lengths y = [31, if leap y then 29 else 28, 31, 30, 31, 30, 31, 31, 30, 31, 30, 31]"

definition days_before_year :: "int \<Rightarrow> int" where
  "days_before_year y = 365 * (y - 1) + (y - 1) div 4 - (y - 1) div 100 + (y - 1) div 400"

definition days_before_month :: "int \<Rightarrow> int \<Rightarrow> int" where
  "days_before_month y m = sum_list (take (nat m) (month_lengths y))"

text \<open>Year and day within the year of a day counted from 0001-01-01.\<close>

definition split_year :: "int \<Rightarrow> int \<times> int" where
  "split_year d =
     (let n400 = d div 146097; r400 = d mod 146097;
          n100 = min 3 (r400 div 36524); r100 = r400 - 36524 * n100;
          n4 = r100 div 1461; r4 = r100 mod 1461;
          n1 = min 3 (r4 div 365); r1 = r4 - 365 * n1
      in (400 * n400 + 100 * n100 + 4 * n4 + n1 + 1, r1))"

fun find_month :: "int list \<Rightarrow> int \<Rightarrow> int \<Rightarrow> int \<times> int" where
  "find_month [] m d = (m, d)"
| "find_month (n # ns) m d = (if d < n then (m, d) else find_month ns (m + 1) (d - n))"

subsection \<open>Conversions\<close>

definition epoch_day :: int where
  "epoch_day = 719162"

definition gm_tm :: "time_t \<Rightarrow> tm" where
  "gm_tm t =
     (let day = t div 86400; s = t mod 86400;
          (y, yd) = split_year (day + epoch_day);
          (m, md) = find_month (month_lengths y) 0 yd
      in \<lparr> tm_sec = s mod 60, tm_min = s div 60 mod 60, tm_hour = s div 3600,
           tm_mday = md + 1, tm_mon = m, tm_year = y - 1900, tm_wday = (day + 4) mod 7,
           tm_isdst = 0 \<rparr>)"

text \<open>\<open>gmtime_r\<close> returns NULL when the year does not fit an \<open>int\<close>.\<close>

definition gmtime_r :: "time_t \<Rightarrow> tm option" where
  "gmtime_r t = (if int_range (tm_year (gm_tm t)) then Some (gm_tm t) else None)"

definition timegm :: "tm \<Rightarrow> time_t" where
  "timegm x =
     (let y = tm_year x + 1900 + tm_mon x div 12;
          day = days_before_year y - epoch_day + days_before_month y (tm_mon x mod 12)
                + tm_mday x - 1
      in day * 86400 + tm_hour x * 3600 + tm_min x * 60 + tm_sec x)"

text \<open>The well-formed broken-down times: those that \<open>gmtime_r\<close> produces.\<close>

definition date_ok :: "int \<Rightarrow> int \<Rightarrow> int \<Rightarrow> bool" where
  "date_ok y m d \<longleftrightarrow> 0 \<le> m \<and> m < 12 \<and> 1 \<le> d \<and> d \<le> month_lengths y ! nat m"

definition tm_ok :: "tm \<Rightarrow> bool" where
  "tm_ok x \<longleftrightarrow>
     0 \<le> tm_sec x \<and> tm_sec x < 60 \<and> 0 \<le> tm_min x \<and> tm_min x < 60 \<and>
     0 \<le> tm_hour x \<and> tm_hour x < 24 \<and> date_ok (tm_year x + 1900) (tm_mon x) (tm_mday x)"

subsection \<open>Facts about months\<close>

lemma length_month_lengths [simp]: "length (month_lengths y) = 12"
  by (simp add: month_lengths_def)

lemma sum_month_lengths: "sum_list (month_lengths y) = year_length y"
  by (simp add: month_lengths_def year_length_def)

lemma month_lengths_pos: "n \<in> set (month_lengths y) \<Longrightarrow> 28 \<le> n \<and> n \<le> 31"
  by (auto simp: month_lengths_def split: if_splits)

lemma month_length_bounds:
  "0 \<le> m \<Longrightarrow> m < 12 \<Longrightarrow> 28 \<le> month_lengths y ! nat m \<and> month_lengths y ! nat m \<le> 31"
  by (rule month_lengths_pos [of _ y]) simp

lemma find_month_sound:
  assumes "0 \<le> d" and "d < sum_list ns"
  shows "\<exists>k < length ns. find_month ns m d = (m + int k, d - sum_list (take k ns)) \<and>
           0 \<le> d - sum_list (take k ns) \<and> d - sum_list (take k ns) < ns ! k"
  using assms
proof (induction ns arbitrary: m d)
  case Nil
  then show ?case by simp
next
  case (Cons n ns)
  show ?case
  proof (cases "d < n")
    case True
    with Cons.prems show ?thesis by (intro exI [of _ 0]) simp
  next
    case False
    with Cons.prems have "0 \<le> d - n" "d - n < sum_list ns" by simp_all
    from Cons.IH [OF this, of "m + 1"] obtain k where k: "k < length ns"
      "find_month ns (m + 1) (d - n) = (m + 1 + int k, d - n - sum_list (take k ns))"
      "0 \<le> d - n - sum_list (take k ns)" "d - n - sum_list (take k ns) < ns ! k"
      by blast
    with False show ?thesis by (intro exI [of _ "Suc k"]) simp
  qed
qed

lemma find_month_complete:
  assumes "k < length ns" and "\<forall>n \<in> set ns. 0 \<le> n" and "0 \<le> e" and "e < ns ! k"
  shows "find_month ns m (sum_list (take k ns) + e) = (m + int k, e)"
  using assms
proof (induction ns arbitrary: k m)
  case Nil
  then show ?case by simp
next
  case (Cons n ns)
  show ?case
  proof (cases k)
    case 0
    with Cons.prems show ?thesis by simp
  next
    case (Suc j)
    with Cons.prems have "0 \<le> sum_list (take j ns)"
      by (intro sum_list_nonneg) (auto dest: in_set_takeD)
    with Cons.prems Suc Cons.IH [of j "m + 1"] show ?thesis by simp
  qed
qed

subsection \<open>Facts about years\<close>

lemma leap_day_sum:
  fixes a b c y :: int
  assumes "a' = a + (if p then 1 else 0)" and "b' = b + (if q then 1 else 0)"
    and "c' = c + (if r then 1 else 0)" and "q \<longrightarrow> p" and "r \<longrightarrow> q"
  shows "365 * y + a' - b' + c' = 365 * (y - 1) + a - b + c + (if p \<and> \<not> q \<or> r then 366 else 365)"
  using assms by auto

lemma days_before_year_step: "days_before_year (y + 1) = days_before_year y + year_length y"
proof -
  have "100 dvd y \<longrightarrow> 4 dvd y" and "400 dvd y \<longrightarrow> 100 dvd y"
    by (auto intro: dvd_trans)
  from leap_day_sum [OF div_pred div_pred div_pred this] show ?thesis
    by (simp only: days_before_year_def year_length_def leap_def add_diff_cancel_right' zero_less_numeral)
qed

lemma year_length_bounds: "365 \<le> year_length y" "year_length y \<le> 366"
  by (simp_all add: year_length_def)

lemma days_before_year_mono: "days_before_year y + 365 * int n \<le> days_before_year (y + int n)"
proof (induction n)
  case 0
  then show ?case by simp
next
  case (Suc n)
  have "days_before_year (y + int (Suc n)) =
      days_before_year (y + int n) + year_length (y + int n)"
    using days_before_year_step [of "y + int n"] by (simp add: ac_simps)
  with Suc year_length_bounds(1) [of "y + int n"] show ?case by simp
qed

lemma days_before_year_less: "y < y' \<Longrightarrow> days_before_year y + year_length y \<le> days_before_year y'"
  using days_before_year_mono [of "y + 1" "nat (y' - y - 1)"] days_before_year_step [of y] by simp

lemma year_unique:
  assumes "days_before_year y + d = days_before_year y' + d'"
    and "0 \<le> d" "d < year_length y" "0 \<le> d'" "d' < year_length y'"
  shows "y = y' \<and> d = d'"
proof -
  have "\<not> y < y'" using days_before_year_less [of y y'] assms by linarith
  moreover have "\<not> y' < y" using days_before_year_less [of y' y] assms by linarith
  ultimately show ?thesis using assms(1) by simp
qed

lemma split_year_parts:
  fixes a b c e :: int
  assumes "0 \<le> b" "b \<le> 3" "0 \<le> c" "c \<le> 24" "0 \<le> e" "e \<le> 3"
  shows "days_before_year (400 * a + 100 * b + 4 * c + e + 1) =
           146097 * a + 36524 * b + 1461 * c + 365 * e"
    and "leap (400 * a + 100 * b + 4 * c + e + 1) \<longleftrightarrow> e = 3 \<and> (c < 24 \<or> b = 3)"
proof -
  let ?z = "400 * a + 100 * b + 4 * c + e"
  have "?z div 4 = 100 * a + 25 * b + c" by (rule int_div_eqI [of _ _ _ e]) (use assms in simp_all)
  moreover have "?z div 100 = 4 * a + b"
    by (rule int_div_eqI [of _ _ _ "4 * c + e"]) (use assms in simp_all)
  moreover have "?z div 400 = a"
    by (rule int_div_eqI [of _ _ _ "100 * b + 4 * c + e"]) (use assms in simp_all)
  ultimately show "days_before_year (?z + 1) = 146097 * a + 36524 * b + 1461 * c + 365 * e"
    by (simp add: days_before_year_def)
  have "4 dvd ?z + 1 \<longleftrightarrow> e = 3"
    using assms dvd_add_right_iff [of 4 "4 * (100 * a + 25 * b + c)" "e + 1"]
    by (auto simp: algebra_simps dest: zdvd_imp_le)
  moreover have "100 dvd ?z + 1 \<longleftrightarrow> 4 * c + e = 99"
    using assms dvd_add_right_iff [of 100 "100 * (4 * a + b)" "4 * c + e + 1"]
    by (auto simp: algebra_simps dest: zdvd_imp_le)
  moreover have "400 dvd ?z + 1 \<longleftrightarrow> 100 * b + 4 * c + e = 399"
    using assms dvd_add_right_iff [of 400 "400 * a" "100 * b + 4 * c + e + 1"]
    by (auto simp: algebra_simps dest: zdvd_imp_le)
  ultimately show "leap (?z + 1) \<longleftrightarrow> e = 3 \<and> (c < 24 \<or> b = 3)"
    using assms by (auto simp: leap_def)
qed

lemma quarter_split:
  fixes r k :: int
  assumes "0 \<le> r" and "0 < k" and "r \<le> 4 * k" and b: "b = min 3 (r div k)"
  shows "0 \<le> b \<and> b \<le> 3 \<and> 0 \<le> r - k * b \<and> r - k * b \<le> k \<and> (b < 3 \<longrightarrow> r - k * b < k)"
proof (cases "r div k \<le> 3")
  case True
  then have "b = r div k" using b by simp
  moreover from this have "r - k * b = r mod k" by (simp add: minus_mult_div_eq_mod)
  moreover have "0 \<le> r mod k" "r mod k < k" "0 \<le> r div k"
    using assms by (simp_all add: pos_imp_zdiv_nonneg_iff)
  ultimately show ?thesis using True by simp
next
  case False
  then have "k * 4 \<le> k * (r div k)" using assms(2) by simp
  moreover have "k * (r div k) + r mod k = r" "0 \<le> r mod k" using assms(2) by simp_all
  ultimately have "r = 4 * k" using assms(3) by linarith
  then show ?thesis using b assms(2) by simp
qed

lemma split_year_sound:
  assumes "split_year d = (y, yd)"
  shows "days_before_year y + yd = d" and "0 \<le> yd" and "yd < year_length y"
proof -
  define a where "a = d div 146097"
  define r where "r = d mod 146097"
  define b where "b = min 3 (r div 36524)"
  define s where "s = r - 36524 * b"
  define c where "c = s div 1461"
  define u where "u = s mod 1461"
  define e where "e = min 3 (u div 365)"
  have d: "d = 146097 * a + r" and r: "0 \<le> r" "r < 146097"
    by (simp_all add: a_def r_def)
  have b: "0 \<le> b" "b \<le> 3" and s: "0 \<le> s" "s \<le> 36524" "b < 3 \<longrightarrow> s < 36524"
    using quarter_split [of r 36524 b] r by (simp_all add: b_def s_def)
  have u: "0 \<le> u" "u < 1461" and su: "s = 1461 * c + u" by (simp_all add: u_def c_def)
  have c: "0 \<le> c" "c \<le> 24" using s su u by linarith+
  have e: "0 \<le> e" "e \<le> 3" and v: "0 \<le> u - 365 * e" "u - 365 * e \<le> 365" "e < 3 \<longrightarrow> u - 365 * e < 365"
    using quarter_split [of u 365 e] u by (simp_all add: e_def)
  have "split_year d = (400 * a + 100 * b + 4 * c + e + 1, u - 365 * e)"
    unfolding split_year_def a_def r_def b_def s_def c_def u_def e_def Let_def by (rule refl)
  then have y: "y = 400 * a + 100 * b + 4 * c + e + 1" and yd: "yd = u - 365 * e"
    unfolding assms by (simp_all only: prod.inject)
  note parts = split_year_parts [OF b c e, of a]
  show "days_before_year y + yd = d"
    unfolding y parts(1) yd using d su by (simp add: s_def)
  show "0 \<le> yd" using v yd by simp
  have "u < 1460" if "c = 24" and "b < 3" using s(3) su that by simp
  then show "yd < year_length y"
    unfolding year_length_def y parts(2) yd using v b c e by auto
qed

lemma split_year_complete:
  assumes "0 \<le> yd" and "yd < year_length y"
  shows "split_year (days_before_year y + yd) = (y, yd)"
proof -
  obtain y' yd' where s: "split_year (days_before_year y + yd) = (y', yd')" by fastforce
  show ?thesis
    using year_unique [of y yd y' yd'] split_year_sound [OF s] assms s by auto
qed

subsection \<open>The two conversions are inverse\<close>

lemma days_before_month_bound:
  assumes "date_ok y m d"
  shows "0 \<le> days_before_month y m + d - 1" and "days_before_month y m + d - 1 < year_length y"
proof -
  have m: "0 \<le> m" "nat m < 12" and d: "1 \<le> d" "d \<le> month_lengths y ! nat m"
    using assms by (auto simp: date_ok_def)
  have pos: "0 \<le> sum_list (take (nat m) (month_lengths y))"
      "0 \<le> sum_list (drop (Suc (nat m)) (month_lengths y))"
    by (auto intro!: sum_list_nonneg dest!: in_set_takeD in_set_dropD month_lengths_pos)
  have "sum_list (month_lengths y) = sum_list (take (nat m) (month_lengths y))
      + (month_lengths y ! nat m + sum_list (drop (Suc (nat m)) (month_lengths y)))"
    using m by (metis Cons_nth_drop_Suc append_take_drop_id length_month_lengths
        sum_list.Cons sum_list_append)
  with pos d show "0 \<le> days_before_month y m + d - 1"
    "days_before_month y m + d - 1 < year_length y"
    by (simp_all add: days_before_month_def sum_month_lengths)
qed

lemma gm_tm_ok: "tm_ok (gm_tm t)"
  and timegm_gm_tm: "timegm (gm_tm t) = t"
  and gm_tm_wday: "tm_wday (gm_tm t) = (t div 86400 + 4) mod 7"
proof -
  obtain y yd where s: "split_year (t div 86400 + epoch_day) = (y, yd)" by fastforce
  note sy = split_year_sound [OF s]
  obtain k where k: "k < 12" "find_month (month_lengths y) 0 yd =
      (int k, yd - sum_list (take k (month_lengths y)))"
      "0 \<le> yd - sum_list (take k (month_lengths y))"
      "yd - sum_list (take k (month_lengths y)) < month_lengths y ! k"
    using find_month_sound [of yd "month_lengths y" 0] sy(2,3) by (auto simp: sum_month_lengths)
  have bounds: "0 \<le> t mod 86400" "t mod 86400 < 86400" by simp_all
  have g: "gm_tm t = \<lparr> tm_sec = t mod 86400 mod 60, tm_min = t mod 86400 div 60 mod 60,
      tm_hour = t mod 86400 div 3600, tm_mday = yd - sum_list (take k (month_lengths y)) + 1,
      tm_mon = int k, tm_year = y - 1900, tm_wday = (t div 86400 + 4) mod 7, tm_isdst = 0 \<rparr>"
    by (simp add: gm_tm_def s k(2) Let_def)
  show "tm_ok (gm_tm t)"
    using k bounds by (auto simp: g tm_ok_def date_ok_def)
  show "tm_wday (gm_tm t) = (t div 86400 + 4) mod 7" by (simp add: g)
  have day: "days_before_year y + yd = t div 86400 + epoch_day" by (rule sy(1))
  have "timegm (gm_tm t) = t div 86400 * 86400 + (t mod 86400 div 3600 * 3600
      + t mod 86400 div 60 mod 60 * 60 + t mod 86400 mod 60)"
    using k(1) day by (simp add: g timegm_def days_before_month_def Let_def del: mod_mod_cancel)
  also have "\<dots> = t" by (simp only: hms_join div_mult_mod_eq)
  finally show "timegm (gm_tm t) = t" .
qed

lemma gm_tm_timegm:
  assumes ok: "tm_ok x"
  shows "gm_tm (timegm x) =
    x\<lparr>tm_wday := (timegm x div 86400 + 4) mod 7, tm_isdst := 0\<rparr>"
proof -
  let ?y = "tm_year x + 1900" and ?m = "tm_mon x" and ?d = "tm_mday x"
  let ?day = "days_before_year ?y - epoch_day + days_before_month ?y ?m + ?d - 1"
  let ?s = "tm_hour x * 3600 + tm_min x * 60 + tm_sec x"
  have dok: "date_ok ?y ?m ?d" and m: "0 \<le> ?m" "?m < 12"
    and d: "1 \<le> ?d" "?d \<le> month_lengths ?y ! nat ?m"
    using ok by (auto simp: tm_ok_def date_ok_def)
  have s: "0 \<le> ?s" "?s < 86400" using ok unfolding tm_ok_def by linarith+
  have t: "timegm x = ?day * 86400 + ?s" using m by (simp add: timegm_def Let_def)
  have div: "timegm x div 86400 = ?day" and mod: "timegm x mod 86400 = ?s"
    by (rule int_div_eqI [of _ _ _ ?s] int_mod_eqI [of _ _ ?day]; use s t in simp)+
  have sy: "split_year (?day + epoch_day) = (?y, days_before_month ?y ?m + ?d - 1)"
    using split_year_complete [OF days_before_month_bound [OF dok]]
    by (simp add: algebra_simps)
  have fm: "find_month (month_lengths ?y) 0 (days_before_month ?y ?m + ?d - 1) = (?m, ?d - 1)"
  proof -
    have "\<forall>n \<in> set (month_lengths ?y). 0 \<le> n" by (auto dest: month_lengths_pos)
    from find_month_complete [OF _ this, of "nat ?m" "?d - 1" 0] m d show ?thesis
      by (simp add: days_before_month_def algebra_simps)
  qed
  have parts: "?s mod 60 = tm_sec x" "?s div 60 mod 60 = tm_min x" "?s div 3600 = tm_hour x"
    using ok hms_split [of "tm_min x" "tm_sec x" "tm_hour x"] by (simp_all add: tm_ok_def)
  show ?thesis
    unfolding gm_tm_def Let_def div mod sy prod.case fm parts by simp
qed

subsection \<open>Local time\<close>

record zone =
  localtime_r :: "time_t \<Rightarrow> tm"
  mktime :: "tm \<Rightarrow> time_t"

definition fixed_zone :: "int \<Rightarrow> zone" where
  "fixed_zone off = \<lparr> localtime_r = (\<lambda>t. gm_tm (t + off)), mktime = (\<lambda>x. timegm x - off) \<rparr>"

text \<open>The civil second a broken-down time names, with out-of-range fields carried over as
  \<open>mktime\<close> does.\<close>

abbreviation civil :: "tm \<Rightarrow> int" where
  "civil \<equiv> timegm"

text \<open>
  What the rounding and moving routines of \<open>szbdate.cc\<close> rely on: \<open>localtime_r\<close> delivers
  well-formed fields, and \<open>mktime\<close> finds a time whose local reading is the requested civil
  second, for the civil seconds that exist in the zone (a transition to summer time skips some).
\<close>

locale time_zone =
  fixes lt :: "time_t \<Rightarrow> tm" and mk :: "tm \<Rightarrow> time_t" and exists_civil :: "int \<Rightarrow> bool"
  assumes lt_ok: "tm_ok (lt t)"
    and lt_mk: "exists_civil (civil x) \<Longrightarrow> civil (lt (mk x)) = civil x"
    and exists_lt: "exists_civil (civil (lt t))"
    and mk_cong: "civil x = civil y \<Longrightarrow> tm_isdst x = tm_isdst y \<Longrightarrow> mk x = mk y"
begin

lemma lt_mk_fields:
  assumes "tm_ok x" and "exists_civil (civil x)"
  shows "tm_sec (lt (mk x)) = tm_sec x" "tm_min (lt (mk x)) = tm_min x"
    "tm_hour (lt (mk x)) = tm_hour x" "tm_mday (lt (mk x)) = tm_mday x"
    "tm_mon (lt (mk x)) = tm_mon x" "tm_year (lt (mk x)) = tm_year x"
proof -
  have "gm_tm (civil (lt (mk x))) = gm_tm (civil x)"
    using lt_mk assms(2) by simp
  then have "(lt (mk x))\<lparr>tm_wday := (civil x div 86400 + 4) mod 7, tm_isdst := 0\<rparr>
      = x\<lparr>tm_wday := (civil x div 86400 + 4) mod 7, tm_isdst := 0\<rparr>"
    using gm_tm_timegm [OF lt_ok, of "mk x"] gm_tm_timegm [OF assms(1)] lt_mk [OF assms(2)] by simp
  note eq = this
  show "tm_sec (lt (mk x)) = tm_sec x" using arg_cong [OF eq, of tm_sec] by simp
  show "tm_min (lt (mk x)) = tm_min x" using arg_cong [OF eq, of tm_min] by simp
  show "tm_hour (lt (mk x)) = tm_hour x" using arg_cong [OF eq, of tm_hour] by simp
  show "tm_mday (lt (mk x)) = tm_mday x" using arg_cong [OF eq, of tm_mday] by simp
  show "tm_mon (lt (mk x)) = tm_mon x" using arg_cong [OF eq, of tm_mon] by simp
  show "tm_year (lt (mk x)) = tm_year x" using arg_cong [OF eq, of tm_year] by simp
qed

end

interpretation fz: time_zone "localtime_r (fixed_zone off)" "mktime (fixed_zone off)" "\<lambda>_. True"
  by unfold_locales (simp_all add: fixed_zone_def gm_tm_ok timegm_gm_tm)

end
