(* ===== verification/Szb_Date.thy ===== *)
theory Szb_Date
  imports Calendar
begin

text \<open>
  The date arithmetic of the data base, \<open>libSzarp2/szbase/szbdate.cc\<close>: how many ten-minute
  probes a month has, which month file and which index in it a time belongs to, the way back from
  an index to a time, and rounding and moving of times by probe type.

  A data file holds the probes of one month of UTC time, so these functions fix the meaning of
  every file of the data base. The theorems at the end show that time and (year, month, index)
  determine each other.
\<close>

subsection \<open>Constants of szbdefines.h\<close>

definition SZBASE_MIN_YEAR :: int where "SZBASE_MIN_YEAR = 0"
definition SZBASE_MAX_YEAR :: int where "SZBASE_MAX_YEAR = 9999"
definition SZBASE_DATA_SPAN :: int where "SZBASE_DATA_SPAN = 600"
definition SZBASE_PROBE_SPAN :: int where "SZBASE_PROBE_SPAN = 10"
definition SZBASE_PROBES_IN_BLOCK :: int where "SZBASE_PROBES_IN_BLOCK = 1800"
definition SZBASE_DATA_PER_DAY :: int where "SZBASE_DATA_PER_DAY = 24 * (3600 div 600)"

lemmas szb_consts = SZBASE_MIN_YEAR_def SZBASE_MAX_YEAR_def SZBASE_DATA_SPAN_def
  SZBASE_PROBE_SPAN_def SZBASE_PROBES_IN_BLOCK_def SZBASE_DATA_PER_DAY_def

datatype SZARP_PROBE_TYPE =
  PT_SEC10 | PT_MIN10 | PT_HOUR | PT_HOUR8 | PT_DAY | PT_WEEK | PT_MONTH | PT_YEAR | PT_CUSTOM

subsection \<open>Months\<close>

definition szb_daysinmonth :: "int \<Rightarrow> int \<Rightarrow> int option" where
  "szb_daysinmonth year month =
     (let dm = [0, 31, 29, 31, 30, 31, 30, 31, 31, 30, 31, 30, 31, 0] in
      if month = 2 \<and> year smod 400 = 0 then Some 29
      else if month = 2 \<and> year smod 100 = 0 then Some 28
      else if month = 2 \<and> year smod 4 = 0 then Some 29
      else c_index dm month)"

definition szb_probecnt :: "int \<Rightarrow> int \<Rightarrow> int option" where
  "szb_probecnt year month =
     (let probes = map (\<lambda>d. d * SZBASE_DATA_PER_DAY)
            [0, 31, 28, 31, 30, 31, 30, 31, 31, 30, 31, 30, 31, 0] in
      if year < SZBASE_MIN_YEAR \<or> year > SZBASE_MAX_YEAR then Some 0
      else if month = 2 \<and> year smod 400 = 0 then Some (29 * SZBASE_DATA_PER_DAY)
      else if month = 2 \<and> year smod 100 = 0 then Some (28 * SZBASE_DATA_PER_DAY)
      else if month = 2 \<and> year smod 4 = 0 then Some (29 * SZBASE_DATA_PER_DAY)
      else c_index probes month)"

text \<open>The result is \<open>Inl\<close> of the non-zero return code, or \<open>Inr (year, month)\<close> for return code
  0 with the two out arguments. The flags say which out pointers are NULL.\<close>

definition szb_time2my :: "time_t \<Rightarrow> bool \<Rightarrow> bool \<Rightarrow> int + int \<times> int" where
  "szb_time2my time year_null month_null =
     (if year_null then Inl 2
      else if month_null then Inl 3
      else case gmtime_r time of
        None \<Rightarrow> Inl 1
      | Some p \<Rightarrow> Inr (c_int (tm_year p + 1900), tm_mon p + 1))"

abbreviation time2my :: "time_t \<Rightarrow> int + int \<times> int" where
  "time2my t \<equiv> szb_time2my t False False"

subsection \<open>Probe indices\<close>

definition day_sec :: "int list" where
  "day_sec = 0 # map (\<lambda>d. int d * 86400) [0..<31]"

definition hour_sec :: "int list" where
  "hour_sec = map (\<lambda>h. int h * 3600) [0..<24]"

text \<open>\<open>None\<close>: the broken-down time is not initialised (\<open>gmtime_r\<close> failed, its result is not
  looked at), a table is read out of range, or the probe length is zero.\<close>

definition szb_probeind :: "time_t \<Rightarrow> time_t \<Rightarrow> int option" where
  "szb_probeind t probe_length =
     (case gmtime_r t of
        None \<Rightarrow> None
      | Some x \<Rightarrow>
          (case (c_index day_sec (tm_mday x), c_index hour_sec (tm_hour x)) of
             (Some d, Some h) \<Rightarrow>
               if probe_length = 0 then None
               else Some (c_int ((d + h + tm_min x * 60 + tm_sec x) sdiv probe_length))
           | _ \<Rightarrow> None))"

definition probe2time :: "int \<Rightarrow> int \<Rightarrow> int \<Rightarrow> time_t" where
  "probe2time probe year month =
     timegm \<lparr> tm_sec = 0, tm_min = 0, tm_hour = 0, tm_mday = 1, tm_mon = c_int (month - 1),
              tm_year = c_int (year - 1900), tm_wday = 0, tm_isdst = 0 \<rparr>
     + c_int (probe * SZBASE_DATA_SPAN)"

definition probe2gmt :: "int \<Rightarrow> int \<Rightarrow> int \<Rightarrow> tm option" where
  "probe2gmt probe year month = gmtime_r (probe2time probe year month)"

definition probe2local :: "zone \<Rightarrow> int \<Rightarrow> int \<Rightarrow> int \<Rightarrow> tm" where
  "probe2local z probe year month = localtime_r z (probe2time probe year month)"

subsection \<open>Rounding and moving\<close>

definition szb_round_time :: "zone \<Rightarrow> time_t \<Rightarrow> SZARP_PROBE_TYPE \<Rightarrow> int \<Rightarrow> time_t" where
  "szb_round_time z t probe_type custom_length =
     (if t \<le> 0 then -1
      else if probe_type = PT_CUSTOM \<and> custom_length \<le> 0 then -1
      else let x = localtime_r z t in
        case probe_type of
          PT_CUSTOM \<Rightarrow> t - t smod custom_length
        | PT_MIN10 \<Rightarrow> t - t smod 600
        | PT_SEC10 \<Rightarrow> t - t smod 10
        | PT_HOUR \<Rightarrow> t - t smod 3600
        | PT_HOUR8 \<Rightarrow> mktime z (x\<lparr>tm_sec := 0, tm_min := 0,
              tm_hour := tm_hour x - tm_hour x smod 8, tm_isdst := -1\<rparr>)
        | PT_DAY \<Rightarrow> mktime z (x\<lparr>tm_sec := 0, tm_min := 0, tm_hour := 0, tm_isdst := -1\<rparr>)
        | PT_WEEK \<Rightarrow> mktime z (x\<lparr>tm_sec := 0, tm_min := 0, tm_hour := 0,
              tm_mday := tm_mday x + (tm_wday x - 1), tm_isdst := -1\<rparr>)
        | PT_MONTH \<Rightarrow> mktime z (x\<lparr>tm_sec := 0, tm_min := 0, tm_hour := 0, tm_mday := 1,
              tm_isdst := -1\<rparr>)
        | PT_YEAR \<Rightarrow> mktime z (x\<lparr>tm_sec := 0, tm_min := 0, tm_hour := 0, tm_mday := 1,
              tm_mon := 1, tm_isdst := -1\<rparr>))"

definition szb_move_time :: "zone \<Rightarrow> time_t \<Rightarrow> int \<Rightarrow> SZARP_PROBE_TYPE \<Rightarrow> int \<Rightarrow> time_t" where
  "szb_move_time z t count probe_type custom_length =
     (if t \<le> 0 then -1
      else if probe_type = PT_CUSTOM \<and> custom_length \<le> 0 then -1
      else let x = localtime_r z t in
        case probe_type of
          PT_CUSTOM \<Rightarrow> t + c_int (custom_length * count)
        | PT_MIN10 \<Rightarrow> t + c_int (count * 600)
        | PT_SEC10 \<Rightarrow> t + c_int (count * 10)
        | PT_HOUR \<Rightarrow> t + c_int (count * 3600)
        | PT_HOUR8 \<Rightarrow> mktime z (x\<lparr>tm_hour := c_int (tm_hour x + c_int (count * 8)), tm_isdst := -1\<rparr>)
        | PT_DAY \<Rightarrow> mktime z (x\<lparr>tm_mday := c_int (tm_mday x + count), tm_isdst := -1\<rparr>)
        | PT_WEEK \<Rightarrow> mktime z (x\<lparr>tm_mday := c_int (tm_mday x + c_int (count * 7)), tm_isdst := -1\<rparr>)
        | PT_MONTH \<Rightarrow> mktime z (x\<lparr>tm_mon := c_int (tm_mon x + count), tm_isdst := -1\<rparr>)
        | PT_YEAR \<Rightarrow> mktime z (x\<lparr>tm_year := c_int (tm_year x + count), tm_isdst := -1\<rparr>))"

definition szb_round_to_probe_block_start :: "time_t \<Rightarrow> time_t" where
  "szb_round_to_probe_block_start t = t - t smod (SZBASE_PROBES_IN_BLOCK * SZBASE_PROBE_SPAN)"

subsection \<open>Months and years in use\<close>

definition month_ok :: "int \<Rightarrow> int \<Rightarrow> bool" where
  "month_ok year month \<longleftrightarrow> 0 \<le> year \<and> year \<le> 9999 \<and> 1 \<le> month \<and> month \<le> 12"

lemma month_cases:
  assumes "1 \<le> (m :: int)" and "m \<le> 12"
  obtains "m = 1" | "m = 2" | "m = 3" | "m = 4" | "m = 5" | "m = 6"
    | "m = 7" | "m = 8" | "m = 9" | "m = 10" | "m = 11" | "m = 12"
proof -
  have "m = 1 \<or> m = 2 \<or> m = 3 \<or> m = 4 \<or> m = 5 \<or> m = 6 \<or> m = 7 \<or> m = 8 \<or> m = 9 \<or>
      m = 10 \<or> m = 11 \<or> m = 12"
    using assms by arith
  with that show thesis by blast
qed

lemma leap_smod:
  "leap y \<longleftrightarrow> y smod 400 = 0 \<or> y smod 100 \<noteq> 0 \<and> y smod 4 = 0"
  by (auto simp: leap_def smod_eq_0_iff)

lemma szb_probecnt_eq:
  assumes "month_ok y m"
  shows "szb_probecnt y m = Some (month_lengths y ! nat (m - 1) * 144)"
proof -
  have "1 \<le> m" "m \<le> 12" using assms by (simp_all add: month_ok_def)
  then show ?thesis
    by (rule month_cases)
      (use assms in \<open>auto simp: szb_probecnt_def month_lengths_def leap_smod month_ok_def
        szb_consts c_index_def Let_def\<close>)
qed

lemma szb_probecnt_bounds:
  assumes "month_ok y m"
  shows "\<exists>n. szb_probecnt y m = Some n \<and> 4032 \<le> n \<and> n \<le> 4464"
proof -
  have "0 \<le> m - 1" "m - 1 < 12" using assms by (auto simp: month_ok_def)
  from month_length_bounds [OF this, of y] show ?thesis
    by (simp add: szb_probecnt_eq [OF assms])
qed

subsection \<open>Seconds within a month\<close>

lemma day_sec_index: "1 \<le> d \<Longrightarrow> d \<le> 31 \<Longrightarrow> c_index day_sec d = Some ((d - 1) * 86400)"
proof -
  assume d: "1 \<le> d" "d \<le> 31"
  define k where "k = nat (d - 1)"
  then have "d = 1 + int k" and "k < 31" using d by simp_all
  then show ?thesis
    by (simp add: c_index_def day_sec_def nat_add_distrib del: upt_rec_numeral)
qed

lemma hour_sec_index: "0 \<le> h \<Longrightarrow> h < 24 \<Longrightarrow> c_index hour_sec h = Some (h * 3600)"
  by (simp add: c_index_def hour_sec_def nat_less_iff del: upt_rec_numeral)

text \<open>The offset of a time in its month, which \<open>szb_probeind\<close> divides by the probe length.\<close>

definition month_secs :: "tm \<Rightarrow> int" where
  "month_secs x = (tm_mday x - 1) * 86400 + tm_hour x * 3600 + tm_min x * 60 + tm_sec x"

definition month_start :: "int \<Rightarrow> int \<Rightarrow> time_t" where
  "month_start y m = (days_before_year y - epoch_day + days_before_month y (m - 1)) * 86400"

lemma month_secs_bounds:
  assumes "tm_ok x"
  shows "0 \<le> month_secs x"
    and "month_secs x < month_lengths (tm_year x + 1900) ! nat (tm_mon x) * 86400"
  using assms by (auto simp: tm_ok_def date_ok_def month_secs_def)

lemma timegm_month_secs:
  assumes "tm_ok x"
  shows "timegm x = month_start (tm_year x + 1900) (tm_mon x + 1) + month_secs x"
  using assms by (simp add: tm_ok_def date_ok_def timegm_def month_start_def month_secs_def
      Let_def algebra_simps)

lemma probe2time_eq:
  assumes "month_ok y m"
  shows "probe2time p y m = month_start y m + c_int (p * 600)"
  using assms by (simp add: probe2time_def month_start_def timegm_def Let_def month_ok_def
      int_range_def szb_consts)

lemma szb_probeind_eq:
  assumes "gmtime_r t = Some x" and "0 < len"
  shows "szb_probeind t len = Some (month_secs x div len)"
proof -
  have x: "x = gm_tm t" using assms(1) by (auto simp: gmtime_r_def split: if_splits)
  then have ok: "tm_ok x" using gm_tm_ok by simp
  then have "1 \<le> tm_mday x" "tm_mday x \<le> 31" "0 \<le> tm_hour x" "tm_hour x < 24"
    using month_length_bounds [of "tm_mon x" "tm_year x + 1900"]
    by (auto simp: tm_ok_def date_ok_def)
  note tabs = day_sec_index [OF this(1,2)] hour_sec_index [OF this(3,4)]
  have len: "month_lengths (tm_year x + 1900) ! nat (tm_mon x) \<le> 31"
    using month_length_bounds ok by (auto simp: tm_ok_def date_ok_def)
  have ms: "0 \<le> month_secs x" "month_secs x < 31 * 86400"
    using month_secs_bounds [OF ok] len by linarith+
  have "0 \<le> month_secs x div len" and "month_secs x div len \<le> month_secs x"
    using ms assms(2) zdiv_mono2 [of "month_secs x" 1 len]
    by (simp_all add: pos_imp_zdiv_nonneg_iff)
  then have "int_range (month_secs x div len)" using ms by (simp add: int_range_def)
  moreover have "(tm_mday x - 1) * 86400 + tm_hour x * 3600 + tm_min x * 60 + tm_sec x
      = month_secs x" by (simp add: month_secs_def)
  ultimately show ?thesis
    using assms tabs ms by (simp add: szb_probeind_def sdiv_nonneg)
qed

lemma time2my_eq:
  assumes "time2my t = Inr (y, m)" and "0 \<le> y" and "y \<le> 9999"
  obtains "gmtime_r t = Some (gm_tm t)" and "y = tm_year (gm_tm t) + 1900"
    and "m = tm_mon (gm_tm t) + 1" and "month_ok y m"
proof -
  let ?x = "gm_tm t"
  have g: "gmtime_r t = Some ?x" and y: "y = c_int (tm_year ?x + 1900)" and m: "m = tm_mon ?x + 1"
    using assms(1) by (auto simp: szb_time2my_def gmtime_r_def split: option.splits if_splits)
  then have r: "int_range (tm_year ?x)" by (auto simp: gmtime_r_def split: if_splits)
  have "y = tm_year ?x + 1900"
  proof (cases "int_range (tm_year ?x + 1900)")
    case True
    then show ?thesis using y by simp
  next
    case False
    with r have big: "2 ^ 31 \<le> tm_year ?x + 1900" "tm_year ?x + 1900 < 2 ^ 31 + 1900"
      by (auto simp: int_range_def)
    have "c_int (tm_year ?x + 1900) = c_int (tm_year ?x + 1900 - 2 ^ 32)"
      by (simp only: c_int_wrap)
    also have "\<dots> = tm_year ?x + 1900 - 2 ^ 32"
      using big by (intro c_int_id) (auto simp: int_range_def)
    finally show ?thesis using y big assms(2) by simp
  qed
  moreover have "1 \<le> m" "m \<le> 12" using gm_tm_ok [of t] m by (auto simp: tm_ok_def date_ok_def)
  ultimately show thesis using that g m assms(2,3) by (auto simp: month_ok_def)
qed

subsection \<open>Time and (year, month, index) determine each other\<close>

lemma month_start_aligned: "month_start y m mod 600 = 0"
  by (simp add: month_start_def mod_eq_0_iff_dvd)

lemma gm_tm_fields:
  assumes "tm_ok x"
  shows "tm_ok (gm_tm (timegm x))" "tm_year (gm_tm (timegm x)) = tm_year x"
    "tm_mon (gm_tm (timegm x)) = tm_mon x" "month_secs (gm_tm (timegm x)) = month_secs x"
  using assms unfolding gm_tm_timegm [OF assms] by (simp_all add: tm_ok_def month_secs_def)

lemma probe_tm:
  assumes "month_ok y m" and "szb_probecnt y m = Some n" and "0 \<le> p" and "p < n"
  shows "tm_ok (gm_tm (probe2time p y m)) \<and> tm_year (gm_tm (probe2time p y m)) = y - 1900 \<and>
    tm_mon (gm_tm (probe2time p y m)) = m - 1 \<and> month_secs (gm_tm (probe2time p y m)) = p * 600"
proof -
  define x where "x = \<lparr> tm_sec = 0, tm_min = p mod 6 * 10, tm_hour = p div 6 mod 24,
    tm_mday = p div 144 + 1, tm_mon = m - 1, tm_year = y - 1900, tm_wday = 0, tm_isdst = 0 \<rparr>"
  have n: "n = month_lengths y ! nat (m - 1) * 144" using szb_probecnt_eq assms by simp
  have m: "0 \<le> m - 1" "m - 1 < 12" using assms(1) by (auto simp: month_ok_def)
  have "p div 144 < month_lengths y ! nat (m - 1)"
    using assms(3,4) n by (simp add: div_less_iff_less_mult)
  moreover have "p mod 6 < 6" and "0 \<le> p mod 6" by simp_all
  moreover have "0 \<le> p div 144" using assms(3) by (simp add: pos_imp_zdiv_nonneg_iff)
  ultimately have ok: "tm_ok x" using m
    unfolding x_def tm_ok_def date_ok_def by simp
  have "p div 144 = p div 6 div 24" using zdiv_zmult2_eq [of 24 p 6] by simp
  moreover have "month_secs x = p div 144 * 86400 + p div 6 mod 24 * 3600 + p mod 6 * 600"
    by (simp add: x_def month_secs_def)
  moreover have "p div 6 div 24 * 24 + p div 6 mod 24 = p div 6" by (rule div_mult_mod_eq)
  moreover have "p div 6 * 6 + p mod 6 = p" by (rule div_mult_mod_eq)
  ultimately have secs: "month_secs x = p * 600" by linarith
  have "p < 4464" using szb_probecnt_bounds [OF assms(1)] assms(2,4) by auto
  then have "int_range (p * 600)" using assms(3) by (simp add: int_range_def)
  then have t: "probe2time p y m = timegm x"
    unfolding timegm_month_secs [OF ok] secs by (simp add: probe2time_eq [OF assms(1)] x_def)
  have "tm_year x = y - 1900" "tm_mon x = m - 1" by (simp_all add: x_def)
  then show ?thesis
    using gm_tm_fields [OF ok] secs unfolding t by simp
qed

lemma probe_roundtrip:
  assumes "month_ok y m" and "szb_probecnt y m = Some n" and "0 \<le> p" and "p < n"
  shows "szb_time2my (probe2time p y m) False False = Inr (y, m) \<and>
    szb_probeind (probe2time p y m) SZBASE_DATA_SPAN = Some p"
proof
  note x = probe_tm [OF assms]
  have g: "gmtime_r (probe2time p y m) = Some (gm_tm (probe2time p y m))"
    using x assms(1) by (simp add: gmtime_r_def month_ok_def int_range_def)
  have "int_range y" using assms(1) by (simp add: month_ok_def int_range_def)
  with g x show "szb_time2my (probe2time p y m) False False = Inr (y, m)"
    by (simp add: szb_time2my_def)
  show "szb_probeind (probe2time p y m) SZBASE_DATA_SPAN = Some p"
    using szb_probeind_eq [OF g, of 600] x by (simp add: szb_consts)
qed

text \<open>C13. A probe index of a month denotes a time of that month, and from that time the date
  routines recover the year, the month and the index: \<open>probe2time\<close> followed by \<open>szb_time2my\<close>
  and \<open>szb_probeind\<close> is the identity on every probe of every month of the data base.\<close>

theorem probe_time_roundtrip:
  assumes "month_ok y m" and "szb_probecnt y m = Some n" and "0 \<le> p" and "p < n"
  shows "szb_time2my (probe2time p y m) False False = Inr (y, m) \<and>
    szb_probeind (probe2time p y m) SZBASE_DATA_SPAN = Some p"
  by (rule probe_roundtrip [OF assms])

theorem probe_time_roundtrip_witness:
  "szb_time2my (probe2time 4031 2010 2) False False = Inr (2010, 2) \<and>
   szb_probeind (probe2time 4031 2010 2) SZBASE_DATA_SPAN = Some 4031"
proof -
  have "month_ok 2010 2" by (simp add: month_ok_def)
  moreover have "szb_probecnt 2010 2 = Some 4032"
    by (simp add: szb_probecnt_eq month_ok_def month_lengths_def leap_def)
  ultimately show ?thesis using probe_time_roundtrip [of 2010 2 4032 4031] by simp
qed

lemma probe_floor:
  assumes "szb_time2my t False False = Inr (y, m)" and "0 \<le> y" and "y \<le> 9999"
  shows "\<exists>p n. szb_probeind t SZBASE_DATA_SPAN = Some p \<and> szb_probecnt y m = Some n \<and>
           0 \<le> p \<and> p < n \<and> probe2time p y m = t - t mod 600"
proof -
  let ?x = "gm_tm t"
  obtain g: "gmtime_r t = Some ?x" and y: "y = tm_year ?x + 1900" and m: "m = tm_mon ?x + 1"
    and ok: "month_ok y m"
    using time2my_eq [OF assms] by blast
  have p: "szb_probeind t SZBASE_DATA_SPAN = Some (month_secs ?x div 600)"
    using szb_probeind_eq [OF g, of 600] by (simp add: szb_consts)
  note n = szb_probecnt_eq [OF ok]
  have b: "0 \<le> month_secs ?x" "month_secs ?x < month_lengths y ! nat (m - 1) * 86400"
    using month_secs_bounds [OF gm_tm_ok, of t] y m by simp_all
  have idx: "0 \<le> month_secs ?x div 600" "month_secs ?x div 600 < month_lengths y ! nat (m - 1) * 144"
    using b by (simp_all add: pos_imp_zdiv_nonneg_iff div_less_iff_less_mult)
  have "int_range (month_secs ?x div 600 * 600)"
    using idx szb_probecnt_bounds [OF ok] n by (auto simp: int_range_def)
  moreover have t: "t = month_start y m + month_secs ?x"
    using timegm_month_secs [OF gm_tm_ok, of t] y m by (simp add: timegm_gm_tm)
  ultimately have "probe2time (month_secs ?x div 600) y m = t - month_secs ?x mod 600"
    by (simp add: probe2time_eq [OF ok] minus_mod_eq_div_mult [symmetric])
  moreover have "t mod 600 = month_secs ?x mod 600"
    by (subst t) (simp add: month_start_aligned flip: mod_add_left_eq)
  ultimately show ?thesis using p n idx by auto
qed

text \<open>Every time of the years 0 to 9999 has an index inside the probe table of its month,
  and going back from (year, month, index) gives the start of the ten-minute span the time lies
  in.\<close>

theorem time_probe_floor:
  assumes "szb_time2my t False False = Inr (y, m)" and "0 \<le> y" and "y \<le> 9999"
  shows "\<exists>p n. szb_probeind t SZBASE_DATA_SPAN = Some p \<and> szb_probecnt y m = Some n \<and>
           0 \<le> p \<and> p < n \<and> probe2time p y m = t - t mod 600"
  by (rule probe_floor [OF assms])

theorem time_probe_floor_witness:
  "\<exists>p n. szb_probeind 1000000123 SZBASE_DATA_SPAN = Some p \<and> szb_probecnt 2001 9 = Some n \<and>
     0 \<le> p \<and> p < n \<and> probe2time p 2001 9 = 1000000123 - 1000000123 mod 600"
proof -
  have "szb_time2my 1000000123 False False = Inr (2001, 9)" by code_simp
  then show ?thesis using time_probe_floor [of 1000000123 2001 9] by simp
qed

subsection \<open>Rounding and moving by spans of fixed length\<close>

fun fixed_span :: "SZARP_PROBE_TYPE \<Rightarrow> int \<Rightarrow> int option" where
  "fixed_span PT_SEC10 c = Some 10"
| "fixed_span PT_MIN10 c = Some 600"
| "fixed_span PT_HOUR c = Some 3600"
| "fixed_span PT_CUSTOM c = (if 0 < c then Some c else None)"
| "fixed_span _ c = None"

lemma fixed_span_pos: "fixed_span pt c = Some l \<Longrightarrow> 0 < l"
  by (cases pt) (auto split: if_splits)

lemma szb_round_time_fixed:
  "0 < t \<Longrightarrow> fixed_span pt c = Some l \<Longrightarrow> szb_round_time z t pt c = t - t mod l"
  by (cases pt) (auto simp: szb_round_time_def smod_nonneg Let_def split: if_splits)

lemma szb_move_time_fixed:
  assumes "0 < t" and "fixed_span pt c = Some l" and "int_range (n * l)"
  shows "szb_move_time z t n pt c = t + n * l"
  using assms
  by (cases pt) (auto simp: szb_move_time_def Let_def mult.commute split: if_splits)

text \<open>For probe types of a fixed length (ten seconds, ten minutes, an hour, a custom
  length) rounding gives the start of the span the time lies in: a multiple of the length, not
  after the time and less than one length before it.\<close>

theorem szb_round_time_span:
  assumes "0 < t" and "fixed_span pt c = Some l"
  shows "l dvd szb_round_time z t pt c \<and> szb_round_time z t pt c \<le> t \<and>
    t < szb_round_time z t pt c + l"
proof -
  have l: "0 < l" using fixed_span_pos assms(2) .
  have "l dvd t - t mod l" by simp
  moreover have "0 \<le> t mod l" "t mod l < l" using l by simp_all
  ultimately show ?thesis unfolding szb_round_time_fixed [OF assms] by simp
qed

theorem szb_round_time_span_witness:
  "600 dvd szb_round_time (fixed_zone 3600) 1000000123 PT_MIN10 0 \<and>
   szb_round_time (fixed_zone 3600) 1000000123 PT_MIN10 0 \<le> 1000000123 \<and>
   1000000123 < szb_round_time (fixed_zone 3600) 1000000123 PT_MIN10 0 + 600"
  using szb_round_time_span [of 1000000123 PT_MIN10 0 600 "fixed_zone 3600"] by simp

subsection \<open>Rounding and moving by calendar units\<close>

lemma civil_shift_days: "civil (x\<lparr>tm_mday := tm_mday x + n, tm_isdst := i\<rparr>) = civil x + n * 86400"
  by (simp add: timegm_def Let_def algebra_simps)

lemma civil_shift_hours: "civil (x\<lparr>tm_hour := tm_hour x + n, tm_isdst := i\<rparr>) = civil x + n * 3600"
  by (simp add: timegm_def Let_def algebra_simps)

lemma tm_ok_time:
  assumes "tm_ok x" "0 \<le> h" "h < 24" "0 \<le> mi" "mi < 60" "0 \<le> sc" "sc < 60"
  shows "tm_ok (x\<lparr>tm_sec := sc, tm_min := mi, tm_hour := h, tm_isdst := i\<rparr>)"
  using assms by (simp add: tm_ok_def)

context time_zone
begin

abbreviation zn :: zone where
  "zn \<equiv> \<lparr> localtime_r = lt, mktime = mk \<rparr>"

definition at_clock :: "time_t \<Rightarrow> int \<Rightarrow> tm" where
  "at_clock t h = (lt t)\<lparr>tm_sec := 0, tm_min := 0, tm_hour := h, tm_isdst := -1\<rparr>"

lemma at_clock_ok: "0 \<le> h \<Longrightarrow> h < 24 \<Longrightarrow> tm_ok (at_clock t h)"
  unfolding at_clock_def by (rule tm_ok_time) (simp_all add: lt_ok)

lemma round_day:
  assumes "0 < t" and "exists_civil (civil (at_clock t 0))"
  shows "let r = lt (szb_round_time zn t PT_DAY c) in
    tm_sec r = 0 \<and> tm_min r = 0 \<and> tm_hour r = 0 \<and>
    tm_mday r = tm_mday (lt t) \<and> tm_mon r = tm_mon (lt t) \<and> tm_year r = tm_year (lt t)"
proof -
  have "szb_round_time zn t PT_DAY c = mk (at_clock t 0)"
    using assms(1) by (simp add: szb_round_time_def at_clock_def Let_def)
  then show ?thesis
    using lt_mk_fields [OF at_clock_ok assms(2)] by (simp add: at_clock_def Let_def)
qed

lemma round_hour8:
  assumes "0 < t" and "exists_civil (civil (at_clock t (8 * (tm_hour (lt t) div 8))))"
  shows "let r = lt (szb_round_time zn t PT_HOUR8 c) in
    tm_sec r = 0 \<and> tm_min r = 0 \<and> tm_hour r = 8 * (tm_hour (lt t) div 8) \<and>
    tm_mday r = tm_mday (lt t) \<and> tm_mon r = tm_mon (lt t) \<and> tm_year r = tm_year (lt t)"
proof -
  have h: "0 \<le> tm_hour (lt t)" "tm_hour (lt t) < 24" using lt_ok [of t] by (simp_all add: tm_ok_def)
  have "szb_round_time zn t PT_HOUR8 c = mk (at_clock t (8 * (tm_hour (lt t) div 8)))"
    using assms(1) h by (simp add: szb_round_time_def at_clock_def Let_def smod_nonneg
        minus_mod_eq_mult_div)
  moreover have "0 \<le> 8 * (tm_hour (lt t) div 8)" "8 * (tm_hour (lt t) div 8) < 24" using h by auto
  ultimately show ?thesis
    using lt_mk_fields [OF at_clock_ok assms(2)] by (simp add: at_clock_def Let_def)
qed

lemma move_day:
  assumes "0 < t" and "\<bar>n\<bar> \<le> 1000000" and "exists_civil (civil (lt t) + n * 86400)"
  shows "civil (lt (szb_move_time zn t n PT_DAY c)) = civil (lt t) + n * 86400"
proof -
  have d: "1 \<le> tm_mday (lt t)" "tm_mday (lt t) \<le> 31"
    using lt_ok [of t] month_length_bounds [of "tm_mon (lt t)" "tm_year (lt t) + 1900"]
    by (auto simp: tm_ok_def date_ok_def)
  then have "int_range (tm_mday (lt t) + n)" using assms(2) by (auto simp: int_range_def)
  then have "szb_move_time zn t n PT_DAY c =
      mk ((lt t)\<lparr>tm_mday := tm_mday (lt t) + n, tm_isdst := -1\<rparr>)"
    using assms(1) by (simp add: szb_move_time_def Let_def)
  then show ?thesis using lt_mk assms(3) by (simp add: civil_shift_days)
qed

end

lemma fixed_zone_eta: "\<lparr> localtime_r = localtime_r (fixed_zone off), mktime = mktime (fixed_zone off) \<rparr>
  = fixed_zone off"
  by (simp add: fixed_zone_def)

text \<open>In a zone with a constant offset, rounding to a day gives local midnight of the same
  date and rounding to eight hours gives 0:00, 8:00 or 16:00 local time of the same date.\<close>

theorem szb_round_time_calendar:
  assumes "0 < t"
  shows "(let x = localtime_r (fixed_zone off) t;
              d = localtime_r (fixed_zone off) (szb_round_time (fixed_zone off) t PT_DAY c);
              h = localtime_r (fixed_zone off) (szb_round_time (fixed_zone off) t PT_HOUR8 c)
          in tm_sec d = 0 \<and> tm_min d = 0 \<and> tm_hour d = 0 \<and> tm_mday d = tm_mday x \<and>
             tm_mon d = tm_mon x \<and> tm_year d = tm_year x \<and>
             tm_sec h = 0 \<and> tm_min h = 0 \<and> tm_hour h = 8 * (tm_hour x div 8) \<and>
             tm_mday h = tm_mday x \<and> tm_mon h = tm_mon x \<and> tm_year h = tm_year x)"
  using fz.round_day [OF assms, of off c] fz.round_hour8 [OF assms, of off c]
  by (simp add: fixed_zone_eta Let_def)

theorem szb_round_time_calendar_witness:
  "tm_hour (localtime_r (fixed_zone 3600)
     (szb_round_time (fixed_zone 3600) 1000000123 PT_DAY 0)) = 0"
  using szb_round_time_calendar [of 1000000123 3600 0] by (simp add: Let_def)

text \<open>Moving by days in a zone with a constant offset shifts the time by exactly
  that many days, so moving forward and back returns to the start.\<close>

theorem szb_move_time_days:
  assumes "0 < t" and "\<bar>n\<bar> \<le> 1000000" and "0 < t + n * 86400"
  shows "szb_move_time (fixed_zone off) t n PT_DAY c = t + n * 86400 \<and>
    szb_move_time (fixed_zone off) (szb_move_time (fixed_zone off) t n PT_DAY c) (- n) PT_DAY c = t"
proof -
  have mv: "szb_move_time (fixed_zone off) u k PT_DAY c = u + k * 86400"
    if "0 < u" and "\<bar>k\<bar> \<le> 1000000" for u k
    using fz.move_day [OF that, of off c] unfolding fixed_zone_eta
    by (simp add: fixed_zone_def timegm_gm_tm)
  from mv [OF assms(1,2)] mv [OF assms(3), of "- n"] assms(2) show ?thesis by simp
qed

theorem szb_move_time_days_witness:
  "szb_move_time (fixed_zone 3600) 1000000123 (- 5) PT_DAY 0 = 1000000123 + (- 5) * 86400 \<and>
   szb_move_time (fixed_zone 3600) (szb_move_time (fixed_zone 3600) 1000000123 (- 5) PT_DAY 0)
     (- (- 5)) PT_DAY 0 = 1000000123"
  by (rule szb_move_time_days) simp_all



subsection \<open>Days and probes of a month\<close>

text \<open>C26. The probe count of a month is 144 for each of its days in the Gregorian calendar.
  The day count agrees with the calendar in every month but February of the common years that
  are not centuries, where it says 29.\<close>

theorem month_tables:
  assumes "month_ok y m"
  shows "szb_probecnt y m = Some (month_lengths y ! nat (m - 1) * 144) \<and>
    szb_daysinmonth y m =
      Some (if m = 2 \<and> \<not> 4 dvd y then 29 else month_lengths y ! nat (m - 1))"
proof
  show "szb_probecnt y m = Some (month_lengths y ! nat (m - 1) * 144)"
    by (rule szb_probecnt_eq [OF assms])
  have "1 \<le> m" "m \<le> 12" using assms by (simp_all add: month_ok_def)
  moreover have "100 dvd y \<longrightarrow> 4 dvd y" "400 dvd y \<longrightarrow> 4 dvd y" by (auto intro: dvd_trans)
  ultimately show "szb_daysinmonth y m =
      Some (if m = 2 \<and> \<not> 4 dvd y then 29 else month_lengths y ! nat (m - 1))"
    by (elim month_cases) (auto simp: szb_daysinmonth_def month_lengths_def leap_def smod_eq_0_iff
        c_index_def Let_def)
qed

theorem month_tables_witness:
  "szb_probecnt 2001 2 = Some 4032 \<and> szb_daysinmonth 2001 2 = Some 29"
  using month_tables [of 2001 2] by (simp add: month_ok_def month_lengths_def leap_def)

end
