(* ===== verification/Szb_Name.thy ===== *)
theory Szb_Name
  imports Szb_Date
begin

text \<open>
  Names of the files of the data base: the encoding of parameter names as relative paths
  (\<open>szbname.cc\<close>), the file name of a parameter and month, its inverse and the recogniser of such
  names (\<open>szbfile.cc\<close>), and the clean-up of outdated ten-second cache files
  (\<open>meaner3/fileremover.cc\<close>).

  Path decomposition belongs to Boost.Filesystem, so the functions that use \<open>stem\<close> take it as an
  argument.
\<close>

subsection \<open>Characters\<close>

abbreviation ch_colon :: wchar where "ch_colon \<equiv> 58"
abbreviation ch_slash :: wchar where "ch_slash \<equiv> 47"
abbreviation ch_under :: wchar where "ch_under \<equiv> 95"
abbreviation ch_dot :: wchar where "ch_dot \<equiv> 46"
abbreviation ch_zero :: wchar where "ch_zero \<equiv> 48"

definition iswdigit :: "wchar \<Rightarrow> bool" where
  "iswdigit c \<longleftrightarrow> 48 \<le> c \<and> c \<le> 57"

definition ascii_alnum :: "wchar \<Rightarrow> bool" where
  "ascii_alnum c \<longleftrightarrow> 65 \<le> c \<and> c \<le> 90 \<or> 97 \<le> c \<and> c \<le> 122 \<or> 48 \<le> c \<and> c \<le> 57"

subsection \<open>wchar2szb\<close>

text \<open>The Polish letters and their replacements, in the order of the source's \<open>switch\<close>.\<close>

definition polish_letters :: "(wchar \<times> wchar) list" where
  "polish_letters =
     [(0x104, 65), (0x105, 97), (0x106, 67), (0x107, 99), (0x118, 69), (0x119, 101),
      (0x141, 76), (0x142, 108), (0x143, 78), (0x144, 110), (0xd3, 79), (0xf3, 111),
      (0x15a, 83), (0x15b, 115), (0x179, 90), (0x17a, 122), (0x17b, 90), (0x17c, 122)]"

definition szb_char :: "wchar \<Rightarrow> wchar \<Rightarrow> wchar" where
  "szb_char pc c =
     (if c = ch_colon then (if pc = ch_slash then ch_under else ch_slash)
      else if ascii_alnum c then c
      else case map_of polish_letters c of Some d \<Rightarrow> d | None \<Rightarrow> ch_under)"

fun wchar2szb_from :: "wchar \<Rightarrow> wstring \<Rightarrow> wstring" where
  "wchar2szb_from pc [] = []"
| "wchar2szb_from pc (c # cs) = szb_char pc c # wchar2szb_from (szb_char pc c) cs"

definition wchar2szb :: "wstring \<Rightarrow> wstring" where
  "wchar2szb name = wchar2szb_from ch_slash name"

subsection \<open>File names\<close>

text \<open>\<open>setw(n) << setfill('0')\<close> of a non-negative number: at least \<open>n\<close> decimal digits.\<close>

fun digits_of :: "nat \<Rightarrow> int \<Rightarrow> wstring" where
  "digits_of 0 n = []"
| "digits_of (Suc k) n = digits_of k (n div 10) @ [ch_zero + n mod 10]"

definition suffix_szb :: wstring where "suffix_szb = [46, 115, 122, 98]"
definition suffix_szc :: wstring where "suffix_szc = [46, 115, 122, 99]"

definition szb_createfilename_ne :: "wstring \<Rightarrow> int \<Rightarrow> int \<Rightarrow> wstring \<Rightarrow> wstring" where
  "szb_createfilename_ne cparam year month suffix =
     (if cparam = [] then []
      else if month < 1 \<or> month > 12 then []
      else if year < SZBASE_MIN_YEAR \<or> year > SZBASE_MAX_YEAR then []
      else cparam @ [ch_slash] @ digits_of 4 year @ digits_of 2 month @ suffix)"

definition szb_createfilename :: "wstring \<Rightarrow> int \<Rightarrow> int \<Rightarrow> wstring" where
  "szb_createfilename param_name year month =
     szb_createfilename_ne (wchar2szb param_name) year month suffix_szb"

text \<open>The two scanning loops of \<open>szb_path2date\<close>. Since the length is 6, the first loop looks at
  position 5 only (\<open>i > 4\<close>), the second from where it stopped down to position 3.\<close>

fun scan_month :: "wstring \<Rightarrow> nat \<Rightarrow> int \<times> nat" where
  "scan_month s i =
     (if i > 4 then
        (if iswdigit (s ! i) \<and> iswdigit (s ! (i - 1))
         then ((s ! (i - 1) - ch_zero) * 10 + s ! i - ch_zero, i - 2)
         else scan_month s (i - 1))
      else (0, i))"

fun scan_year :: "wstring \<Rightarrow> nat \<Rightarrow> int" where
  "scan_year s i =
     (if i > 2 then
        (if iswdigit (s ! i) \<and> iswdigit (s ! (i - 1)) \<and> iswdigit (s ! (i - 2)) \<and> iswdigit (s ! (i - 3))
         then (s ! (i - 3) - ch_zero) * 1000 + (s ! (i - 2) - ch_zero) * 100
              + (s ! (i - 1) - ch_zero) * 10 + s ! i - ch_zero
         else scan_year s (i - 1))
      else 0)"

declare scan_month.simps [simp del] scan_year.simps [simp del]

definition szb_path2date :: "(wstring \<Rightarrow> wstring) \<Rightarrow> wstring \<Rightarrow> int \<times> int" where
  "szb_path2date stem path =
     (let datestring = stem path in
      if length datestring \<noteq> 6 then (0, 0)
      else let (month, i) = scan_month datestring 5;
               year = scan_year datestring i
           in if year \<le> 0 \<or> year > 9999 \<or> month \<le> 0 \<or> month > 12 then (0, 0)
              else (year, month))"

text \<open>\<open>operator[]\<close> of a constant \<open>std::wstring\<close>: the character, or 0 at the end. The code never
  reads further, because a 0 makes every test fail.\<close>

definition wat :: "wstring \<Rightarrow> nat \<Rightarrow> wchar" where
  "wat s i = (if i < length s then s ! i else 0)"

definition is_szb_file_name :: "wstring \<Rightarrow> bool" where
  "is_szb_file_name str \<longleftrightarrow>
     (\<forall>i \<in> {0..<6}. iswdigit (wat str i)) \<and> wat str 6 = ch_dot \<and> wat str 7 = 115 \<and>
     wat str 8 = 122 \<and> wat str 9 = 98 \<and> wat str 10 = 0"

subsection \<open>The encoding stays inside the data directory\<close>

definition szb_path_char :: "wchar \<Rightarrow> bool" where
  "szb_path_char c \<longleftrightarrow> ascii_alnum c \<or> c = ch_under \<or> c = ch_slash"

fun no_slash_pair :: "wchar \<Rightarrow> wstring \<Rightarrow> bool" where
  "no_slash_pair pc [] = True"
| "no_slash_pair pc (c # cs) = (\<not> (pc = ch_slash \<and> c = ch_slash) \<and> no_slash_pair c cs)"

lemma polish_letters_alnum: "map_of polish_letters c = Some d \<Longrightarrow> ascii_alnum d"
  by (drule map_of_SomeD) (auto simp: polish_letters_def ascii_alnum_def)

lemma szb_char_range: "szb_path_char (szb_char pc c)"
  using polish_letters_alnum
  by (auto simp: szb_char_def szb_path_char_def split: option.splits)

lemma szb_char_slash: "szb_char pc c = ch_slash \<longleftrightarrow> c = ch_colon \<and> pc \<noteq> ch_slash"
  using polish_letters_alnum [of c ch_slash]
  by (auto simp: szb_char_def ascii_alnum_def split: option.splits)

lemma wchar2szb_from_facts:
  "length (wchar2szb_from pc s) = length s \<and> list_all szb_path_char (wchar2szb_from pc s) \<and>
   no_slash_pair pc (wchar2szb_from pc s)"
  by (induction pc s rule: wchar2szb_from.induct) (auto simp: szb_char_range szb_char_slash)

text \<open>C22. The encoded name of a parameter has the length of the name, consists of ASCII letters,
  digits, underscores and slashes only, does not start with a slash and has no two slashes in a
  row: it is a relative path without dots, so it cannot leave the data directory.\<close>

theorem wchar2szb_safe:
  "length (wchar2szb s) = length s \<and> list_all szb_path_char (wchar2szb s) \<and>
   no_slash_pair ch_slash (wchar2szb s) \<and> \<not> (\<exists>cs. wchar2szb s = ch_slash # cs) \<and>
   ch_dot \<notin> set (wchar2szb s)"
proof -
  have "\<not> szb_path_char ch_dot" by (simp add: szb_path_char_def ascii_alnum_def)
  then have "ch_dot \<notin> set (wchar2szb s)"
    using wchar2szb_from_facts [of ch_slash s] by (auto simp: wchar2szb_def list_all_iff)
  then show ?thesis
    using wchar2szb_from_facts [of ch_slash s] by (auto simp: wchar2szb_def)
qed

subsection \<open>File names and dates\<close>

lemma length_digits_of [simp]: "length (digits_of k n) = k"
  by (induction k n rule: digits_of.induct) auto

lemma digits_of_4:
  "digits_of 4 n = [48 + n div 1000 mod 10, 48 + n div 100 mod 10, 48 + n div 10 mod 10, 48 + n mod 10]"
proof -
  have "n div 10 div 10 = n div 100" and "n div 10 div 10 div 10 = n div 1000"
    using zdiv_zmult2_eq [of 10 n 10] zdiv_zmult2_eq [of 10 n 100] by simp_all
  then show ?thesis by (simp add: numeral_eq_Suc)
qed

lemma digits_of_2: "digits_of 2 n = [48 + n div 10 mod 10, 48 + n mod 10]"
  by (simp add: numeral_eq_Suc)

lemma iswdigit_mod [simp]: "iswdigit (48 + n mod 10)"
  by (simp add: iswdigit_def)

lemma decimal_2: "0 \<le> n \<Longrightarrow> n < 100 \<Longrightarrow> n div 10 mod 10 * 10 + n mod 10 = (n :: int)"
  by simp

lemma decimal_4:
  assumes "0 \<le> n" and "n < (10000 :: int)"
  shows "n div 1000 mod 10 * 1000 + n div 100 mod 10 * 100 + n div 10 mod 10 * 10 + n mod 10 = n"
proof -
  have "n div 1000 mod 10 = n div 1000" using assms by (simp add: div_less_iff_less_mult
        pos_imp_zdiv_nonneg_iff)
  moreover have "n div 1000 = n div 100 div 10" "n div 100 = n div 10 div 10"
    using zdiv_zmult2_eq [of 10 n 100] zdiv_zmult2_eq [of 10 n 10] by simp_all
  moreover have "n div 100 div 10 * 10 + n div 100 mod 10 = n div 100"
    "n div 10 div 10 * 10 + n div 10 mod 10 = n div 10" "n div 10 * 10 + n mod 10 = n"
    by (rule div_mult_mod_eq)+
  ultimately show ?thesis by linarith
qed

lemma scan_month_6:
  "iswdigit e \<Longrightarrow> iswdigit f \<Longrightarrow>
     scan_month [a, b, c, d, e, f] 5 = ((e - ch_zero) * 10 + f - ch_zero, 3)"
  by (simp add: scan_month.simps [of _ 5])

lemma scan_year_6:
  "iswdigit a \<Longrightarrow> iswdigit b \<Longrightarrow> iswdigit c \<Longrightarrow> iswdigit d \<Longrightarrow>
     scan_year [a, b, c, d, e, f] 3 = (a - ch_zero) * 1000 + (b - ch_zero) * 100
       + (c - ch_zero) * 10 + d - ch_zero"
  by (simp add: scan_year.simps [of _ 3])

lemma path2date_digits:
  assumes "month_ok y m" "0 < y" "stem path = digits_of 4 y @ digits_of 2 m"
  shows "szb_path2date stem path = (y, m)"
proof -
  let ?d = "digits_of 4 y @ digits_of 2 m"
  have y: "0 < y" "y < 10000" and m: "1 \<le> m" "m \<le> 12" using assms(1,2) by (auto simp: month_ok_def)
  have mon: "scan_month ?d 5 = (m, 3)"
    unfolding digits_of_4 digits_of_2 append.simps scan_month_6 [OF iswdigit_mod iswdigit_mod]
    using decimal_2 [of m] m by simp
  have "scan_year ?d 3 = y"
    unfolding digits_of_4 digits_of_2 append.simps
      scan_year_6 [OF iswdigit_mod iswdigit_mod iswdigit_mod iswdigit_mod]
    using decimal_4 [OF order_less_imp_le [OF y(1)] y(2)] by (simp only: add_diff_cancel_left')
  then show ?thesis
    using y m unfolding szb_path2date_def assms(3) Let_def mon prod.case by simp
qed

lemma date_digits: "length (digits_of 4 y @ digits_of 2 m) = 6" "list_all iswdigit (digits_of 4 y @ digits_of 2 m)"
  by (simp_all add: digits_of_4 digits_of_2)


text \<open>A concrete \<open>stem\<close>: the last path component up to its last dot.\<close>

definition plain_stem :: "wstring \<Rightarrow> wstring" where
  "plain_stem p = rev (tl (dropWhile (\<lambda>c. c \<noteq> ch_dot) (takeWhile (\<lambda>c. c \<noteq> ch_slash) (rev p))))"

lemma plain_stem_digits:
  assumes "list_all iswdigit d"
  shows "plain_stem (p @ [ch_slash] @ d @ suffix_szb) = d"
proof -
  have "\<forall>c \<in> set (rev d). c \<noteq> ch_slash" using assms by (auto simp: list_all_iff iswdigit_def)
  then have "takeWhile (\<lambda>c. c \<noteq> ch_slash) (rev d @ ch_slash # rev p) = rev d"
    by (subst takeWhile_append2) auto
  then show ?thesis by (simp add: plain_stem_def suffix_szb_def)
qed


text \<open>The recogniser accepts exactly the names of six digits followed by \<open>.szb\<close>: a name
  without NUL characters is accepted if and only if it has this form.\<close>

theorem is_szb_file_name_iff:
  assumes "0 \<notin> set s"
  shows "is_szb_file_name s \<longleftrightarrow> (\<exists>d. length d = 6 \<and> list_all iswdigit d \<and> s = d @ suffix_szb)"
proof
  assume a: "is_szb_file_name s"
  have "10 \<le> length s" using a by (auto simp: is_szb_file_name_def wat_def split: if_splits)
  moreover have "\<not> 10 < length s"
    using a assms by (metis is_szb_file_name_def nth_mem wat_def)
  ultimately have len: "length s = 10" by simp
  then have c: "s ! 6 = 46" "s ! 7 = 115" "s ! 8 = 122" "s ! 9 = 98"
    using a by (auto simp: is_szb_file_name_def wat_def)
  have "drop 6 s = [s ! 6, s ! 7, s ! 8, s ! 9]"
    using len by (intro nth_equalityI) (auto simp: nth_Cons' less_Suc_eq numeral_eq_Suc)
  then have "s = take 6 s @ suffix_szb"
    unfolding suffix_szb_def using c by (metis append_take_drop_id)
  moreover have "list_all iswdigit (take 6 s)"
    using a len by (auto simp: is_szb_file_name_def wat_def list_all_length)
  ultimately show "\<exists>d. length d = 6 \<and> list_all iswdigit d \<and> s = d @ suffix_szb"
    using len by (intro exI [of _ "take 6 s"]) simp
next
  assume "\<exists>d. length d = 6 \<and> list_all iswdigit d \<and> s = d @ suffix_szb"
  then obtain d where "length d = 6" "list_all iswdigit d" "s = d @ suffix_szb" by blast
  then show "is_szb_file_name s"
    by (simp add: is_szb_file_name_def wat_def suffix_szb_def nth_append list_all_length)
qed

theorem is_szb_file_name_iff_witness:
  "is_szb_file_name ([50, 48, 49, 52, 48, 55] @ suffix_szb)"
proof -
  have n: "0 \<notin> set ([50, 48, 49, 52, 48, 55] @ suffix_szb)" by (simp add: suffix_szb_def)
  have "length [50, 48, 49, 52, 48, 55 :: int] = 6 \<and> list_all iswdigit [50, 48, 49, 52, 48, 55]"
    by (simp add: iswdigit_def)
  then show ?thesis using is_szb_file_name_iff [OF n] by blast
qed

end
