(* ===== verification/Save_Param.thy ===== *)
theory Save_Param
  imports Szb_Date Szb_Name
begin

text \<open>
  Writing probes to the data base, \<open>meaner3/tsaveparam.cc\<close>. A data file is the list of the
  16-bit probes of one month, the file system a map from paths to files. The object keeps the
  path of the file it has open. The outcomes of the system calls are an argument: whether the
  directory and the file could be made, how many of the no-data fillers were written before an
  error, how many probes of the data were written if not all. \<open>None\<close> is a failed assertion.
  (Files are not removed while they are open, and hold a whole number of probes.)
\<close>

subsection \<open>State\<close>

record save_param =
  cname :: wstring
  m_path :: wstring
  last_path :: wstring
  fd_open :: bool

type_synonym files = "wstring \<Rightarrow> short list option"

record io =
  io_mkdir :: bool
  io_open :: bool
  io_fill :: nat
  io_data :: "nat option"

definition TSaveParam :: "wstring \<Rightarrow> save_param" where
  "TSaveParam name = \<lparr> cname = wchar2szb name, m_path = [], last_path = [], fd_open = False \<rparr>"

definition CloseFile :: "save_param \<Rightarrow> save_param" where
  "CloseFile sp = (if fd_open sp then sp\<lparr>fd_open := False, last_path := []\<rparr> else sp)"

definition CreateFilePath :: "wstring \<Rightarrow> int \<Rightarrow> int \<Rightarrow> time_t \<Rightarrow> save_param \<Rightarrow> save_param" where
  "CreateFilePath dir year month probe_length sp =
     sp\<lparr>m_path := dir @ [ch_slash] @ szb_createfilename_ne (cname sp) year month
          (if probe_length = SZBASE_DATA_SPAN then suffix_szb else suffix_szc)\<rparr>"

subsection \<open>Operations\<close>

text \<open>Opening the file of the current path, unless it is open already.\<close>

definition open_file :: "io \<Rightarrow> save_param \<Rightarrow> files \<Rightarrow> bool \<times> save_param \<times> files" where
  "open_file env sp fs =
     (if \<not> fd_open sp \<or> last_path sp \<noteq> m_path sp then
        let sp = CloseFile sp in
        if \<not> io_mkdir env then (False, sp, fs)
        else if \<not> io_open env then (False, sp, fs)
        else (True, sp\<lparr>fd_open := True, last_path := m_path sp\<rparr>,
              (case fs (m_path sp) of None \<Rightarrow> fs(m_path sp := Some []) | Some _ \<Rightarrow> fs))
      else (True, sp, fs))"

text \<open>Filling up to the index and writing the data, with the errors of the writes.\<close>

definition write_file :: "io \<Rightarrow> nat \<Rightarrow> short list \<Rightarrow> bool \<Rightarrow> short list \<Rightarrow> bool \<times> short list" where
  "write_file env index data overwrite file =
     (let n = length file in
      if n > index \<and> \<not> overwrite then (False, file)
      else if n < index \<and> io_fill env < index - n
        then (False, file @ replicate (io_fill env) SZARP_NO_DATA)
      else
        let file = pad_to SZARP_NO_DATA index file in
        case io_data env of
          Some k \<Rightarrow> if k < length data then (False, overwrite_at index (take k data) file)
                    else (True, overwrite_at index data file)
        | None \<Rightarrow> (True, overwrite_at index data file))"

text \<open>The result is the return code, the object, the files, and whether the counter of non-empty
  values was increased.\<close>

definition WriteBuffered ::
  "io \<Rightarrow> wstring \<Rightarrow> time_t \<Rightarrow> short list \<Rightarrow> bool \<Rightarrow> bool \<Rightarrow> bool \<Rightarrow> time_t \<Rightarrow> bool \<Rightarrow>
     save_param \<times> files \<Rightarrow> (int \<times> save_param \<times> files \<times> bool) option" where
  "WriteBuffered env directory t data status overwrite force_nodata probe_length force_same_file st =
     (case st of (sp, fs) \<Rightarrow>
      case szb_probeind t probe_length of None \<Rightarrow> None
      | Some index \<Rightarrow>
        if index < 0 then None
        else case time2my t of Inl _ \<Rightarrow> None
        | Inr (year, month) \<Rightarrow>
          let data_found = list_ex (\<lambda>d. d \<noteq> SZARP_NO_DATA) data in
          if \<not> data_found \<and> \<not> force_nodata then Some (0, sp, fs, False)
          else
            let incr = (data_found \<and> status);
                sp = (if force_same_file then sp else CreateFilePath directory year month probe_length sp);
                (opened, sp, fs) = open_file env sp fs in
            if \<not> opened then Some (1, sp, fs, incr)
            else
              let content = the (fs (m_path sp));
                  (ok, file) = write_file env (nat index) data overwrite content;
                  fs = fs(m_path sp := Some file) in
              if ok then Some (0, sp, fs, incr)
              else if length content > nat index \<and> \<not> overwrite then Some (1, sp, fs, incr)
              else Some (1, CloseFile sp, fs, incr))"

definition Write ::
  "io \<Rightarrow> wstring \<Rightarrow> time_t \<Rightarrow> short list \<Rightarrow> bool \<Rightarrow> bool \<Rightarrow> bool \<Rightarrow> time_t \<Rightarrow>
     save_param \<times> files \<Rightarrow> (int \<times> save_param \<times> files \<times> bool) option" where
  "Write env directory t data status overwrite force_nodata probe_length st =
     map_option (\<lambda>(ret, sp, fs, incr). (ret, if ret \<noteq> 0 then CloseFile sp else sp, fs, incr))
       (WriteBuffered env directory t data status overwrite force_nodata probe_length False st)"

definition WriteProbes ::
  "io \<Rightarrow> wstring \<Rightarrow> time_t \<Rightarrow> short list \<Rightarrow> save_param \<times> files \<Rightarrow>
     (int \<times> save_param \<times> files \<times> bool) option" where
  "WriteProbes env directory t data st = Write env directory t data False True False 10 st"

subsection \<open>The abstract data base\<close>

text \<open>What a reader sees: the probe at an index of a file, no data beyond its end.\<close>

definition probe_at :: "files \<Rightarrow> wstring \<Rightarrow> nat \<Rightarrow> short" where
  "probe_at fs path i = (case fs path of None \<Rightarrow> SZARP_NO_DATA
     | Some f \<Rightarrow> if i < length f then f ! i else SZARP_NO_DATA)"

text \<open>The specification of a write: the slots from an index on take the data, all others keep
  their value.\<close>

definition store_probes :: "wstring \<Rightarrow> nat \<Rightarrow> short list \<Rightarrow> (wstring \<Rightarrow> nat \<Rightarrow> short) \<Rightarrow> wstring \<Rightarrow> nat \<Rightarrow> short" where
  "store_probes path index data db p i =
     (if p = path \<and> index \<le> i \<and> i < index + length data then data ! (i - index) else db p i)"

definition target_path :: "save_param \<Rightarrow> wstring \<Rightarrow> int \<Rightarrow> int \<Rightarrow> time_t \<Rightarrow> wstring" where
  "target_path sp dir y m len = m_path (CreateFilePath dir y m len sp)"

subsection \<open>Lemmas\<close>

lemma CloseFile_path [simp]: "m_path (CloseFile sp) = m_path sp" "cname (CloseFile sp) = cname sp"
  by (simp_all add: CloseFile_def)

lemma open_file_path: "open_file env sp fs = (ok, sp', fs') \<Longrightarrow> m_path sp' = m_path sp \<and> cname sp' = cname sp"
  by (auto simp: open_file_def Let_def split: if_splits option.splits)

lemma open_file_probe: "open_file env sp fs = (ok, sp', fs') \<Longrightarrow> probe_at fs' p i = probe_at fs p i"
  by (auto simp: open_file_def Let_def probe_at_def split: if_splits option.splits)

text \<open>A path that is open has a file.\<close>

definition sp_inv :: "save_param \<Rightarrow> files \<Rightarrow> bool" where
  "sp_inv sp fs \<longleftrightarrow> (fd_open sp \<longrightarrow> fs (last_path sp) \<noteq> None)"

lemma open_file_exists:
  "open_file env sp fs = (True, sp', fs') \<Longrightarrow> sp_inv sp fs \<Longrightarrow>
     (\<exists>f. fs' (m_path sp') = Some f) \<and> fd_open sp' \<and> last_path sp' = m_path sp'"
  by (auto simp: open_file_def Let_def sp_inv_def CloseFile_def split: if_splits option.splits)

definition nth_nd :: "short list \<Rightarrow> nat \<Rightarrow> short" where
  "nth_nd f i = (if i < length f then f ! i else SZARP_NO_DATA)"

lemma nth_nd_overwrite:
  "nth_nd (overwrite_at index d (pad_to SZARP_NO_DATA index file)) i =
     (if index \<le> i \<and> i < index + length d then d ! (i - index) else nth_nd file i)"
  by (auto simp: nth_nd_def nth_overwrite_at nth_pad_to)

lemma write_file_done:
  assumes "write_file env index data overwrite file = (True, file')"
  shows "nth_nd file' i = (if index \<le> i \<and> i < index + length data then data ! (i - index) else nth_nd file i)"
    and "overwrite \<or> length file \<le> index"
proof -
  have "file' = overwrite_at index data (pad_to SZARP_NO_DATA index file)"
    using assms by (auto simp: write_file_def Let_def split: if_splits option.splits)
  then show "nth_nd file' i = (if index \<le> i \<and> i < index + length data then data ! (i - index) else nth_nd file i)"
    by (simp add: nth_nd_overwrite)
  show "overwrite \<or> length file \<le> index"
    using assms by (auto simp: write_file_def Let_def split: if_splits)
qed

lemma write_file_failed:
  assumes "write_file env index data overwrite file = (False, file')"
  shows "nth_nd file' i = nth_nd file i \<or>
    index \<le> i \<and> i < index + length data \<and> nth_nd file' i = data ! (i - index)"
proof -
  have "(\<exists>k. file' = file @ replicate k SZARP_NO_DATA) \<or>
      (\<exists>k<length data. file' = overwrite_at index (take k data) (pad_to SZARP_NO_DATA index file))"
    using assms by (auto simp: write_file_def Let_def intro: exI [of _ 0] split: if_splits option.splits)
  then show ?thesis
  proof (elim disjE exE conjE)
    fix k assume "file' = file @ replicate k SZARP_NO_DATA"
    then show ?thesis by (auto simp: nth_nd_def nth_append)
  next
    fix k assume "k < length data" "file' = overwrite_at index (take k data) (pad_to SZARP_NO_DATA index file)"
    then show ?thesis by (auto simp: nth_nd_overwrite)
  qed
qed

lemma write_file_keeps_old:
  assumes "write_file env index data False fl = (ok, fl2)" "i < length fl"
  shows "nth_nd fl2 i = nth_nd fl i"
proof (cases ok)
  case True
  then show ?thesis using write_file_done [of env index data False fl fl2] assms by auto
next
  case False
  then show ?thesis using write_file_failed [of env index data False fl fl2 i] assms
    by (cases "length fl > index") (auto simp: write_file_def)
qed

lemma probe_at_nth_nd: "fs p = Some f \<Longrightarrow> probe_at fs p i = nth_nd f i"
  by (simp add: probe_at_def nth_nd_def)

subsection \<open>A whole write\<close>

definition wants_write :: "short list \<Rightarrow> bool \<Rightarrow> bool" where
  "wants_write data force_nodata \<longleftrightarrow> list_ex (\<lambda>d. d \<noteq> SZARP_NO_DATA) data \<or> force_nodata"

lemma Write_skips:
  assumes "\<not> wants_write data force" "szb_probeind t len = Some index" "0 \<le> index" "time2my t = Inr (y, m)"
  shows "Write env dir t data status ow force len (sp, fs) = Some (0, sp, fs, False)"
  using assms by (simp add: Write_def WriteBuffered_def wants_write_def)

lemma Write_cases:
  assumes "Write env dir t data status ow force len (sp, fs) = Some (ret, sp', fs', incr)"
    and "szb_probeind t len = Some index" "time2my t = Inr (y, m)" "wants_write data force"
  obtains (failed) sp1 where "open_file env (CreateFilePath dir y m len sp) fs = (False, sp1, fs')" "ret = 1"
      "sp' = CloseFile sp1"
  | (opened) sp1 fs1 ok fl where
      "open_file env (CreateFilePath dir y m len sp) fs = (True, sp1, fs1)"
      "write_file env (nat index) data ow (the (fs1 (m_path sp1))) = (ok, fl)"
      "fs' = fs1(m_path sp1 := Some fl)" "ret = (if ok then 0 else 1)"
      "sp' = (if ok then sp1 else CloseFile sp1)" "0 \<le> index"
proof -
  obtain opened sp1 fs1 where o: "open_file env (CreateFilePath dir y m len sp) fs = (opened, sp1, fs1)"
    by (metis prod_cases3)
  obtain ok fl where w: "write_file env (nat index) data ow (the (fs1 (m_path sp1))) = (ok, fl)"
    by fastforce
  have idx: "0 \<le> index" using assms by (auto simp: Write_def WriteBuffered_def split: if_splits)
  have cc: "CloseFile (CloseFile s) = CloseFile s" for s by (simp add: CloseFile_def)
  show thesis
  proof (cases opened)
    case False
    then show thesis
      using failed o assms idx by (auto simp: Write_def WriteBuffered_def wants_write_def Let_def split: if_splits)
  next
    case True
    then show thesis
      using opened [of sp1 fs1 ok fl] o w assms idx cc
      by (auto simp: Write_def WriteBuffered_def wants_write_def Let_def split: if_splits)
  qed
qed

lemma Write_inv:
  assumes "sp_inv sp fs" "Write env dir t data status ow force len (sp, fs) = Some (ret, sp', fs', incr)"
  shows "sp_inv sp' fs'"
proof -
  obtain index y m where i: "szb_probeind t len = Some index" "time2my t = Inr (y, m)" "0 \<le> index"
    using assms(2) by (auto simp: Write_def WriteBuffered_def split: option.splits sum.splits if_splits)
  show ?thesis
  proof (cases "wants_write data force")
    case False
    then show ?thesis using Write_skips [OF False i(1,3,2)] assms by simp
  next
    case True
    have pre: "sp_inv (CreateFilePath dir y m len sp) fs" using assms(1) by (simp add: sp_inv_def CreateFilePath_def)
    show ?thesis
      using assms(2) i(1,2) True
    proof (cases rule: Write_cases)
      case (failed sp1)
      then show ?thesis by (simp add: sp_inv_def CloseFile_def)
    next
      case (opened sp1 fs1 ok fl)
      then show ?thesis using open_file_exists [OF opened(1) pre] by (auto simp: sp_inv_def CloseFile_def)
    qed
  qed
qed

lemma Write_target:
  assumes "open_file env (CreateFilePath dir y m len sp) fs = (ok, sp1, fs1)"
  shows "m_path sp1 = target_path sp dir y m len"
  using open_file_path [OF assms] by (simp add: target_path_def)

lemma Write_abs:
  assumes "sp_inv sp fs" "Write env dir t data status ow force len (sp, fs) = Some (ret, sp', fs', incr)"
    and "szb_probeind t len = Some index" "time2my t = Inr (y, m)" "wants_write data force"
  defines "path \<equiv> target_path sp dir y m len"
  shows "ret = 0 \<Longrightarrow> probe_at fs' = store_probes path (nat index) data (probe_at fs)"
    and "ret \<noteq> 0 \<Longrightarrow> \<forall>p i. probe_at fs' p i = probe_at fs p i \<or>
      probe_at fs' p i = store_probes path (nat index) data (probe_at fs) p i"
    and "\<not> ow \<Longrightarrow> \<forall>p i f. fs p = Some f \<and> i < length f \<longrightarrow> probe_at fs' p i = f ! i"
proof -
  have pre: "sp_inv (CreateFilePath dir y m len sp) fs" using assms(1) by (simp add: sp_inv_def CreateFilePath_def)
  have all: "(ret = 0 \<longrightarrow> probe_at fs' = store_probes path (nat index) data (probe_at fs)) \<and>
    (ret \<noteq> 0 \<longrightarrow> (\<forall>p i. probe_at fs' p i = probe_at fs p i \<or>
      probe_at fs' p i = store_probes path (nat index) data (probe_at fs) p i)) \<and>
    (\<not> ow \<longrightarrow> (\<forall>p i f. fs p = Some f \<and> i < length f \<longrightarrow> probe_at fs' p i = f ! i))"
    using assms(2-5)
  proof (cases rule: Write_cases)
    case (failed sp1)
    then show ?thesis using open_file_probe [OF failed(1)] by (auto simp: probe_at_def)
  next
    case (opened sp1 fs1 ok fl)
    obtain c where c: "fs1 (m_path sp1) = Some c" using open_file_exists [OF opened(1) pre] by blast
    have pth: "m_path sp1 = path" using Write_target [OF opened(1)] by (simp add: path_def)
    note w = opened(2) [unfolded c option.sel]
    have same: "probe_at fs p i = (if p = path then nth_nd c i else probe_at fs1 p i)" for p i
      using open_file_probe [OF opened(1), of p i] c pth by (auto simp: probe_at_nth_nd)
    have new: "probe_at fs' p i = (if p = path then nth_nd fl i else probe_at fs1 p i)" for p i
      using pth by (simp add: opened(3) probe_at_def nth_nd_def)
    have old: "nth_nd c i = f ! i \<and> i < length c" if "fs path = Some f" "i < length f" for f i
      using that c pth opened(1) by (auto simp: open_file_def Let_def nth_nd_def CloseFile_def split: if_splits option.splits)
    have "ret = 0 \<Longrightarrow> probe_at fs' = store_probes path (nat index) data (probe_at fs)"
      using write_file_done(1) [of env "nat index" data ow c fl] w opened(4)
      by (intro ext) (auto simp: store_probes_def new same split: if_splits)
    moreover have "ret \<noteq> 0 \<Longrightarrow> probe_at fs' p i = probe_at fs p i \<or>
        probe_at fs' p i = store_probes path (nat index) data (probe_at fs) p i" for p i
      using write_file_failed [of env "nat index" data ow c fl i] w opened(4)
      by (auto simp: store_probes_def new same split: if_splits)
    moreover have "probe_at fs' p i = f ! i" if "\<not> ow" "fs p = Some f" "i < length f" for p i f
    proof (cases "p = path")
      case True
      then show ?thesis using old [of f i] write_file_keeps_old [of env "nat index" data c ok fl i] w that new by simp
    next
      case False
      then show ?thesis using new [of p i] same [of p i] that by (simp add: probe_at_def)
    qed
    ultimately show ?thesis by blast
  qed
  show "ret = 0 \<Longrightarrow> probe_at fs' = store_probes path (nat index) data (probe_at fs)"
    and "ret \<noteq> 0 \<Longrightarrow> \<forall>p i. probe_at fs' p i = probe_at fs p i \<or>
      probe_at fs' p i = store_probes path (nat index) data (probe_at fs) p i"
    and "\<not> ow \<Longrightarrow> \<forall>p i f. fs p = Some f \<and> i < length f \<longrightarrow> probe_at fs' p i = f ! i"
    using all by blast+
qed

subsection \<open>Slots of ten minutes\<close>

definition ok_time :: "time_t \<Rightarrow> bool" where
  "ok_time t \<longleftrightarrow> (case time2my t of Inl _ \<Rightarrow> False | Inr (y, m) \<Rightarrow> 0 \<le> y \<and> y \<le> 9999)"

definition same_span :: "time_t \<Rightarrow> time_t \<Rightarrow> bool" where
  "same_span t t' \<longleftrightarrow> t div 600 = t' div 600"

lemma ok_timeE:
  assumes "ok_time t"
  obtains y m p where "time2my t = Inr (y, m)" "month_ok y m" "szb_probeind t 600 = Some p" "0 \<le> p" "p < 4464"
    "probe2time p y m = t - t mod 600" "time2my (probe2time p y m) = Inr (y, m)"
    "szb_probeind (probe2time p y m) 600 = Some p"
proof -
  obtain y m where ym: "time2my t = Inr (y, m)" "0 \<le> y" "y \<le> 9999"
    using assms by (auto simp: ok_time_def split: sum.splits prod.splits)
  obtain p n where p: "szb_probeind t SZBASE_DATA_SPAN = Some p" "szb_probecnt y m = Some n" "0 \<le> p" "p < n"
    "probe2time p y m = t - t mod 600"
    using probe_floor [OF ym] by blast
  have ok: "month_ok y m" using time2my_eq [OF ym] by blast
  have "p < 4464" using szb_probecnt_bounds [OF ok] p by auto
  then show thesis
    using that [OF ym(1) ok _ p(3) _ p(5)] probe_roundtrip [OF ok p(2-4)] p by (simp add: SZBASE_DATA_SPAN_def)
qed

text \<open>The file and the index of a time determine its span of ten minutes.\<close>

lemma slot_span:
  assumes "time2my t = Inr (y, m)" "szb_probeind t 600 = Some p" "time2my t' = Inr (y', m')"
    "szb_probeind t' 600 = Some p'" "ok_time t" "ok_time t'"
  shows "(y, m, p) = (y', m', p') \<longleftrightarrow> same_span t t'"
proof -
  have "probe2time p y m = t - t mod 600" "time2my (probe2time p y m) = Inr (y, m)"
    "szb_probeind (probe2time p y m) 600 = Some p"
    using ok_timeE [OF assms(5)] assms(1,2) by (metis Inr_inject Pair_inject option.inject)+
  moreover have "probe2time p' y' m' = t' - t' mod 600" "time2my (probe2time p' y' m') = Inr (y', m')"
    "szb_probeind (probe2time p' y' m') 600 = Some p'"
    using ok_timeE [OF assms(6)] assms(3,4) by (metis Inr_inject Pair_inject option.inject)+
  ultimately have "(y, m, p) = (y', m', p') \<longleftrightarrow> t - t mod 600 = t' - t' mod 600"
    by (metis Inr_inject Pair_inject option.inject)
  also have "\<dots> \<longleftrightarrow> same_span t t'"
    by (simp add: minus_mod_eq_mult_div same_span_def)
  finally show ?thesis .
qed

text \<open>Reading the digits back.\<close>

definition undigits :: "wstring \<Rightarrow> int" where
  "undigits ds = foldl (\<lambda>v c. v * 10 + (c - 48)) 0 ds"

lemma undigits_4:
  assumes "0 \<le> n" "n < 10000"
  shows "undigits (digits_of 4 n) = n"
proof -
  have "undigits [48 + a, 48 + b, 48 + c, 48 + d] = a * 1000 + b * 100 + c * 10 + d" for a b c d
    by (simp add: undigits_def)
  from this [of "n div 1000 mod 10" "n div 100 mod 10" "n div 10 mod 10" "n mod 10"]
  show ?thesis unfolding digits_of_4 decimal_4 [OF assms] .
qed

lemma undigits_2:
  assumes "0 \<le> n" "n < 100"
  shows "undigits (digits_of 2 n) = n"
proof -
  have "undigits [48 + a, 48 + b] = a * 10 + b" for a b
    by (simp add: undigits_def)
  from this [of "n div 10 mod 10" "n mod 10"]
  show ?thesis unfolding digits_of_2 decimal_2 [OF assms] .
qed

lemma target_path_eq:
  assumes "cname sp \<noteq> []" "month_ok y m"
  shows "target_path sp dir y m 600 = dir @ [ch_slash] @ cname sp @ [ch_slash] @ digits_of 4 y @ digits_of 2 m @ suffix_szb"
  using assms by (simp add: target_path_def CreateFilePath_def szb_createfilename_ne_def month_ok_def szb_consts)

lemma date_digits_inj:
  assumes "digits_of 4 y @ digits_of 2 m @ r = digits_of 4 y' @ digits_of 2 m' @ r"
    and "month_ok y m" "month_ok y' m'"
  shows "(y, m) = (y', m')"
proof -
  have "digits_of 4 y = digits_of 4 y'" "digits_of 2 m @ r = digits_of 2 m' @ r"
    using assms(1) append_eq_append_conv [of "digits_of 4 y" "digits_of 4 y'"] length_digits_of by metis+
  moreover from this(2) have "digits_of 2 m = digits_of 2 m'" by (simp only: append_same_eq)
  moreover have "0 \<le> y" "y < 10000" "0 \<le> y'" "y' < 10000" "0 \<le> m" "m < 100" "0 \<le> m'" "m' < 100"
    using assms(2,3) unfolding month_ok_def by linarith+
  ultimately show ?thesis by (metis undigits_4 undigits_2)
qed

lemma target_path_inj:
  assumes "cname sp \<noteq> []" "cname sp' = cname sp" "month_ok y m" "month_ok y' m'"
  shows "target_path sp dir y m 600 = target_path sp' dir y' m' 600 \<longleftrightarrow> (y, m) = (y', m')"
proof
  assume "target_path sp dir y m 600 = target_path sp' dir y' m' 600"
  then have "digits_of 4 y @ digits_of 2 m @ suffix_szb = digits_of 4 y' @ digits_of 2 m' @ suffix_szb"
    using assms(1,2) target_path_eq [OF assms(1,3), of dir] target_path_eq [of sp', OF _ assms(4), of dir]
    by (simp only: same_append_eq list.inject simp_thms)
  then show "(y, m) = (y', m')" by (rule date_digits_inj [OF _ assms(3,4)])
next
  assume "(y, m) = (y', m')"
  then show "target_path sp dir y m 600 = target_path sp' dir y' m' 600"
    using assms(2) by (simp add: target_path_def CreateFilePath_def)
qed

subsection \<open>The interface of a store of probes\<close>

text \<open>What the readers of the data base rely on: a write is seen at the times of its span and
  nowhere else. Reading after any sequence of writes then gives the last value written in the
  span.\<close>

locale probe_store =
  fixes put :: "'t \<Rightarrow> 'v \<Rightarrow> 's \<Rightarrow> 's"
    and get :: "'s \<Rightarrow> 't \<Rightarrow> 'v"
    and inv :: "'s \<Rightarrow> bool"
    and valid :: "'t \<Rightarrow> bool"
    and same :: "'t \<Rightarrow> 't \<Rightarrow> bool"
  assumes get_put: "inv s \<Longrightarrow> valid t \<Longrightarrow> valid t' \<Longrightarrow> get (put t v s) t' = (if same t t' then v else get s t')"
    and inv_put: "inv s \<Longrightarrow> valid t \<Longrightarrow> inv (put t v s)"
begin

definition puts :: "('t \<times> 'v) list \<Rightarrow> 's \<Rightarrow> 's" where
  "puts xs s = foldl (\<lambda>s (t, v). put t v s) s xs"

definition recall :: "('t \<times> 'v) list \<Rightarrow> 't \<Rightarrow> 'v \<Rightarrow> 'v" where
  "recall xs t' d = foldl (\<lambda>d (t, v). if same t t' then v else d) d xs"

lemma inv_puts: "inv s \<Longrightarrow> \<forall>(t, v)\<in>set xs. valid t \<Longrightarrow> inv (puts xs s)"
  unfolding puts_def by (induction xs arbitrary: s) (auto simp: inv_put)

lemma get_puts:
  assumes "inv s" "valid t'" "\<forall>(t, v)\<in>set xs. valid t"
  shows "get (puts xs s) t' = recall xs t' (get s t')"
  using assms
proof (induction xs rule: rev_induct)
  case (snoc x xs)
  obtain t v where x: "x = (t, v)" by fastforce
  have "inv (puts xs s)" using snoc.prems by (intro inv_puts) auto
  then show ?case using snoc x by (simp add: get_put puts_def recall_def)
qed (simp add: puts_def recall_def)

end

text \<open>One probe written by \<open>Write\<close> when no system call fails, and the reader's view.\<close>

definition sound_io :: io where
  "sound_io = \<lparr> io_mkdir = True, io_open = True, io_fill = 5000, io_data = None \<rparr>"

definition put_probe :: "wstring \<Rightarrow> time_t \<Rightarrow> short \<Rightarrow> save_param \<times> files \<Rightarrow> save_param \<times> files" where
  "put_probe dir t d st = (case Write sound_io dir t [d] False True True 600 st of
     None \<Rightarrow> st | Some (_, sp, fs, _) \<Rightarrow> (sp, fs))"

definition get_probe :: "wstring \<Rightarrow> save_param \<times> files \<Rightarrow> time_t \<Rightarrow> short" where
  "get_probe dir st t = (case time2my t of Inl _ \<Rightarrow> SZARP_NO_DATA
     | Inr (y, m) \<Rightarrow> probe_at (snd st) (target_path (fst st) dir y m 600) (nat (the (szb_probeind t 600))))"

definition store_inv :: "save_param \<times> files \<Rightarrow> bool" where
  "store_inv st \<longleftrightarrow> sp_inv (fst st) (snd st) \<and> cname (fst st) \<noteq> []"

lemma sound_open: "\<exists>sp1 fs1. open_file sound_io sp fs = (True, sp1, fs1)"
  by (auto simp: open_file_def sound_io_def Let_def)

lemma sound_write: "index \<le> 5000 \<Longrightarrow> \<exists>f. write_file sound_io index data True c = (True, f)"
  by (auto simp: write_file_def sound_io_def Let_def)

lemma sound_Write:
  assumes "ok_time t"
  shows "\<exists>sp' fs' b. Write sound_io dir t [d] False True True 600 (sp, fs) = Some (0, sp', fs', b) \<and> cname sp' = cname sp"
proof -
  obtain y m p where p: "time2my t = Inr (y, m)" "szb_probeind t 600 = Some p" "0 \<le> p" "p < 4464"
    using ok_timeE [OF assms] by metis
  obtain sp1 fs1 where o: "open_file sound_io (CreateFilePath dir y m 600 sp) fs = (True, sp1, fs1)"
    using sound_open by blast
  have "nat p \<le> 5000" using p(4) by linarith
  then obtain f where f: "write_file sound_io (nat p) [d] True (the (fs1 (m_path sp1))) = (True, f)"
    using sound_write by blast
  have "cname sp1 = cname sp" using open_file_path [OF o] by (simp add: CreateFilePath_def)
  then have "\<exists>b. Write sound_io dir t [d] False True True 600 (sp, fs) = Some (0, sp1, fs1(m_path sp1 := Some f), b)"
    using p o f by (auto simp: Write_def WriteBuffered_def Let_def)
  then show ?thesis using \<open>cname sp1 = cname sp\<close> by blast
qed

lemma get_put_probe:
  assumes "store_inv st" "ok_time t" "ok_time t'"
  shows "get_probe dir (put_probe dir t d st) t' = (if same_span t t' then d else get_probe dir st t')"
    and "store_inv (put_probe dir t d st)"
proof -
  obtain sp fs where st: "st = (sp, fs)" by fastforce
  obtain sp' fs' b where w: "Write sound_io dir t [d] False True True 600 (sp, fs) = Some (0, sp', fs', b)"
    "cname sp' = cname sp"
    using sound_Write [OF assms(2)] by blast
  obtain y m p where p: "time2my t = Inr (y, m)" "month_ok y m" "szb_probeind t 600 = Some p" "0 \<le> p"
    using ok_timeE [OF assms(2)] by metis
  obtain y' m' p' where p': "time2my t' = Inr (y', m')" "month_ok y' m'" "szb_probeind t' 600 = Some p'" "0 \<le> p'"
    using ok_timeE [OF assms(3)] by metis
  have inv: "sp_inv sp fs" "cname sp \<noteq> []" using assms(1) st by (simp_all add: store_inv_def)
  have path: "target_path sp' dir y' m' 600 = target_path sp dir y' m' 600"
    using w(2) by (simp add: target_path_def CreateFilePath_def)
  have "probe_at fs' = store_probes (target_path sp dir y m 600) (nat p) [d] (probe_at fs)"
    using Write_abs(1) [OF inv(1) w(1) p(3,1)] by (simp add: wants_write_def)
  moreover have "target_path sp dir y' m' 600 = target_path sp dir y m 600 \<and> nat p' = nat p \<longleftrightarrow> same_span t t'"
    using target_path_inj [OF inv(2) refl p'(2) p(2), of dir] slot_span [OF p(1,3) p'(1,3) assms(2,3)] p(4) p'(4)
    by (auto simp: eq_nat_nat_iff)
  ultimately show "get_probe dir (put_probe dir t d st) t' = (if same_span t t' then d else get_probe dir st t')"
    using p' path by (auto simp: get_probe_def put_probe_def st w(1) store_probes_def less_Suc_eq)
  show "store_inv (put_probe dir t d st)"
    using Write_inv [OF inv(1) w(1)] w inv by (simp add: put_probe_def st store_inv_def)
qed

interpretation db: probe_store "put_probe dir" "get_probe dir" store_inv ok_time same_span for dir
  by unfold_locales (auto simp: get_put_probe)

subsection \<open>Properties\<close>

text \<open>C3. A write refines the update of an array of probes: reading files as arrays that hold no
  data beyond their end, a write that returns 0 and has something to write stores exactly the
  data at its index, filling the gap before it with no data and changing nothing else, in this
  file or any other; a write that fails changes no slot but slots of its own range, and these
  only to the new data; and without permission to overwrite, no probe already in a file is
  changed, whatever system call fails. A write of no data alone leaves everything as it was.\<close>

theorem Write_refines_store:
  assumes "sp_inv sp fs" "Write env dir t data status ow force len (sp, fs) = Some (ret, sp', fs', incr)"
    and "szb_probeind t len = Some index" "szb_time2my t False False = Inr (y, m)"
  shows "sp_inv sp' fs' \<and>
    (if wants_write data force then
       (ret = 0 \<longrightarrow> probe_at fs' = store_probes (target_path sp dir y m len) (nat index) data (probe_at fs)) \<and>
       (ret \<noteq> 0 \<longrightarrow> (\<forall>p i. probe_at fs' p i = probe_at fs p i \<or>
          probe_at fs' p i = store_probes (target_path sp dir y m len) (nat index) data (probe_at fs) p i)) \<and>
       (\<not> ow \<longrightarrow> (\<forall>p i f. fs p = Some f \<and> i < length f \<longrightarrow> probe_at fs' p i = f ! i))
     else ret = 0 \<and> fs' = fs \<and> sp' = sp)"
proof (cases "wants_write data force")
  case True
  then show ?thesis using Write_abs [OF assms True] Write_inv [OF assms(1,2)] by simp
next
  case False
  have "0 \<le> index" using assms(2,3) by (auto simp: Write_def WriteBuffered_def split: if_splits)
  then show ?thesis using Write_skips [OF False assms(3) _ assms(4)] assms(1,2) False by simp
qed

theorem Write_refines_store_witness:
  "\<exists>sp' fs'. Write sound_io [100] 1000000123 [7] False False False 600 (TSaveParam [65], \<lambda>_. None) = Some (0, sp', fs', False) \<and>
     probe_at fs' = store_probes (target_path (TSaveParam [65]) [100] 2001 9 600) 1162 [7] (probe_at (\<lambda>_. None))"
proof -
  have t: "szb_probeind 1000000123 600 = Some 1162" "szb_time2my 1000000123 False False = Inr (2001, 9)"
    by code_simp+
  have "\<exists>sp' fs'. Write sound_io [100] 1000000123 [7] False False False 600 (TSaveParam [65], \<lambda>_. None) = Some (0, sp', fs', False)"
    using t by (simp add: Write_def WriteBuffered_def Let_def open_file_def sound_io_def write_file_def
        TSaveParam_def CloseFile_def CreateFilePath_def SZARP_NO_DATA_def)
  then obtain sp' fs' where w: "Write sound_io [100] 1000000123 [7] False False False 600 (TSaveParam [65], \<lambda>_. None)
      = Some (0, sp', fs', False)" by blast
  have "sp_inv (TSaveParam [65]) (\<lambda>_. None)" by (simp add: sp_inv_def TSaveParam_def)
  then show ?thesis
    using Write_refines_store [OF _ w t] w by (simp add: wants_write_def SZARP_NO_DATA_def)
qed

text \<open>C16. Probes can be read back: after any sequence of writes of single probes at times of the
  years 0 to 9999, reading at a time gives the value last written in its ten-minute span, and the
  value from before the writes if none was.\<close>

theorem probes_read_back:
  assumes "store_inv st" "ok_time t'" "\<forall>(t, v)\<in>set xs. ok_time t"
  shows "get_probe dir (foldl (\<lambda>s (t, v). put_probe dir t v s) st xs) t' =
    foldl (\<lambda>d (t, v). if same_span t t' then v else d) (get_probe dir st t') xs"
  using db.get_puts [OF assms] by (simp add: db.puts_def db.recall_def)

theorem probes_read_back_witness:
  "get_probe [100] (foldl (\<lambda>s (t, v). put_probe [100] t v s) (TSaveParam [65], \<lambda>_. None)
      [(1000000123, 7), (1000000800, 8)]) 1000000199 = 7"
proof -
  have t: "ok_time 1000000123" "ok_time 1000000800" "ok_time 1000000199" by code_simp+
  have "store_inv (TSaveParam [65], \<lambda>_. None)"
    by (simp add: store_inv_def sp_inv_def TSaveParam_def wchar2szb_def)
  from probes_read_back [OF this t(3), of "[(1000000123, 7), (1000000800, 8)]" "[100]"] t
  show ?thesis by (simp add: same_span_def)
qed

end
