(* ===== verification/Meaner.thy ===== *)
theory Meaner
  imports Save_Param "HOL-Library.Sublist"
begin

text \<open>
  The data base daemon, \<open>meaner3\<close>: its statistics (\<open>tstatus.cc\<close>), the set-up of the parameters
  (\<open>TWriter::LoadIPK\<close> of \<open>twriter.cc\<close>, \<open>TMeaner::LoadIPK\<close> of \<open>tmeaner.cc\<close>), the writing of one
  ten-minute cycle (\<open>TMeaner::WriteParams\<close>) and of one ten-second cycle of the prober
  (\<open>tprober.cc\<close>). The values come from the segment copied by \<open>TParcook::GetValues\<close>; the outcomes
  of the system calls of each write are an argument, as in \<open>Save_Param\<close>. \<open>None\<close> is a failed
  assertion or a read outside of an array.
\<close>

subsection \<open>Status parameters\<close>

datatype ParamType = PT_RUN | PT_PARAMS | PT_DEVPS | PT_DEFPS | PT_DDPS | PT_BASEPS | PT_NNPS
  | PT_OKPS | PT_ERRPS | PTE_SECS | PTE_TRSECS | PTE_RSECS | PTE_OKSECS | PTE_ERRSECS | PTE_INTSECS

definition all_params :: "ParamType list" where
  "all_params = [PT_RUN, PT_PARAMS, PT_DEVPS, PT_DEFPS, PT_DDPS, PT_BASEPS, PT_NNPS, PT_OKPS,
     PT_ERRPS, PTE_SECS, PTE_TRSECS, PTE_RSECS, PTE_OKSECS, PTE_ERRSECS, PTE_INTSECS]"

fun SaveShift :: "ParamType \<Rightarrow> int" where
  "SaveShift PTE_SECS = -1"
| "SaveShift PTE_TRSECS = -1"
| "SaveShift PTE_RSECS = -1"
| "SaveShift PTE_OKSECS = -1"
| "SaveShift PTE_ERRSECS = -1"
| "SaveShift PTE_INTSECS = -1"
| "SaveShift _ = 0"

fun ResetParam :: "ParamType \<Rightarrow> bool" where
  "ResetParam PT_NNPS = True"
| "ResetParam PT_OKPS = True"
| "ResetParam PT_ERRPS = True"
| "ResetParam PTE_OKSECS = True"
| "ResetParam PTE_ERRSECS = True"
| "ResetParam PTE_INTSECS = True"
| "ResetParam _ = False"

record tstatus =
  vals :: "ParamType \<Rightarrow> short"
  firstTime :: bool

definition Set :: "ParamType \<Rightarrow> short \<Rightarrow> tstatus \<Rightarrow> tstatus" where
  "Set pt val st = st\<lparr>vals := (vals st)(pt := val)\<rparr>"

definition Reset :: "ParamType \<Rightarrow> tstatus \<Rightarrow> tstatus" where
  "Reset pt st = Set pt 0 st"

definition TStatus :: "(ParamType \<Rightarrow> short) \<Rightarrow> tstatus" where
  "TStatus uninit = Set PT_RUN 1 (fold Reset all_params \<lparr>vals = uninit, firstTime = True\<rparr>)"

definition ResetAll :: "tstatus \<Rightarrow> tstatus" where
  "ResetAll st = Set PT_RUN 1 (fold Reset (filter ResetParam all_params) st)"

definition NextCycle :: "tstatus \<Rightarrow> tstatus" where
  "NextCycle st = (let st = ResetAll st in
     if firstTime st then (Set PT_RUN 0 st)\<lparr>firstTime := False\<rparr> else Set PT_RUN 1 st)"

definition Incr :: "ParamType \<Rightarrow> tstatus \<Rightarrow> tstatus" where
  "Incr pt st = Set pt (vals st pt + 1) st"

definition Decr :: "ParamType \<Rightarrow> tstatus \<Rightarrow> tstatus" where
  "Decr pt st = Set pt (vals st pt - 1) st"

definition WriteParam ::
  "io \<Rightarrow> ParamType \<Rightarrow> time_t \<Rightarrow> wstring \<Rightarrow> tstatus \<Rightarrow> save_param \<times> files \<Rightarrow>
     (int \<times> save_param \<times> files \<times> bool) option" where
  "WriteParam env pt t datadir st sf =
     Write env datadir (t + 600 * SaveShift pt) [vals st pt] False False False 600 sf"

subsection \<open>Set-up\<close>

text \<open>A parameter of the configuration: its name and whether it is saved to the base. The list
  holds those read from devices followed by the defined ones, at most \<open>params_len\<close> of them.\<close>

record ipk_param =
  p_name :: wstring
  p_inbase :: bool

record ipk =
  ipk_params :: "ipk_param list"
  devices_count :: nat
  defined_count :: nat
  drawdefinable_count :: nat

definition load_param :: "ipk_param \<Rightarrow> save_param option" where
  "load_param p = (if p_inbase p then Some (TSaveParam (p_name p)) else None)"

definition TWriter_LoadIPK :: "ipk \<Rightarrow> save_param option list \<times> nat" where
  "TWriter_LoadIPK cfg =
     (let params = map load_param (take (devices_count cfg + defined_count cfg) (ipk_params cfg)) in
      (params, length (filter (\<lambda>p. p \<noteq> None) params)))"

definition TMeaner_LoadIPK :: "ipk \<Rightarrow> (ParamType \<Rightarrow> wstring) \<Rightarrow> tstatus \<Rightarrow>
     save_param option list \<times> save_param list \<times> tstatus" where
  "TMeaner_LoadIPK cfg status_name st =
     (let (params, c) = TWriter_LoadIPK cfg;
          sparams = map (\<lambda>pt. TSaveParam (status_name pt)) all_params;
          st = Set PT_PARAMS (of_nat (devices_count cfg + defined_count cfg + drawdefinable_count cfg)) st;
          st = Set PT_DEVPS (of_nat (devices_count cfg)) st;
          st = Set PT_DEFPS (of_nat (defined_count cfg)) st;
          st = Set PT_DDPS (of_nat (drawdefinable_count cfg)) st;
          st = Set PT_BASEPS (of_nat c) st
      in (params, sparams, st))"

subsection \<open>A ten-minute cycle\<close>

definition GetData :: "short list \<Rightarrow> nat \<Rightarrow> short option" where
  "GetData copied i = c_index copied (int i)"

record counts =
  ok_cnt :: int
  err_cnt :: int

definition count_write :: "int \<Rightarrow> counts \<Rightarrow> counts" where
  "count_write ret c = (if ret \<noteq> 0 then c\<lparr>err_cnt := err_cnt c + 1\<rparr> else c\<lparr>ok_cnt := ok_cnt c + 1\<rparr>)"

text \<open>The loop over the parameters, from the one with number \<open>i\<close>.\<close>

fun write_values ::
  "(nat \<Rightarrow> io) \<Rightarrow> wstring \<Rightarrow> time_t \<Rightarrow> short list \<Rightarrow> nat \<Rightarrow> save_param option list \<Rightarrow>
     counts \<times> files \<times> tstatus \<Rightarrow> (save_param option list \<times> counts \<times> files \<times> tstatus) option" where
  "write_values env dir t copied i [] s = Some ([], s)"
| "write_values env dir t copied i (None # ps) s =
     map_option (\<lambda>(qs, s). (None # qs, s)) (write_values env dir t copied (Suc i) ps s)"
| "write_values env dir t copied i (Some sp # ps) (c, fs, st) =
     (case GetData copied i of None \<Rightarrow> None
      | Some d \<Rightarrow> (case Write (env i) dir t [d] True False False 600 (sp, fs) of None \<Rightarrow> None
        | Some (ret, sp', fs', incr) \<Rightarrow>
            map_option (\<lambda>(qs, s). (Some sp' # qs, s))
              (write_values env dir t copied (Suc i) ps
                 (count_write ret c, fs', if incr then Incr PT_NNPS st else st))))"

text \<open>The loop over the status parameters; an error is only logged.\<close>

fun write_status ::
  "(ParamType \<Rightarrow> io) \<Rightarrow> wstring \<Rightarrow> time_t \<Rightarrow> tstatus \<Rightarrow> (ParamType \<times> save_param) list \<Rightarrow> files \<Rightarrow>
     (save_param list \<times> files) option" where
  "write_status env dir t st [] fs = Some ([], fs)"
| "write_status env dir t st ((pt, sp) # ps) fs =
     (case WriteParam (env pt) pt t dir st (sp, fs) of None \<Rightarrow> None
      | Some (ret, sp', fs', incr) \<Rightarrow>
          map_option (\<lambda>(qs, fs). (sp' # qs, fs)) (write_status env dir t st ps fs'))"

record meaner =
  params :: "save_param option list"
  sparams :: "save_param list"
  data_dir :: wstring

definition TMeaner_WriteParams ::
  "(nat \<Rightarrow> io) \<Rightarrow> (ParamType \<Rightarrow> io) \<Rightarrow> time_t \<Rightarrow> short list \<Rightarrow> meaner \<times> files \<times> tstatus \<Rightarrow>
     (meaner \<times> files \<times> tstatus) option" where
  "TMeaner_WriteParams env senv now copied s =
     (case s of (m, fs, st) \<Rightarrow>
      let t = now - now smod 600 in
      case write_values env (data_dir m) t copied 0 (params m) (\<lparr>ok_cnt = 0, err_cnt = 0\<rparr>, fs, st) of None \<Rightarrow> None
      | Some (ps, c, fs, st) \<Rightarrow>
          let st = Set PT_ERRPS (word_of_int (err_cnt c)) (Set PT_OKPS (word_of_int (ok_cnt c)) st) in
          map_option (\<lambda>(qs, fs). (m\<lparr>params := ps, sparams := qs\<rparr>, fs, st))
            (write_status senv (data_dir m) t st (zip all_params (sparams m)) fs))"

subsection \<open>A ten-second cycle of the prober\<close>

definition WRITE_EACH :: nat where "WRITE_EACH = 1"

record prober =
  pr_params :: "save_param option list"
  pr_dir :: wstring
  buffer :: "short list"
  all_written :: bool

definition TProber_LoadIPK :: "ipk \<Rightarrow> wstring \<Rightarrow> (prober \<times> nat) option" where
  "TProber_LoadIPK cfg dir = (let (ps, c) = TWriter_LoadIPK cfg in
     if length ps = 0 then None
     else Some (\<lparr>pr_params = ps, pr_dir = dir, buffer = replicate (length ps * WRITE_EACH) SZARP_NO_DATA,
       all_written = True\<rparr>, c))"

fun write_probes ::
  "(nat \<Rightarrow> io) \<Rightarrow> wstring \<Rightarrow> time_t \<Rightarrow> nat \<Rightarrow> bool \<Rightarrow> short list \<Rightarrow> nat \<Rightarrow> save_param option list \<Rightarrow>
     counts \<times> short list \<times> files \<Rightarrow> (save_param option list \<times> counts \<times> short list \<times> files) option" where
  "write_probes env dir t cycle force copied i [] s = Some ([], s)"
| "write_probes env dir t cycle force copied i (None # ps) s =
     map_option (\<lambda>(qs, s). (None # qs, s)) (write_probes env dir t cycle force copied (Suc i) ps s)"
| "write_probes env dir t cycle force copied i (Some sp # ps) (c, buf, fs) =
     (case GetData copied i of None \<Rightarrow> None
      | Some d \<Rightarrow>
          if length buf \<le> WRITE_EACH * i + cycle then None
          else
            let buf = buf[WRITE_EACH * i + cycle := d] in
            if Suc cycle = WRITE_EACH \<or> force then
              (case WriteProbes (env i) dir t (take (cycle + 1) (drop (WRITE_EACH * i) buf)) (sp, fs) of None \<Rightarrow> None
               | Some (ret, sp', fs', incr) \<Rightarrow>
                   map_option (\<lambda>(qs, s). (Some sp' # qs, s))
                     (write_probes env dir t cycle force copied (Suc i) ps (count_write ret c, buf, fs')))
            else map_option (\<lambda>(qs, s). (Some sp # qs, s))
                   (write_probes env dir t cycle force copied (Suc i) ps (c, buf, fs)))"

definition TProber_WriteParams ::
  "(nat \<Rightarrow> io) \<Rightarrow> time_t \<Rightarrow> short list \<Rightarrow> bool \<Rightarrow> prober \<times> files \<Rightarrow> (prober \<times> files) option" where
  "TProber_WriteParams env now copied force s =
     (case s of (p, fs) \<Rightarrow>
      if force \<and> all_written p then Some (p, fs)
      else
        let t = now - now smod 10;
            cycle = nat (t smod (10 * int WRITE_EACH) sdiv 10) in
        map_option (\<lambda>(ps, c, buf, fs).
            (p\<lparr>pr_params := ps, buffer := buf, all_written := (Suc cycle = WRITE_EACH)\<rparr>, fs))
          (write_probes env (pr_dir p) t cycle force copied 0 (pr_params p) (\<lparr>ok_cnt = 0, err_cnt = 0\<rparr>, buffer p, fs)))"


subsection \<open>Statistics\<close>

lemma vals_Set [simp]: "vals (Set pt v st) = (vals st)(pt := v)" "firstTime (Set pt v st) = firstTime st"
  by (simp_all add: Set_def)

lemma vals_Reset [simp]: "vals (Reset pt st) = (vals st)(pt := 0)" "firstTime (Reset pt st) = firstTime st"
  by (simp_all add: Reset_def)

lemma vals_Incr [simp]: "vals (Incr pt st) = (vals st)(pt := vals st pt + 1)" "firstTime (Incr pt st) = firstTime st"
  by (simp_all add: Incr_def)

lemma vals_fold_Reset:
  "vals (fold Reset pts st) = (\<lambda>p. if p \<in> set pts then 0 else vals st p)"
  "firstTime (fold Reset pts st) = firstTime st"
  by (induction pts arbitrary: st) auto

lemma set_all_params: "set all_params = UNIV"
proof -
  have "p \<in> set all_params" for p by (cases p) (simp_all add: all_params_def)
  then show ?thesis by blast
qed

lemma vals_NextCycle:
  "vals (NextCycle st) pt =
     (if pt = PT_RUN then (if firstTime st then 0 else 1) else if ResetParam pt then 0 else vals st pt)"
  "firstTime (NextCycle st) = False"
  by (simp_all add: NextCycle_def ResetAll_def Let_def vals_fold_Reset set_all_params)

subsection \<open>Files that only grow\<close>

definition grows :: "files \<Rightarrow> files \<Rightarrow> bool" where
  "grows fs fs' \<longleftrightarrow> (\<forall>p f. fs p = Some f \<longrightarrow> (\<exists>f'. fs' p = Some f' \<and> prefix f f'))"

definition stored :: "files \<Rightarrow> wstring \<Rightarrow> nat \<Rightarrow> short \<Rightarrow> bool" where
  "stored fs p i v \<longleftrightarrow> (\<exists>f. fs p = Some f \<and> i < length f \<and> f ! i = v)"

lemma grows_refl [simp]: "grows fs fs"
  by (simp add: grows_def)

lemma grows_trans: "grows a b \<Longrightarrow> grows b c \<Longrightarrow> grows a c"
  unfolding grows_def using prefix_order.trans by blast

lemma grows_stored: "grows fs fs' \<Longrightarrow> stored fs p i v \<Longrightarrow> stored fs' p i v"
  by (fastforce simp: grows_def stored_def prefix_def nth_append)

lemma grows_sp_inv: "grows fs fs' \<Longrightarrow> sp_inv sp fs \<Longrightarrow> sp_inv sp fs'"
  by (fastforce simp: grows_def sp_inv_def)

lemma stored_probe_at: "stored fs p i v \<Longrightarrow> probe_at fs p i = v"
  by (auto simp: stored_def probe_at_def)

lemma overwrite_pad: "length f \<le> i \<Longrightarrow> overwrite_at i ys (pad_to x i f) = f @ replicate (i - length f) x @ ys"
  by (simp add: overwrite_at_def pad_to_def)

lemma write_file_extends: "write_file env i d False f = (ok, f') \<Longrightarrow> prefix f f'"
  by (auto simp: write_file_def Let_def overwrite_pad not_less split: if_splits option.splits)

lemma open_file_grows: "open_file env sp fs = (ok, sp', fs') \<Longrightarrow> grows fs fs'"
  by (auto simp: open_file_def Let_def grows_def split: if_splits option.splits)

lemma Write_dates:
  assumes "Write env dir t data status ow force len (sp, fs) = Some r"
  obtains index y m where "szb_probeind t len = Some index" "time2my t = Inr (y, m)" "0 \<le> index"
  using assms by (auto simp: Write_def WriteBuffered_def split: option.splits sum.splits if_splits)

lemma Write_grows:
  assumes "sp_inv sp fs" "Write env dir t data status False force len (sp, fs) = Some (ret, sp', fs', incr)"
  shows "grows fs fs'" and "cname sp' = cname sp"
proof -
  obtain index y m where i: "szb_probeind t len = Some index" "time2my t = Inr (y, m)" "0 \<le> index"
    using Write_dates [OF assms(2)] .
  have pre: "sp_inv (CreateFilePath dir y m len sp) fs" using assms(1) by (simp add: sp_inv_def CreateFilePath_def)
  have "grows fs fs' \<and> cname sp' = cname sp"
  proof (cases "wants_write data force")
    case False
    then show ?thesis using Write_skips [OF False i(1,3,2)] assms(2) by simp
  next
    case True
    show ?thesis
      using assms(2) i(1,2) True
    proof (cases rule: Write_cases)
      case (failed sp1)
      then show ?thesis using open_file_grows [OF failed(1)] open_file_path [OF failed(1)]
        by (simp add: CreateFilePath_def)
    next
      case (opened sp1 fs1 ok fl)
      obtain c where c: "fs1 (m_path sp1) = Some c" using open_file_exists [OF opened(1) pre] by blast
      have "prefix c fl" using opened(2) c write_file_extends by simp
      then have "grows fs1 fs'" using c opened(3) by (auto simp: grows_def)
      then show ?thesis using open_file_grows [OF opened(1)] open_file_path [OF opened(1)] opened(5)
        by (auto simp: CreateFilePath_def intro: grows_trans)
    qed
  qed
  then show "grows fs fs'" "cname sp' = cname sp" by simp_all
qed

lemma Write_stores:
  assumes "sp_inv sp fs" "Write env dir t [d] status False False 600 (sp, fs) = Some (0, sp', fs', incr)"
    and "szb_probeind t 600 = Some index" "time2my t = Inr (y, m)" "d \<noteq> SZARP_NO_DATA"
  shows "stored fs' (target_path sp dir y m 600) (nat index) d"
proof -
  have w: "wants_write [d] False" using assms(5) by (simp add: wants_write_def)
  have pre: "sp_inv (CreateFilePath dir y m 600 sp) fs" using assms(1) by (simp add: sp_inv_def CreateFilePath_def)
  show ?thesis
    using assms(2-4) w
  proof (cases rule: Write_cases)
    case (opened sp1 fs1 ok fl)
    obtain c where c: "fs1 (m_path sp1) = Some c" using open_file_exists [OF opened(1) pre] by blast
    have "length c \<le> nat index" "fl = overwrite_at (nat index) [d] (pad_to SZARP_NO_DATA (nat index) c)"
      using opened(2,4) c by (auto simp: write_file_def Let_def split: if_splits option.splits)
    then show ?thesis
      using opened(3) Write_target [OF opened(1)] by (simp add: stored_def overwrite_pad nth_append)
  qed simp
qed

lemma Write_counts:
  assumes "Write env dir t [d] True ow False len (sp, fs) = Some (ret, sp', fs', incr)"
  shows "incr \<longleftrightarrow> d \<noteq> SZARP_NO_DATA"
proof -
  obtain index y m where i: "szb_probeind t len = Some index" "time2my t = Inr (y, m)" "0 \<le> index"
    using Write_dates [OF assms] .
  show ?thesis
  proof (cases "d = SZARP_NO_DATA")
    case True
    then have "\<not> wants_write [d] False" by (simp add: wants_write_def)
    from Write_skips [OF this i(1,3,2)] show ?thesis using assms True by simp
  next
    case False
    obtain opened sp1 fs1 where o: "open_file env (CreateFilePath dir y m len sp) fs = (opened, sp1, fs1)"
      by (metis prod_cases3)
    obtain ok fl where w: "write_file env (nat index) [d] ow (the (fs1 (m_path sp1))) = (ok, fl)"
      by fastforce
    show ?thesis using assms False i o w by (auto simp: Write_def WriteBuffered_def Let_def split: if_splits)
  qed
qed

subsection \<open>The loops\<close>

abbreviation saved_params :: "save_param option list \<Rightarrow> save_param set" where
  "saved_params ps \<equiv> {sp. Some sp \<in> set ps}"

definition names :: "save_param option list \<Rightarrow> wstring option list" where
  "names ps = map (map_option cname) ps"

definition saved_count :: "save_param option list \<Rightarrow> nat" where
  "saved_count ps = length (filter (\<lambda>p. p \<noteq> None) ps)"

fun data_count :: "short list \<Rightarrow> nat \<Rightarrow> save_param option list \<Rightarrow> nat" where
  "data_count copied i [] = 0"
| "data_count copied i (None # ps) = data_count copied (Suc i) ps"
| "data_count copied i (Some sp # ps) =
     (if copied ! i \<noteq> SZARP_NO_DATA then 1 else 0) + data_count copied (Suc i) ps"

text \<open>One round of the loop for a saved parameter.\<close>

lemma write_values_Some:
  assumes "write_values env dir t copied i (Some sp # ps) (c, fs, st) = Some (qs, s)" "sp_inv sp fs"
  obtains ret sp' fs' qs' where "Write (env i) dir t [copied ! i] True False False 600 (sp, fs) =
      Some (ret, sp', fs', copied ! i \<noteq> SZARP_NO_DATA)"
    "write_values env dir t copied (Suc i) ps (count_write ret c, fs',
      if copied ! i \<noteq> SZARP_NO_DATA then Incr PT_NNPS st else st) = Some (qs', s)"
    "qs = Some sp' # qs'" "grows fs fs'" "sp_inv sp' fs'" "cname sp' = cname sp"
proof -
  obtain ret sp' fs' incr where w: "Write (env i) dir t [copied ! i] True False False 600 (sp, fs) = Some (ret, sp', fs', incr)"
      and r: "write_values env dir t copied (Suc i) ps (count_write ret c, fs', if incr then Incr PT_NNPS st else st) = Some (tl qs, s)"
      "qs = Some sp' # tl qs"
    using assms(1) by (auto simp: GetData_def c_index_def split: option.splits if_splits)
  then show thesis
    using that Write_counts [OF w] Write_grows [OF assms(2) w] Write_inv [OF assms(2) w] by blast
qed

lemma write_values_keeps:
  assumes "write_values env dir t copied i ps (c, fs, st) = Some (qs, c', fs', st')"
    and "\<And>sp. sp \<in> saved_params ps \<Longrightarrow> sp_inv sp fs"
  shows "grows fs fs'" and "names qs = names ps" and "\<And>sp. sp \<in> saved_params qs \<Longrightarrow> sp_inv sp fs'"
proof -
  have "grows fs fs' \<and> names qs = names ps \<and> (\<forall>sp \<in> saved_params qs. sp_inv sp fs')"
    using assms
  proof (induction ps arbitrary: i c fs st qs)
    case (Cons p ps)
    show ?case
    proof (cases p)
      case None
      then show ?thesis using Cons by (fastforce simp: names_def)
    next
      case (Some sp)
      obtain ret sp1 fs1 qs1 where w:
          "write_values env dir t copied (Suc i) ps (count_write ret c, fs1,
             if copied ! i \<noteq> SZARP_NO_DATA then Incr PT_NNPS st else st) = Some (qs1, c', fs', st')"
          "qs = Some sp1 # qs1" "grows fs fs1" "sp_inv sp1 fs1" "cname sp1 = cname sp"
        using Cons.prems Some write_values_Some [of env dir t copied i sp ps c fs st qs "(c', fs', st')"]
        by (metis list.set_intros(1) mem_Collect_eq)
      have "sp_inv x fs1" if "x \<in> saved_params ps" for x
        using that Cons.prems(2) [of x] grows_sp_inv [OF w(3)] by simp
      then have "grows fs1 fs' \<and> names qs1 = names ps \<and> (\<forall>sp \<in> saved_params qs1. sp_inv sp fs')"
        by (rule Cons.IH [OF w(1)])
      then show ?thesis using w Some grows_sp_inv [of fs1 fs' sp1] grows_trans [OF w(3)] by (auto simp: names_def)
    qed
  qed (simp add: names_def)
  then show "grows fs fs'" "names qs = names ps" "\<And>sp. sp \<in> saved_params qs \<Longrightarrow> sp_inv sp fs'"
    by auto
qed

lemma write_values_counts:
  assumes "write_values env dir t copied i ps (c, fs, st) = Some (qs, c', fs', st')"
    and "\<And>sp. sp \<in> saved_params ps \<Longrightarrow> sp_inv sp fs"
  shows "ok_cnt c' + err_cnt c' = ok_cnt c + err_cnt c + int (saved_count ps) \<and> err_cnt c \<le> err_cnt c' \<and>
    ok_cnt c \<le> ok_cnt c' \<and> st' = Set PT_NNPS (vals st PT_NNPS + of_nat (data_count copied i ps)) st"
  using assms
proof (induction ps arbitrary: i c fs st qs)
  case Nil
  then show ?case by (auto simp: saved_count_def Set_def)
next
  case (Cons p ps)
  show ?case
  proof (cases p)
    case None
    then show ?thesis using Cons by (fastforce simp: saved_count_def)
  next
    case (Some sp)
    let ?st = "if copied ! i \<noteq> SZARP_NO_DATA then Incr PT_NNPS st else st"
    obtain ret sp1 fs1 qs1 where w:
        "write_values env dir t copied (Suc i) ps (count_write ret c, fs1, ?st) = Some (qs1, c', fs', st')"
        "grows fs fs1"
      using Cons.prems Some write_values_Some [of env dir t copied i sp ps c fs st qs "(c', fs', st')"]
      by (metis list.set_intros(1) mem_Collect_eq)
    have "sp_inv x fs1" if "x \<in> saved_params ps" for x
      using that Cons.prems(2) [of x] grows_sp_inv [OF w(2)] by simp
    note ih = Cons.IH [OF w(1) this]
    have st: "Set PT_NNPS (vals ?st PT_NNPS + v) ?st = Set PT_NNPS (vals st PT_NNPS + ((if copied ! i \<noteq> SZARP_NO_DATA then 1 else 0) + v)) st" for v
      by (simp add: Set_def Incr_def algebra_simps)
    show ?thesis
    proof (intro conjI)
      show "ok_cnt c' + err_cnt c' = ok_cnt c + err_cnt c + int (saved_count (p # ps))"
        "err_cnt c \<le> err_cnt c'" "ok_cnt c \<le> ok_cnt c'"
        using ih Some by (auto simp: count_write_def saved_count_def split: if_splits)
      show "st' = Set PT_NNPS (vals st PT_NNPS + of_nat (data_count copied i (p # ps))) st"
        using ih Some st [of "of_nat (data_count copied (Suc i) ps)"] by simp
    qed
  qed
qed

lemma write_values_stores:
  assumes "write_values env dir t copied i ps (c, fs, st) = Some (qs, c', fs', st')"
    and "\<And>sp. sp \<in> saved_params ps \<Longrightarrow> sp_inv sp fs" "err_cnt c' = err_cnt c"
    and "szb_probeind t 600 = Some index" "time2my t = Inr (y, m)"
    and "j < length ps" "ps ! j = Some sp" "copied ! (i + j) \<noteq> SZARP_NO_DATA"
  shows "stored fs' (target_path sp dir y m 600) (nat index) (copied ! (i + j))"
  using assms
proof (induction ps arbitrary: i c fs st qs j)
  case (Cons p ps)
  have "\<exists>st1 fs1 c1 qs1. write_values env dir t copied (Suc i) ps (c1, fs1, st1) = Some (qs1, c', fs', st') \<and>
      grows fs fs1 \<and> err_cnt c1 = err_cnt c \<and>
      (p = Some sp \<and> copied ! i \<noteq> SZARP_NO_DATA \<longrightarrow> stored fs1 (target_path sp dir y m 600) (nat index) (copied ! i))"
  proof (cases p)
    case None
    then show ?thesis using Cons.prems(1) by fastforce
  next
    case (Some sp0)
    then have inv: "sp_inv sp0 fs" using Cons.prems(2) by simp
    obtain ret sp1 fs1 qs1 where w:
        "Write (env i) dir t [copied ! i] True False False 600 (sp0, fs) = Some (ret, sp1, fs1, copied ! i \<noteq> SZARP_NO_DATA)"
        "write_values env dir t copied (Suc i) ps (count_write ret c, fs1,
           if copied ! i \<noteq> SZARP_NO_DATA then Incr PT_NNPS st else st) = Some (qs1, c', fs', st')" "grows fs fs1"
      using Cons.prems(1) Some inv write_values_Some [of env dir t copied i sp0 ps c fs st qs "(c', fs', st')"] by metis
    have "sp_inv x fs1" if "x \<in> saved_params ps" for x
      using that Cons.prems(2) [of x] grows_sp_inv [OF w(3)] by simp
    then have "err_cnt (count_write ret c) \<le> err_cnt c'" using write_values_counts [OF w(2)] by blast
    then have "ret = 0" using Cons.prems(3) by (simp add: count_write_def split: if_splits)
    then show ?thesis using w Some Write_stores [OF inv] Cons.prems(4,5)
      by (intro exI [of _ "if copied ! i \<noteq> SZARP_NO_DATA then Incr PT_NNPS st else st"] exI [of _ fs1]
          exI [of _ "count_write ret c"] exI [of _ qs1]) (auto simp: count_write_def)
  qed
  then obtain st1 fs1 c1 qs1 where s: "write_values env dir t copied (Suc i) ps (c1, fs1, st1) = Some (qs1, c', fs', st')"
    "grows fs fs1" "err_cnt c1 = err_cnt c"
    "p = Some sp \<and> copied ! i \<noteq> SZARP_NO_DATA \<Longrightarrow> stored fs1 (target_path sp dir y m 600) (nat index) (copied ! i)"
    by blast
  have inv: "sp_inv x fs1" if "x \<in> saved_params ps" for x
    using that Cons.prems(2) [of x] grows_sp_inv [OF s(2)] by simp
  show ?case
  proof (cases j)
    case 0
    then show ?thesis using s(4) Cons.prems write_values_keeps(1) [OF s(1) inv] grows_stored by simp
  next
    case (Suc k)
    then show ?thesis using Cons.IH [OF s(1) inv, of k] Cons.prems s(3) by simp
  qed
qed simp

lemma write_status_keeps:
  assumes "write_status env dir t st ps fs = Some (qs, fs')" "\<And>sp. sp \<in> snd ` set ps \<Longrightarrow> sp_inv sp fs"
  shows "grows fs fs' \<and> map cname qs = map (cname \<circ> snd) ps \<and> (\<forall>sp \<in> set qs. sp_inv sp fs')"
  using assms
proof (induction ps arbitrary: fs qs)
  case (Cons p ps)
  obtain pt sp where p: "p = (pt, sp)" by fastforce
  obtain ret sp1 fs1 incr qs1 where w: "WriteParam (env pt) pt t dir st (sp, fs) = Some (ret, sp1, fs1, incr)"
      "write_status env dir t st ps fs1 = Some (qs1, fs')" "qs = sp1 # qs1"
    using Cons.prems(1) p by (auto split: option.splits)
  have inv: "sp_inv sp fs" using Cons.prems(2) p by force
  note g = Write_grows [OF inv w(1) [unfolded WriteParam_def]]
  have "sp_inv x fs1" if "x \<in> snd ` set ps" for x
    using that Cons.prems(2) [of x] grows_sp_inv [OF g(1)] by auto
  note ih = Cons.IH [OF w(2) this]
  show ?case
    using ih g w(3) p Write_inv [OF inv w(1) [unfolded WriteParam_def]] grows_sp_inv [of fs1 fs' sp1] grows_trans [OF g(1)]
    by auto
qed simp

subsection \<open>A whole cycle\<close>

definition meaner_inv :: "meaner \<Rightarrow> files \<Rightarrow> bool" where
  "meaner_inv m fs \<longleftrightarrow> (\<forall>sp \<in> saved_params (params m). sp_inv sp fs) \<and> (\<forall>sp \<in> set (sparams m). sp_inv sp fs)"

lemma WriteParams_stages:
  assumes "TMeaner_WriteParams env senv now copied (m, fs, st) = Some (m', fs', st')"
  obtains ps c fs1 st1 qs where
    "write_values env (data_dir m) (now - now smod 600) copied 0 (params m) (\<lparr>ok_cnt = 0, err_cnt = 0\<rparr>, fs, st) = Some (ps, c, fs1, st1)"
    "st' = Set PT_ERRPS (word_of_int (err_cnt c)) (Set PT_OKPS (word_of_int (ok_cnt c)) st1)"
    "write_status senv (data_dir m) (now - now smod 600) st' (zip all_params (sparams m)) fs1 = Some (qs, fs')"
    "m' = m\<lparr>params := ps, sparams := qs\<rparr>"
  using assms by (auto simp: TMeaner_WriteParams_def Let_def split: option.splits)

lemma WriteParams_keeps:
  assumes "meaner_inv m fs" "TMeaner_WriteParams env senv now copied (m, fs, st) = Some (m', fs', st')"
  shows "grows fs fs'" and "meaner_inv m' fs'" and "names (params m') = names (params m)" and "data_dir m' = data_dir m"
proof -
  obtain ps c fs1 st1 qs where w:
    "write_values env (data_dir m) (now - now smod 600) copied 0 (params m) (\<lparr>ok_cnt = 0, err_cnt = 0\<rparr>, fs, st) = Some (ps, c, fs1, st1)"
    "write_status senv (data_dir m) (now - now smod 600) st' (zip all_params (sparams m)) fs1 = Some (qs, fs')"
    "m' = m\<lparr>params := ps, sparams := qs\<rparr>"
    using WriteParams_stages [OF assms(2)] by metis
  have inv: "\<And>sp. sp \<in> saved_params (params m) \<Longrightarrow> sp_inv sp fs" using assms(1) by (simp add: meaner_inv_def)
  note v = write_values_keeps [OF w(1) inv]
  have "sp_inv sp fs1" if "sp \<in> snd ` set (zip all_params (sparams m))" for sp
    using that assms(1) grows_sp_inv [OF v(1)] by (auto simp: meaner_inv_def dest: set_zip_rightD)
  note u = write_status_keeps [OF w(2) this]
  show "grows fs fs'" using grows_trans [OF v(1)] u by blast
  show "meaner_inv m' fs'" using u v(3) grows_sp_inv w(3) by (auto simp: meaner_inv_def)
  show "names (params m') = names (params m)" "data_dir m' = data_dir m" using w(3) v(2) by simp_all
qed

text \<open>No assertion fails at the times of the data base.\<close>

lemma ok_time_floor:
  assumes "ok_time t"
  shows "ok_time (t - t mod 600)"
proof -
  obtain y m p where "month_ok y m" "probe2time p y m = t - t mod 600" "time2my (probe2time p y m) = Inr (y, m)"
    using ok_timeE [OF assms] by metis
  then show ?thesis by (simp add: ok_time_def month_ok_def)
qed

lemma ok_time_probeind:
  assumes "ok_time t" "0 < len"
  obtains y m p where "time2my t = Inr (y, m)" "szb_probeind t len = Some p" "0 \<le> p"
proof -
  obtain y m where ym: "time2my t = Inr (y, m)" "0 \<le> y" "y \<le> 9999"
    using assms(1) by (auto simp: ok_time_def split: sum.splits prod.splits)
  have "gmtime_r t = Some (gm_tm t)" using time2my_eq [OF ym] by blast
  then have "szb_probeind t len = Some (month_secs (gm_tm t) div len)" "0 \<le> month_secs (gm_tm t) div len"
    using szb_probeind_eq assms(2) month_secs_bounds(1) [OF gm_tm_ok]
    by (simp_all add: pos_imp_zdiv_nonneg_iff)
  then show thesis using that ym(1) by blast
qed

lemma Write_total:
  assumes "ok_time t" "0 < len"
  shows "\<exists>ret sp' fs' b. Write env dir t data status ow force len (sp, fs) = Some (ret, sp', fs', b)"
proof -
  obtain y m p where p: "time2my t = Inr (y, m)" "szb_probeind t len = Some p" "0 \<le> p"
    using ok_time_probeind [OF assms] .
  obtain opened sp1 fs1 where o: "open_file env (CreateFilePath dir y m len sp) fs = (opened, sp1, fs1)"
    by (metis prod_cases3)
  obtain ok fl where w: "write_file env (nat p) data ow (the (fs1 (m_path sp1))) = (ok, fl)" by fastforce
  have "\<not> (WriteBuffered env dir t data status ow force len False (sp, fs) = None)"
    using p o w by (auto simp: WriteBuffered_def Let_def)
  then have "Write env dir t data status ow force len (sp, fs) \<noteq> None" unfolding Write_def by simp
  then obtain r where "Write env dir t data status ow force len (sp, fs) = Some r" by blast
  then show ?thesis by (cases r) auto
qed

lemma write_values_total:
  "ok_time t \<Longrightarrow> i + length ps \<le> length copied \<Longrightarrow> \<exists>qs c' fs' st'. write_values env dir t copied i ps (c, fs, st) = Some (qs, c', fs', st')"
proof (induction ps arbitrary: i c fs st)
  case (Cons p ps)
  show ?case
  proof (cases p)
    case None
    have "Suc i + length ps \<le> length copied" using Cons.prems(2) by simp
    from Cons.IH [OF Cons.prems(1) this, of c fs st] None show ?thesis by fastforce
  next
    case (Some sp)
    obtain ret sp' fs' b where w: "Write (env i) dir t [copied ! i] True False False 600 (sp, fs) = Some (ret, sp', fs', b)"
      using Write_total [OF Cons.prems(1)] by fastforce
    obtain qs c' fs2 st' where "write_values env dir t copied (Suc i) ps (count_write ret c, fs', if b then Incr PT_NNPS st else st) = Some (qs, c', fs2, st')"
      using Cons.IH [OF Cons.prems(1), of "Suc i" "count_write ret c" fs' "if b then Incr PT_NNPS st else st"] Cons.prems(2) by auto
    then show ?thesis using w Some Cons.prems(2) by (simp add: GetData_def c_index_def)
  qed
qed simp

lemma write_status_total:
  "ok_time t \<Longrightarrow> ok_time (t - 600) \<Longrightarrow> \<exists>qs fs'. write_status env dir t st ps fs = Some (qs, fs')"
proof (induction ps arbitrary: fs)
  case (Cons p ps)
  obtain pt sp where p: "p = (pt, sp)" by fastforce
  have "ok_time (t + 600 * SaveShift pt)" using Cons.prems by (cases pt) simp_all
  then obtain ret sp' fs' b where w: "WriteParam (env pt) pt t dir st (sp, fs) = Some (ret, sp', fs', b)"
    using Write_total [of _ 600] unfolding WriteParam_def by fastforce
  obtain qs fs2 where "write_status env dir t st ps fs' = Some (qs, fs2)"
    using Cons.IH [OF Cons.prems] by blast
  then show ?case using w p by simp
qed simp

lemma WriteParams_total:
  assumes "ok_time now" "ok_time (now - 600)" "0 \<le> now" "length (params m) \<le> length copied"
  shows "\<exists>m' fs' st'. TMeaner_WriteParams env senv now copied (m, fs, st) = Some (m', fs', st')"
proof -
  let ?t = "now - now mod 600"
  have "now - 600 - (now - 600) mod 600 = ?t - 600" using mod_diff_right_eq [of now 600 600] by simp
  then have t: "ok_time ?t" "ok_time (?t - 600)"
    using ok_time_floor [OF assms(1)] ok_time_floor [OF assms(2)] by (simp_all only:)
  obtain ps c fs1 st1 where "write_values env (data_dir m) ?t copied 0 (params m) (\<lparr>ok_cnt = 0, err_cnt = 0\<rparr>, fs, st) = Some (ps, c, fs1, st1)"
    using write_values_total [OF t(1), of 0 "params m"] assms(4) by fastforce
  moreover obtain qs fs2 where "write_status senv (data_dir m) ?t (Set PT_ERRPS (word_of_int (err_cnt c)) (Set PT_OKPS (word_of_int (ok_cnt c)) st1))
      (zip all_params (sparams m)) fs1 = Some (qs, fs2)"
    using write_status_total [OF t] by blast
  ultimately show ?thesis using assms(3) by (simp add: TMeaner_WriteParams_def smod_nonneg Let_def)
qed


text \<open>A daemon with two saved parameters and one that is not.\<close>

definition demo_meaner :: meaner where
  "demo_meaner = \<lparr>params = [Some (TSaveParam [65]), None, Some (TSaveParam [66])],
     sparams = map (\<lambda>_. TSaveParam [67]) all_params, data_dir = [100]\<rparr>"


subsection \<open>The prober\<close>

definition prober_ok :: "prober \<Rightarrow> files \<Rightarrow> bool" where
  "prober_ok p fs \<longleftrightarrow> length (buffer p) = length (pr_params p) \<and> (\<forall>sp \<in> saved_params (pr_params p). sp_inv sp fs)"

lemma Write_no_removal:
  assumes "Write env dir t data status ow force len (sp, fs) = Some (ret, sp', fs', incr)" "fs q \<noteq> None"
  shows "fs' q \<noteq> None"
proof -
  obtain index y m where i: "szb_probeind t len = Some index" "time2my t = Inr (y, m)" "0 \<le> index"
    using Write_dates [OF assms(1)] .
  show ?thesis
  proof (cases "wants_write data force")
    case False
    then show ?thesis using Write_skips [OF False i(1,3,2)] assms by simp
  next
    case True
    have g: "open_file env (CreateFilePath dir y m len sp) fs = (ok, sp1, fs1) \<Longrightarrow> fs1 q \<noteq> None" for ok sp1 fs1
      using open_file_grows [of env "CreateFilePath dir y m len sp" fs ok sp1 fs1] assms(2) by (auto simp: grows_def)
    show ?thesis
      using assms(1) i(1,2) True by (cases rule: Write_cases) (auto dest: g)
  qed
qed

lemma write_probes_result:
  assumes "ok_time t" "i + length ps \<le> length copied" "length buf = i + length ps" "\<And>sp. sp \<in> saved_params ps \<Longrightarrow> sp_inv sp fs"
  shows "\<exists>qs c' buf' fs'. write_probes env dir t 0 force copied i ps (c, buf, fs) = Some (qs, c', buf', fs') \<and>
    length qs = length ps \<and> (\<forall>sp \<in> saved_params qs. sp_inv sp fs') \<and> (\<forall>q. fs q \<noteq> None \<longrightarrow> fs' q \<noteq> None) \<and> length buf' = length buf \<and>
    (\<forall>j < length buf. buf' ! j = (if i \<le> j \<and> ps ! (j - i) \<noteq> None then copied ! j else buf ! j))"
  using assms
proof (induction ps arbitrary: i c buf fs)
  case (Cons p ps)
  have len: "Suc i + length ps \<le> length copied" "i < length copied" using Cons.prems(2) by simp_all
  show ?case
  proof (cases p)
    case None
    then obtain qs c' buf' fs' where r: "write_probes env dir t 0 force copied (Suc i) ps (c, buf, fs) = Some (qs, c', buf', fs')"
      "length qs = length ps" "\<forall>sp \<in> saved_params qs. sp_inv sp fs'" "\<forall>q. fs q \<noteq> None \<longrightarrow> fs' q \<noteq> None" "length buf' = length buf"
      "\<forall>j < length buf. buf' ! j = (if Suc i \<le> j \<and> ps ! (j - Suc i) \<noteq> None then copied ! j else buf ! j)"
      using Cons.IH [OF Cons.prems(1) len(1), of buf fs c] Cons.prems(3,4) by auto
    have "buf' ! j = (if i \<le> j \<and> (p # ps) ! (j - i) \<noteq> None then copied ! j else buf ! j)" if "j < length buf" for j
      using r(6) that None by (cases "j = i") (auto simp: nth_Cons')
    then show ?thesis using r None by auto
  next
    case (Some sp)
    obtain ret sp1 fs1 b where w: "Write (env i) dir t [copied ! i] False True False 10 (sp, fs) = Some (ret, sp1, fs1, b)"
      using Write_total [OF Cons.prems(1), of 10] by fastforce
    have inv1: "sp_inv sp1 fs1" using Write_inv [OF _ w] Cons.prems(4) Some by simp
    have inv: "sp_inv x fs1" if "x \<in> saved_params ps" for x
      using that Cons.prems(4) [of x] Write_no_removal [OF w] by (auto simp: sp_inv_def)
    let ?buf = "buf[i := copied ! i]"
    obtain qs c' buf' fs' where r: "write_probes env dir t 0 force copied (Suc i) ps (count_write ret c, ?buf, fs1) = Some (qs, c', buf', fs')"
      "length qs = length ps" "\<forall>sp \<in> saved_params qs. sp_inv sp fs'" "\<forall>q. fs1 q \<noteq> None \<longrightarrow> fs' q \<noteq> None" "length buf' = length buf"
      "\<forall>j < length buf. buf' ! j = (if Suc i \<le> j \<and> ps ! (j - Suc i) \<noteq> None then copied ! j else ?buf ! j)"
      using Cons.IH [OF Cons.prems(1) len(1) _ inv, of ?buf "count_write ret c"] Cons.prems(3) by auto
    have d: "take 1 (drop i ?buf) = [copied ! i]"
      using Cons.prems(3) by (simp add: take_Suc_conv_app_nth [of 0 "drop i ?buf", simplified])
    have "buf' ! j = (if i \<le> j \<and> (p # ps) ! (j - i) \<noteq> None then copied ! j else buf ! j)" if "j < length buf" for j
      using r(6) that Some by (cases "j = i") (auto simp: nth_Cons')
    moreover have "write_probes env dir t 0 force copied i (p # ps) (c, buf, fs) = Some (Some sp1 # qs, c', buf', fs')"
      using r(1) w d Some len Cons.prems(3) by (simp add: GetData_def c_index_def WRITE_EACH_def WriteProbes_def)
    moreover have "sp_inv sp1 fs'" using inv1 r(4) by (auto simp: sp_inv_def)
    moreover have "\<forall>q. fs q \<noteq> None \<longrightarrow> fs' q \<noteq> None" using r(4) Write_no_removal [OF w] by blast
    ultimately show ?thesis using r(2,3,5)
      by (intro exI [of _ "Some sp1 # qs"] exI [of _ c'] exI [of _ buf'] exI [of _ fs']) auto
  qed
qed simp


definition demo_ipk :: ipk where
  "demo_ipk = \<lparr>ipk_params = [\<lparr>p_name = [65], p_inbase = True\<rparr>, \<lparr>p_name = [66], p_inbase = False\<rparr>],
     devices_count = 1, defined_count = 1, drawdefinable_count = 0\<rparr>"


end
