(* ===== verification/Exec.thy ===== *)
theory Exec
  imports Cron_Time Meaner
begin

text \<open>
  The execute mechanism of \<open>meaner3\<close>, which runs configured commands in the ten-minute cycles:
  \<open>texecsect.cc\<close> (sections), \<open>texecalarm.cc\<close> (alarms) and \<open>texecute.cc\<close> (the list of alarms and the
  signal handlers). A section is referred to by its position in the list; \<open>current\<close> at or past the
  end of the list is the null pointer. Times, process numbers and the reports of \<open>waitpid\<close> are
  arguments. The signals sent and the interval timer are recorded in the state. \<open>None\<close> is a failed
  assertion.
\<close>

subsection \<open>Sections\<close>

record exec_section =
  command :: "int list"
  s_wday :: "32 word"
  s_month :: "32 word"
  s_day :: "32 word"
  s_hour :: "32 word"
  s_min10 :: "32 word"
  retry :: int
  is_parallel :: bool
  limit :: int
  fails :: int
  pid :: int
  torun :: bool

definition TExecSection ::
  "int list \<Rightarrow> 32 word \<Rightarrow> 32 word \<Rightarrow> 32 word \<Rightarrow> 32 word \<Rightarrow> 32 word \<Rightarrow> int \<Rightarrow> bool \<Rightarrow> int \<Rightarrow> exec_section" where
  "TExecSection cmd wd mo da ho mi re pa li =
     \<lparr>command = cmd, s_wday = wd, s_month = mo, s_day = da, s_hour = ho, s_min10 = mi, retry = re,
      is_parallel = pa, limit = li, fails = 0, pid = 0, torun = False\<rparr>"

definition ClearPid :: "exec_section \<Rightarrow> exec_section option" where
  "ClearPid s = (if pid s \<noteq> 0 then Some (s\<lparr>pid := 0\<rparr>) else None)"

definition CheckRetry :: "exec_section \<Rightarrow> exec_section" where
  "CheckRetry s =
     (if retry s > 0 then
        (if fails s < retry s then s\<lparr>fails := fails s + 1\<rparr> else s\<lparr>fails := 0\<rparr>)
      else s)"

definition MarkRun :: "bool \<Rightarrow> exec_section \<Rightarrow> exec_section" where
  "MarkRun b s = s\<lparr>torun := b\<rparr>"

definition CheckRun :: "exec_section \<Rightarrow> bool" where
  "CheckRun s \<longleftrightarrow> torun s \<and> pid s = 0"

definition has_bit :: "32 word \<Rightarrow> int \<Rightarrow> bool" where
  "has_bit w i \<longleftrightarrow> w AND push_bit (nat i) 1 \<noteq> 0"

definition CheckTime :: "int \<Rightarrow> int \<Rightarrow> int \<Rightarrow> int \<Rightarrow> int \<Rightarrow> exec_section \<Rightarrow> bool" where
  "CheckTime wday month mday hour min10 s =
     (if \<not> has_bit (s_wday s) wday \<or> \<not> has_bit (s_month s) month \<or> \<not> has_bit (s_day s) mday \<or>
         \<not> has_bit (s_hour s) hour \<or> \<not> has_bit (s_min10 s) min10
      then False else True)"

subsection \<open>Alarms\<close>

datatype alarm_type = ALRM_NEWCL | ALRM_STRM | ALRM_SKILL | ALRM_REM

record alarm =
  a_type :: alarm_type
  exptime :: time_t
  a_section :: "nat option"
  isset :: bool

definition NewCycleAlarm :: "time_t \<Rightarrow> alarm" where
  "NewCycleAlarm settime =
     \<lparr>a_type = ALRM_NEWCL, exptime = settime - settime smod 600 + 600, a_section = None, isset = False\<rparr>"

definition NewTermAlarm :: "time_t \<Rightarrow> nat \<Rightarrow> alarm" where
  "NewTermAlarm t s = \<lparr>a_type = ALRM_STRM, exptime = t, a_section = Some s, isset = False\<rparr>"

definition NewKillAlarm :: "time_t \<Rightarrow> nat \<Rightarrow> alarm" where
  "NewKillAlarm t s = \<lparr>a_type = ALRM_SKILL, exptime = t, a_section = Some s, isset = False\<rparr>"

subsection \<open>The executor\<close>

datatype exec_signal = SIGTERM | SIGKILL

record texecute =
  sections :: "exec_section list"
  current :: nat
  alarms :: "alarm list"
  g_next_cycle :: bool
  ex_status :: tstatus
  timer :: "(int \<times> int) option"
  sent :: "(int \<times> exec_signal) list"

text \<open>Setting the timer for the first alarm that was not removed. The timer is a number of seconds
  and microseconds; an alarm already due is raised at once.\<close>

definition NextAlarm :: "time_t \<Rightarrow> texecute \<Rightarrow> texecute option" where
  "NextAlarm now ex =
     (case dropWhile (\<lambda>a. a_type a = ALRM_REM) (alarms ex) of
        [] \<Rightarrow> Some (ex\<lparr>alarms := []\<rparr>)
      | a # as \<Rightarrow>
          if isset a then None
          else Some (ex\<lparr>alarms := a\<lparr>isset := True\<rparr> # as,
                timer := Some (if exptime a - now \<le> 0 then (0, 10) else (exptime a - now, 0))\<rparr>))"

fun insert_alarm :: "alarm \<Rightarrow> alarm list \<Rightarrow> alarm list" where
  "insert_alarm al [] = [al]"
| "insert_alarm al (x # xs) = (if exptime x \<le> exptime al then x # insert_alarm al xs else al # x # xs)"

definition InsertAlarm :: "time_t \<Rightarrow> alarm \<Rightarrow> texecute \<Rightarrow> texecute option" where
  "InsertAlarm now al ex =
     (case alarms ex of
        [] \<Rightarrow> Some (ex\<lparr>alarms := [al]\<rparr>)
      | h # as \<Rightarrow>
          if exptime al < exptime h then
            (if isset h then NextAlarm now (ex\<lparr>alarms := al # h\<lparr>isset := False\<rparr> # as\<rparr>)
             else Some (ex\<lparr>alarms := al # h # as\<rparr>))
          else if \<not> isset h \<and> exptime al < exptime h then Some (ex\<lparr>alarms := al # h # as\<rparr>)
          else Some (ex\<lparr>alarms := h # insert_alarm al as\<rparr>))"

text \<open>What the system tells a launch: the time, the result of \<open>fork\<close>, the time when the timer is set.\<close>

record launch_env =
  l_time :: time_t
  l_pid :: int
  l_now :: time_t

definition SetAlarm :: "time_t \<Rightarrow> time_t \<Rightarrow> nat \<Rightarrow> texecute \<Rightarrow> texecute option" where
  "SetAlarm now t i ex =
     (let lim = limit (sections ex ! i) in
      if lim < 0 then None
      else if lim = 0 then Some ex
      else
        let t = t - t smod 600 + lim in
        (case InsertAlarm now (NewTermAlarm (t - 1) i) ex of
           None \<Rightarrow> None
         | Some ex \<Rightarrow> InsertAlarm now (NewKillAlarm t i) ex))"

definition set_pid :: "nat \<Rightarrow> int \<Rightarrow> texecute \<Rightarrow> texecute" where
  "set_pid i p ex = ex\<lparr>sections := (sections ex)[i := (sections ex ! i)\<lparr>pid := p\<rparr>]\<rparr>"

definition Launch :: "launch_env \<Rightarrow> nat \<Rightarrow> texecute \<Rightarrow> texecute option" where
  "Launch env i ex =
     (if pid (sections ex ! i) \<noteq> 0 then None
      else
        let ex = set_pid i (l_pid env) ex in
        if l_pid env > 0 then SetAlarm (l_now env) (l_time env) i ex else Some ex)"

definition ex_incr :: "ParamType \<Rightarrow> texecute \<Rightarrow> texecute" where
  "ex_incr pt ex = ex\<lparr>ex_status := Incr pt (ex_status ex)\<rparr>"

definition MarkToRun :: "zone \<Rightarrow> time_t \<Rightarrow> texecute \<Rightarrow> texecute" where
  "MarkToRun z t ex =
     (let lt = localtime_r z t;
          due = (\<lambda>s. fails s > 0 \<or>
             CheckTime ((tm_wday lt + 6) smod 7) (tm_mon lt) (tm_mday lt - 1) (tm_hour lt) (tm_min lt sdiv 10) s);
          st = Reset PTE_SECS (Reset PTE_RSECS (Reset PTE_TRSECS (ex_status ex)));
          st = fold (\<lambda>s st. Incr PTE_SECS (if due s then Incr PTE_TRSECS st else st)) (sections ex) st
      in ex\<lparr>sections := map (\<lambda>s. MarkRun (due s) s) (sections ex), ex_status := st, current := 0\<rparr>)"

subsection \<open>What launching keeps\<close>

lemma NextAlarm_frame:
  "NextAlarm now ex = Some ex' \<Longrightarrow> sections ex' = sections ex \<and> current ex' = current ex \<and>
     g_next_cycle ex' = g_next_cycle ex \<and> ex_status ex' = ex_status ex \<and> sent ex' = sent ex"
  by (auto simp: NextAlarm_def split: list.splits if_splits)

lemma InsertAlarm_frame:
  "InsertAlarm now al ex = Some ex' \<Longrightarrow> sections ex' = sections ex \<and> current ex' = current ex \<and>
     g_next_cycle ex' = g_next_cycle ex \<and> ex_status ex' = ex_status ex \<and> sent ex' = sent ex"
  by (auto simp: InsertAlarm_def dest: NextAlarm_frame split: list.splits if_splits)

lemma SetAlarm_frame:
  "SetAlarm now t i ex = Some ex' \<Longrightarrow> sections ex' = sections ex \<and> current ex' = current ex \<and>
     g_next_cycle ex' = g_next_cycle ex \<and> ex_status ex' = ex_status ex \<and> sent ex' = sent ex"
  by (auto simp: SetAlarm_def Let_def dest!: InsertAlarm_frame split: option.splits if_splits)

lemma Launch_frame:
  "Launch env i ex = Some ex' \<Longrightarrow> sections ex' = (sections ex)[i := (sections ex ! i)\<lparr>pid := l_pid env\<rparr>] \<and>
     current ex' = current ex \<and> g_next_cycle ex' = g_next_cycle ex \<and> ex_status ex' = ex_status ex \<and> sent ex' = sent ex"
  by (auto simp: Launch_def set_pid_def Let_def dest: SetAlarm_frame split: if_splits)

text \<open>Reviewing the sections from the current one on, until one is launched that is not parallel.\<close>

function RunSections :: "(nat \<Rightarrow> launch_env) \<Rightarrow> texecute \<Rightarrow> texecute option" where
  "RunSections env ex =
     (if current ex < length (sections ex) then
        (if \<not> CheckRun (sections ex ! current ex) then RunSections env (ex\<lparr>current := Suc (current ex)\<rparr>)
         else case Launch (env (current ex)) (current ex) (ex_incr PTE_RSECS ex) of
             None \<Rightarrow> None
           | Some ex' \<Rightarrow>
               if \<not> is_parallel (sections ex' ! current ex') then Some ex'
               else RunSections env (ex'\<lparr>current := Suc (current ex')\<rparr>))
      else Some ex)"
  by pat_completeness auto
termination
proof (relation "measure (\<lambda>(env, ex). length (sections ex) - current ex)")
  fix env :: "nat \<Rightarrow> launch_env" and ex ex' :: texecute
  assume "current ex < length (sections ex)" "Launch (env (current ex)) (current ex) (ex_incr PTE_RSECS ex) = Some ex'"
  then show "((env, ex'\<lparr>current := Suc (current ex')\<rparr>), env, ex) \<in> measure (\<lambda>(env, ex). length (sections ex) - current ex)"
    by (auto dest!: Launch_frame simp: ex_incr_def)
qed auto

declare RunSections.simps [simp del]

subsection \<open>Signal handlers\<close>

datatype wait_status = Exited int | Signaled int | Stopped int | Other_status

record child =
  c_pid :: int
  c_status :: wait_status
  c_env :: "nat \<Rightarrow> launch_env"

fun find_section :: "int \<Rightarrow> exec_section list \<Rightarrow> nat option" where
  "find_section p [] = None"
| "find_section p (s # ss) = (if pid s = p then Some 0 else map_option Suc (find_section p ss))"

definition rem_alarms :: "nat \<Rightarrow> alarm list \<Rightarrow> alarm list" where
  "rem_alarms e as = map (\<lambda>a. if a_section a = Some e \<and> \<not> isset a then a\<lparr>a_type := ALRM_REM\<rparr> else a) as"

fun exit_param :: "wait_status \<Rightarrow> ParamType" where
  "exit_param (Exited c) = (if c = 0 then PTE_OKSECS else PTE_ERRSECS)"
| "exit_param (Signaled _) = PTE_INTSECS"
| "exit_param (Stopped _) = PTE_ERRSECS"
| "exit_param Other_status = PTE_ERRSECS"

definition child_exit :: "child \<Rightarrow> texecute \<Rightarrow> texecute option" where
  "child_exit ch ex =
     (case find_section (c_pid ch) (sections ex) of
        None \<Rightarrow> None
      | Some e \<Rightarrow>
          let ex = ex\<lparr>alarms := rem_alarms e (alarms ex)\<rparr>;
              ex = ex_incr (exit_param (c_status ch)) ex in
          (case ClearPid (sections ex ! e) of
             None \<Rightarrow> None
           | Some s \<Rightarrow>
               let s = (if c_status ch \<noteq> Exited 0 then CheckRetry s else s);
                   ex = ex\<lparr>sections := (sections ex)[e := s]\<rparr> in
               if current ex = e then RunSections (c_env ch) (ex\<lparr>current := Suc (current ex)\<rparr>)
               else Some ex))"

fun SigChldHandler :: "child list \<Rightarrow> texecute \<Rightarrow> texecute option" where
  "SigChldHandler [] ex = Some ex"
| "SigChldHandler (ch # cs) ex =
     (case child_exit ch ex of None \<Rightarrow> None | Some ex \<Rightarrow> SigChldHandler cs ex)"

definition kill_section :: "exec_signal \<Rightarrow> nat option \<Rightarrow> texecute \<Rightarrow> texecute option" where
  "kill_section sg so ex =
     (case so of
        None \<Rightarrow> None
      | Some i \<Rightarrow> Some (if pid (sections ex ! i) > 0
          then ex\<lparr>sent := sent ex @ [(pid (sections ex ! i), sg)]\<rparr> else ex))"

definition SigAlrmHandler :: "time_t \<Rightarrow> texecute \<Rightarrow> texecute option" where
  "SigAlrmHandler now ex =
     (case alarms ex of
        [] \<Rightarrow> None
      | a # as \<Rightarrow>
          if \<not> isset a then None
          else case (case a_type a of
               ALRM_NEWCL \<Rightarrow> Some (ex\<lparr>g_next_cycle := True\<rparr>)
             | ALRM_STRM \<Rightarrow> kill_section SIGTERM (a_section a) ex
             | ALRM_SKILL \<Rightarrow> kill_section SIGKILL (a_section a) ex
             | ALRM_REM \<Rightarrow> Some ex) of
            None \<Rightarrow> None
          | Some ex \<Rightarrow>
              let ex = ex\<lparr>alarms := as\<rparr> in
              if a_type a \<noteq> ALRM_NEWCL then NextAlarm now ex else Some ex)"

definition set_cycle_alarm :: "time_t \<Rightarrow> time_t \<Rightarrow> texecute \<Rightarrow> texecute option" where
  "set_cycle_alarm t now ex =
     (case InsertAlarm now (NewCycleAlarm t) ex of None \<Rightarrow> None | Some ex \<Rightarrow> NextAlarm now ex)"

definition GetReady :: "time_t \<Rightarrow> time_t \<Rightarrow> texecute \<Rightarrow> texecute option" where
  "GetReady t now ex =
     (let ex = ex\<lparr>g_next_cycle := False\<rparr> in
      if alarms ex \<noteq> [] then None else set_cycle_alarm t now ex)"

text \<open>The end of \<open>WaitForCycle\<close>, when the handler has set the flag it waits for.\<close>

definition Exec_WaitForCycle :: "time_t \<Rightarrow> time_t \<Rightarrow> texecute \<Rightarrow> texecute option" where
  "Exec_WaitForCycle t now ex = set_cycle_alarm t now (ex\<lparr>g_next_cycle := False\<rparr>)"

definition TExecute :: "exec_section list \<Rightarrow> tstatus \<Rightarrow> texecute" where
  "TExecute ss st = \<lparr>sections = ss, current = length ss, alarms = [], g_next_cycle = False,
     ex_status = st, timer = None, sent = []\<rparr>"

subsection \<open>Invariant\<close>

definition section_ok :: "exec_section \<Rightarrow> bool" where
  "section_ok s \<longleftrightarrow> 0 \<le> limit s \<and> 0 \<le> fails s \<and> fails s \<le> max 0 (retry s)"

abbreviation by_time :: "alarm list \<Rightarrow> bool" where
  "by_time \<equiv> sorted_wrt (\<lambda>a b. exptime a \<le> exptime b)"

definition alarm_ok :: "nat \<Rightarrow> alarm \<Rightarrow> bool" where
  "alarm_ok n a \<longleftrightarrow> (a_type a \<in> {ALRM_STRM, ALRM_SKILL} \<longrightarrow> (\<exists>i<n. a_section a = Some i)) \<and>
     (a_type a = ALRM_NEWCL \<longrightarrow> a_section a = None)"

definition alarms_ok :: "nat \<Rightarrow> alarm list \<Rightarrow> bool" where
  "alarms_ok n as \<longleftrightarrow> by_time as \<and> (\<forall>a \<in> set as. alarm_ok n a)"

definition cycles :: "alarm list \<Rightarrow> nat" where
  "cycles as = length (filter (\<lambda>a. a_type a = ALRM_NEWCL) as)"

abbreviation unset :: "alarm list \<Rightarrow> bool" where
  "unset as \<equiv> (\<forall>a \<in> set as. \<not> isset a)"

definition armed :: "alarm list \<Rightarrow> bool" where
  "armed as \<longleftrightarrow> as \<noteq> [] \<and> isset (hd as) \<and> unset (tl as)"

text \<open>While the flag of a new cycle is down the first alarm, and only the first, is set, and there
  is exactly one alarm for the next cycle; while the flag is up no alarm is set and there is none
  for a cycle.\<close>

definition ex_inv :: "texecute \<Rightarrow> bool" where
  "ex_inv ex \<longleftrightarrow> alarms_ok (length (sections ex)) (alarms ex) \<and> (\<forall>s \<in> set (sections ex). section_ok s) \<and>
     (if g_next_cycle ex then unset (alarms ex) \<and> cycles (alarms ex) = 0
      else armed (alarms ex) \<and> cycles (alarms ex) = 1)"

text \<open>The number of alarms before the one for the next cycle.\<close>

definition before :: "alarm list \<Rightarrow> nat" where
  "before as = length (takeWhile (\<lambda>a. a_type a \<noteq> ALRM_NEWCL) as)"

lemma cycles_simps [simp]: "cycles [] = 0" "cycles (a # as) = (if a_type a = ALRM_NEWCL then 1 else 0) + cycles as"
  by (simp_all add: cycles_def)

lemma before_simps [simp]: "before [] = 0" "before (a # as) = (if a_type a = ALRM_NEWCL then 0 else Suc (before as))"
  by (simp_all add: before_def)

lemma armed_simps [simp]: "armed (a # as) \<longleftrightarrow> isset a \<and> unset as" "\<not> armed []"
  by (simp_all add: armed_def)

lemma alarms_ok_simps [simp]: "alarms_ok n []"
  "alarms_ok n (a # as) \<longleftrightarrow> alarm_ok n a \<and> (\<forall>b \<in> set as. exptime a \<le> exptime b) \<and> alarms_ok n as"
  by (auto simp: alarms_ok_def)

lemma alarm_ok_isset [simp]: "alarm_ok n (a\<lparr>isset := b\<rparr>) = alarm_ok n a"
  by (simp add: alarm_ok_def)

lemma set_insert_alarm [simp]: "set (insert_alarm al as) = insert al (set as)"
  by (induction as) auto

lemma insert_alarm_ok: "alarms_ok n as \<Longrightarrow> alarm_ok n al \<Longrightarrow> alarms_ok n (insert_alarm al as)"
  by (induction as) auto

lemma insert_alarm_cycles [simp]: "cycles (insert_alarm al as) = (if a_type al = ALRM_NEWCL then 1 else 0) + cycles as"
  by (induction as) auto

lemma insert_alarm_before: "a_type al \<noteq> ALRM_NEWCL \<Longrightarrow> before (insert_alarm al as) \<le> Suc (before as)"
  by (induction as) auto

text \<open>Skipping the removed alarms.\<close>

lemma drop_removed:
  assumes "cycles as = 1"
  obtains a as' where "dropWhile (\<lambda>a. a_type a = ALRM_REM) as = a # as'" "a \<in> set as" "set as' \<subseteq> set as"
    "cycles (a # as') = 1" "before (a # as') \<le> before as" "alarms_ok n as \<longrightarrow> alarms_ok n (a # as')"
  using assms
proof (induction as arbitrary: thesis)
  case (Cons x as)
  show ?case
  proof (cases "a_type x = ALRM_REM")
    case True
    then have "cycles as = 1" using Cons.prems(2) by simp
    then obtain a as' where a: "dropWhile (\<lambda>a. a_type a = ALRM_REM) as = a # as'" "a \<in> set as" "set as' \<subseteq> set as"
      "cycles (a # as') = 1" "before (a # as') \<le> before as" "alarms_ok n as \<longrightarrow> alarms_ok n (a # as')"
      using Cons.IH by blast
    then show ?thesis using True by (intro Cons.prems(1) [of a as']) auto
  next
    case False
    then show ?thesis using Cons.prems by (intro Cons.prems(1) [of x as]) auto
  qed
qed simp

lemma NextAlarm_unset:
  assumes "alarms_ok n (alarms ex)" "unset (alarms ex)" "cycles (alarms ex) = 1"
  shows "\<exists>ex'. NextAlarm now ex = Some ex' \<and> alarms_ok n (alarms ex') \<and> armed (alarms ex') \<and>
    cycles (alarms ex') = 1 \<and> before (alarms ex') \<le> before (alarms ex)"
proof -
  obtain a as' where a: "dropWhile (\<lambda>a. a_type a = ALRM_REM) (alarms ex) = a # as'" "a \<in> set (alarms ex)" "set as' \<subseteq> set (alarms ex)"
      "cycles (a # as') = 1" "before (a # as') \<le> before (alarms ex)" "alarms_ok n (a # as')"
    using drop_removed [OF assms(3), of n] assms(1) by blast
  then show ?thesis using assms(2) by (auto simp: NextAlarm_def)
qed

lemma InsertAlarm_unset:
  assumes "unset (alarms ex)"
  shows "InsertAlarm now al ex = Some (ex\<lparr>alarms := insert_alarm al (alarms ex)\<rparr>)"
  using assms by (cases "alarms ex") (auto simp: InsertAlarm_def)

lemma InsertAlarm_armed:
  assumes "alarms_ok n (alarms ex)" "armed (alarms ex)" "\<not> isset al" "a_type al \<noteq> ALRM_REM" "a_type al \<noteq> ALRM_NEWCL" "alarm_ok n al"
  shows "\<exists>ex'. InsertAlarm now al ex = Some ex' \<and> alarms_ok n (alarms ex') \<and> armed (alarms ex') \<and>
    cycles (alarms ex') = cycles (alarms ex) \<and> before (alarms ex') \<le> Suc (before (alarms ex))"
proof (cases "alarms ex")
  case (Cons h as)
  show ?thesis
  proof (cases "exptime al < exptime h")
    case True
    then show ?thesis using Cons assms
      by (auto simp: InsertAlarm_def NextAlarm_def intro: order_less_imp_le order.trans [OF order_less_imp_le])
  next
    case False
    then show ?thesis using Cons assms insert_alarm_ok [of n as al] insert_alarm_before [of al as]
      by (auto simp: InsertAlarm_def)
  qed
qed (use assms in simp)

text \<open>One alarm more, in either state of the flag.\<close>

definition ex_core :: "texecute \<Rightarrow> bool" where
  "ex_core ex \<longleftrightarrow> alarms_ok (length (sections ex)) (alarms ex) \<and>
     (if g_next_cycle ex then unset (alarms ex) \<and> cycles (alarms ex) = 0
      else armed (alarms ex) \<and> cycles (alarms ex) = 1)"

lemma ex_inv_core: "ex_inv ex \<longleftrightarrow> ex_core ex \<and> (\<forall>s \<in> set (sections ex). section_ok s)"
  by (auto simp: ex_inv_def ex_core_def)

lemma InsertAlarm_core:
  assumes "ex_core ex" "\<not> isset al" "a_type al \<in> {ALRM_STRM, ALRM_SKILL}" "alarm_ok (length (sections ex)) al"
  shows "\<exists>ex'. InsertAlarm now al ex = Some ex' \<and> ex_core ex' \<and> before (alarms ex') \<le> Suc (before (alarms ex))"
proof (cases "g_next_cycle ex")
  case True
  then show ?thesis
    using assms InsertAlarm_unset [of ex now al] insert_alarm_ok [of _ "alarms ex" al] insert_alarm_before [of al "alarms ex"]
    by (auto simp: ex_core_def)
next
  case False
  obtain ex' where "InsertAlarm now al ex = Some ex'" "alarms_ok (length (sections ex)) (alarms ex')" "armed (alarms ex')"
    "cycles (alarms ex') = cycles (alarms ex)" "before (alarms ex') \<le> Suc (before (alarms ex))"
    using InsertAlarm_armed [of "length (sections ex)" ex al now] assms False by (auto simp: ex_core_def)
  moreover from InsertAlarm_frame [OF this(1)] have "sections ex' = sections ex" "g_next_cycle ex' = g_next_cycle ex" by simp_all
  ultimately show ?thesis using assms(1) False by (auto simp: ex_core_def)
qed

lemma SetAlarm_core:
  assumes "ex_core ex" "i < length (sections ex)" "0 \<le> limit (sections ex ! i)"
  shows "\<exists>ex'. SetAlarm now t i ex = Some ex' \<and> ex_core ex' \<and> before (alarms ex') \<le> before (alarms ex) + 2"
proof (cases "limit (sections ex ! i) = 0")
  case False
  let ?t = "t - t smod 600 + limit (sections ex ! i)"
  obtain ex1 where 1: "InsertAlarm now (NewTermAlarm (?t - 1) i) ex = Some ex1" "ex_core ex1"
    "before (alarms ex1) \<le> Suc (before (alarms ex))"
    using InsertAlarm_core [OF assms(1), of "NewTermAlarm (?t - 1) i" now] assms(2) by (auto simp: NewTermAlarm_def alarm_ok_def)
  then have "sections ex1 = sections ex" using InsertAlarm_frame by blast
  then obtain ex2 where 2: "InsertAlarm now (NewKillAlarm ?t i) ex1 = Some ex2" "ex_core ex2"
    "before (alarms ex2) \<le> Suc (before (alarms ex1))"
    using InsertAlarm_core [OF 1(2), of "NewKillAlarm ?t i" now] assms(2) by (auto simp: NewKillAlarm_def alarm_ok_def)
  then show ?thesis using 1 False assms(3) by (auto simp: SetAlarm_def Let_def)
qed (use assms in \<open>simp add: SetAlarm_def\<close>)

lemma Launch_inv:
  assumes "ex_inv ex" "i < length (sections ex)" "pid (sections ex ! i) = 0"
  shows "\<exists>ex'. Launch env i ex = Some ex' \<and> ex_inv ex' \<and> before (alarms ex') \<le> before (alarms ex) + 2"
proof -
  let ?ex = "set_pid i (l_pid env) ex"
  have sok: "section_ok (sections ex ! i)" using assms(1,2) by (simp add: ex_inv_def)
  have core: "ex_core ?ex" using assms(1) by (simp add: ex_inv_core set_pid_def ex_core_def)
  have secs: "\<forall>s \<in> set (sections ?ex). section_ok s"
    using assms(1) sok set_update_subset_insert [of "sections ex" i "(sections ex ! i)\<lparr>pid := l_pid env\<rparr>"]
    by (auto simp: set_pid_def ex_inv_def section_ok_def)
  have "0 \<le> limit (sections ?ex ! i)" "i < length (sections ?ex)"
    using sok assms(2) by (simp_all add: set_pid_def section_ok_def)
  then obtain ex' where s: "SetAlarm (l_now env) (l_time env) i ?ex = Some ex'" "ex_core ex'" "before (alarms ex') \<le> before (alarms ?ex) + 2"
    using SetAlarm_core [OF core] by blast
  have same: "alarms ?ex = alarms ex" by (simp add: set_pid_def)
  have "sections ex' = sections ?ex" using SetAlarm_frame [OF s(1)] by blast
  then show ?thesis using s core secs assms(3) same by (auto simp: Launch_def Let_def ex_inv_core)
qed

subsection \<open>Running sections\<close>

definition potential :: "texecute \<Rightarrow> nat" where
  "potential ex = before (alarms ex) + 2 * (length (sections ex) - current ex)"

lemma ex_inv_irrelevant [simp]:
  "ex_inv (ex\<lparr>current := c\<rparr>) = ex_inv ex" "ex_inv (ex_incr pt ex) = ex_inv ex"
  by (simp_all add: ex_inv_def ex_incr_def)

lemma ex_incr_simps [simp]:
  "sections (ex_incr pt ex) = sections ex" "alarms (ex_incr pt ex) = alarms ex" "current (ex_incr pt ex) = current ex"
  "g_next_cycle (ex_incr pt ex) = g_next_cycle ex"
  by (simp_all add: ex_incr_def)

lemma RunSections_inv:
  assumes "ex_inv ex"
  shows "\<exists>ex'. RunSections env ex = Some ex' \<and> ex_inv ex' \<and> length (sections ex') = length (sections ex) \<and>
    g_next_cycle ex' = g_next_cycle ex \<and> potential ex' \<le> potential ex + 2"
  using assms
proof (induction env ex rule: RunSections.induct)
  case (1 env ex)
  let ?i = "current ex"
  consider (fin) "\<not> ?i < length (sections ex)" | (skip) "?i < length (sections ex)" "\<not> CheckRun (sections ex ! ?i)"
    | (run) "?i < length (sections ex)" "CheckRun (sections ex ! ?i)" by blast
  then show ?case
  proof cases
    case fin
    then show ?thesis using "1.prems" by (simp add: RunSections.simps [of env ex])
  next
    case skip
    have "potential (ex\<lparr>current := Suc ?i\<rparr>) \<le> potential ex" by (simp add: potential_def)
    then show ?thesis using "1.IH"(1) [OF skip] "1.prems" skip by (fastforce simp: RunSections.simps [of env ex])
  next
    case run
    then obtain ex1 where l: "Launch (env ?i) ?i (ex_incr PTE_RSECS ex) = Some ex1" "ex_inv ex1"
      "before (alarms ex1) \<le> before (alarms ex) + 2"
      using Launch_inv [of "ex_incr PTE_RSECS ex" ?i "env ?i"] "1.prems" by (auto simp: CheckRun_def)
    have f: "length (sections ex1) = length (sections ex)" "current ex1 = ?i" "g_next_cycle ex1 = g_next_cycle ex"
      using Launch_frame [OF l(1)] by simp_all
    show ?thesis
    proof (cases "is_parallel (sections ex1 ! current ex1)")
      case False
      then show ?thesis using run l f by (simp add: RunSections.simps [of env ex] potential_def)
    next
      case True
      have "potential (ex1\<lparr>current := Suc (current ex1)\<rparr>) \<le> potential ex"
        using l(3) f run(1) by (simp add: potential_def)
      then show ?thesis using "1.IH"(2) [of ex1] l f run True by (fastforce simp: RunSections.simps [of env ex])
    qed
  qed
qed

text \<open>Which sections a review launches.\<close>

definition stops :: "exec_section \<Rightarrow> bool" where
  "stops s \<longleftrightarrow> CheckRun s \<and> \<not> is_parallel s"

definition stop_index :: "texecute \<Rightarrow> nat" where
  "stop_index ex = current ex + length (takeWhile (\<lambda>s. \<not> stops s) (drop (current ex) (sections ex)))"

definition launched :: "texecute \<Rightarrow> nat \<Rightarrow> bool" where
  "launched ex i \<longleftrightarrow> current ex \<le> i \<and> i \<le> stop_index ex \<and> i < length (sections ex) \<and> CheckRun (sections ex ! i)"

lemma stop_index_step:
  assumes "current ex < length (sections ex)"
  shows "stop_index ex = (if stops (sections ex ! current ex) then current ex
    else stop_index (ex\<lparr>current := Suc (current ex)\<rparr>))"
  using Cons_nth_drop_Suc [OF assms, symmetric] by (simp add: stop_index_def)

lemma stop_index_sections:
  assumes "current ex1 = current ex" "length (sections ex1) = length (sections ex)"
    and "\<And>j. current ex \<le> j \<Longrightarrow> j < length (sections ex) \<Longrightarrow> sections ex1 ! j = sections ex ! j"
  shows "stop_index ex1 = stop_index ex" and "launched ex1 i = launched ex i"
proof -
  have "drop (current ex1) (sections ex1) = drop (current ex) (sections ex)"
    using assms by (intro nth_equalityI) auto
  then show "stop_index ex1 = stop_index ex" using assms(1) by (simp add: stop_index_def)
  then show "launched ex1 i = launched ex i" using assms by (auto simp: launched_def)
qed

lemma launched_step:
  assumes "current ex < length (sections ex)" "\<not> stops (sections ex ! current ex)"
  shows "launched ex i \<longleftrightarrow> i = current ex \<and> CheckRun (sections ex ! current ex) \<or> launched (ex\<lparr>current := Suc (current ex)\<rparr>) i"
proof -
  have "current ex \<le> stop_index (ex\<lparr>current := Suc (current ex)\<rparr>)" by (simp add: stop_index_def)
  then show ?thesis using assms stop_index_step [OF assms(1)] by (auto simp: launched_def Suc_le_eq order_le_less)
qed

lemma RunSections_launches:
  assumes "RunSections env ex = Some ex'"
  shows "(current ex \<le> length (sections ex) \<longrightarrow> current ex' = stop_index ex) \<and> length (sections ex') = length (sections ex) \<and>
    (\<forall>i < length (sections ex). sections ex' ! i =
      (if launched ex i then (sections ex ! i)\<lparr>pid := l_pid (env i)\<rparr> else sections ex ! i))"
  using assms
proof (induction env ex rule: RunSections.induct)
  case (1 env ex)
  let ?i = "current ex"
  consider (fin) "\<not> ?i < length (sections ex)" | (skip) "?i < length (sections ex)" "\<not> CheckRun (sections ex ! ?i)"
    | (run) "?i < length (sections ex)" "CheckRun (sections ex ! ?i)" by blast
  then show ?case
  proof cases
    case fin
    then show ?thesis using "1.prems" by (auto simp: RunSections.simps [of env ex] launched_def stop_index_def)
  next
    case skip
    then have ns: "\<not> stops (sections ex ! ?i)" by (simp add: stops_def)
    have "RunSections env (ex\<lparr>current := Suc ?i\<rparr>) = Some ex'"
      using "1.prems" skip by (simp add: RunSections.simps [of env ex])
    from "1.IH"(1) [OF skip this] skip(1) show ?thesis
      using stop_index_step [OF skip(1)] launched_step [OF skip(1) ns] ns skip(2) by simp
  next
    case run
    then obtain ex1 where l: "Launch (env ?i) ?i (ex_incr PTE_RSECS ex) = Some ex1"
      and r: "(if \<not> is_parallel (sections ex1 ! current ex1) then Some ex1
        else RunSections env (ex1\<lparr>current := Suc (current ex1)\<rparr>)) = Some ex'"
      using "1.prems" by (auto simp: RunSections.simps [of env ex] split: option.splits)
    have f: "sections ex1 = (sections ex)[?i := (sections ex ! ?i)\<lparr>pid := l_pid (env ?i)\<rparr>]" "current ex1 = ?i"
      using Launch_frame [OF l] by simp_all
    show ?thesis
    proof (cases "is_parallel (sections ex ! ?i)")
      case False
      then have "ex' = ex1" using r f run(1) by simp
      moreover have "stop_index ex = ?i" using False run stop_index_step [OF run(1)] by (simp add: stops_def)
      ultimately show ?thesis using f run by (auto simp: launched_def nth_list_update)
    next
      case True
      then have ns: "\<not> stops (sections ex ! ?i)" by (simp add: stops_def)
      let ?n = "ex\<lparr>current := Suc ?i\<rparr>" and ?n1 = "ex1\<lparr>current := Suc (current ex1)\<rparr>"
      have r1: "RunSections env ?n1 = Some ex'" using r f run(1) True by (auto split: if_splits)
      have same: "stop_index ?n1 = stop_index ?n" "launched ?n1 i = launched ?n i" for i
        using stop_index_sections [of ?n1 ?n] f by auto
      have "is_parallel (sections ex1 ! current ex1)" using f run(1) True by simp
      then have "\<not> \<not> is_parallel (sections ex1 ! current ex1)" by simp
      from "1.IH"(2) [OF run(1) _ l this r1] run(2)
      have ih: "current ex' = stop_index ?n" "length (sections ex') = length (sections ex)"
        "\<forall>j < length (sections ex). sections ex' ! j = (if launched ?n j then (sections ex1 ! j)\<lparr>pid := l_pid (env j)\<rparr> else sections ex1 ! j)"
        using same f run(1) by simp_all
      have "\<not> launched ?n ?i" by (simp add: launched_def)
      then show ?thesis
        using ih stop_index_step [OF run(1)] launched_step [OF run(1) ns] ns run f by (auto simp: nth_list_update)
    qed
  qed
qed

end
