(* ===== verification/Exec_Run.thy ===== *)
theory Exec_Run
  imports Exec
begin

text \<open>
  The executor at work: the main loop of \<open>meaner3.cc\<close>, which waits for a cycle and reviews the
  sections, interrupted by \<open>SIGALRM\<close> and \<open>SIGCHLD\<close> between its steps. The handlers block all
  signals, so a handler is one step. The review of the main loop is split where signals are
  delivered: after the check of a section and after its launch. The marking of the sections and the
  setting of the cycle alarm are one step each.
\<close>

subsection \<open>Steps\<close>

datatype pc = Waiting | Scanning | Skipping | Returned

datatype event = Alarm time_t | Children "child list" | Cycle time_t time_t bool time_t
  | Scan launch_env | Advance

datatype outcome = Disabled | Failed | Next pc texecute

definition outcome_of :: "pc \<Rightarrow> texecute option \<Rightarrow> outcome" where
  "outcome_of p r = (case r of None \<Rightarrow> Failed | Some ex \<Rightarrow> Next p ex)"

text \<open>The timer runs when the first alarm is set.\<close>

definition timer_runs :: "texecute \<Rightarrow> bool" where
  "timer_runs ex \<longleftrightarrow> alarms ex \<noteq> [] \<and> isset (hd (alarms ex))"

text \<open>The end of an iteration of the main loop.\<close>

definition next_iteration :: "texecute \<Rightarrow> texecute" where
  "next_iteration ex = ex\<lparr>ex_status := NextCycle (ex_status ex)\<rparr>"

fun exec_step :: "zone \<Rightarrow> event \<Rightarrow> pc \<Rightarrow> texecute \<Rightarrow> outcome" where
  "exec_step z (Alarm now) p ex =
     (if timer_runs ex then outcome_of p (SigAlrmHandler now ex) else Disabled)"
| "exec_step z (Children cs) p ex =
     (if list_all (\<lambda>c. c_pid c > 0) cs then outcome_of p (SigChldHandler cs ex) else Disabled)"
| "exec_step z (Cycle t now go tmark) Waiting ex =
     (if g_next_cycle ex then
        (case Exec_WaitForCycle t now ex of None \<Rightarrow> Failed
         | Some ex \<Rightarrow> if go then Next Scanning (MarkToRun z tmark ex) else Next Waiting (next_iteration ex))
      else Disabled)"
| "exec_step z (Scan env) Scanning ex =
     (if current ex < length (sections ex) then
        (if CheckRun (sections ex ! current ex)
         then outcome_of Returned (Launch env (current ex) (ex_incr PTE_RSECS ex))
         else Next Skipping ex)
      else Next Waiting (next_iteration ex))"
| "exec_step z Advance Skipping ex =
     (if current ex < length (sections ex) then Next Scanning (ex\<lparr>current := Suc (current ex)\<rparr>) else Failed)"
| "exec_step z Advance Returned ex =
     (if current ex \<ge> length (sections ex) \<or> \<not> is_parallel (sections ex ! current ex)
      then Next Waiting (next_iteration ex)
      else Next Scanning (ex\<lparr>current := Suc (current ex)\<rparr>))"
| "exec_step z _ _ ex = Disabled"

fun exec_run :: "zone \<Rightarrow> event list \<Rightarrow> pc \<Rightarrow> texecute \<Rightarrow> outcome" where
  "exec_run z [] p ex = Next p ex"
| "exec_run z (e # es) p ex = (case exec_step z e p ex of Next p' ex' \<Rightarrow> exec_run z es p' ex' | r \<Rightarrow> r)"

text \<open>The states of the program after start-up with the given sections, none of them running.\<close>

definition fresh :: "exec_section \<Rightarrow> bool" where
  "fresh s \<longleftrightarrow> section_ok s \<and> pid s = 0"

inductive exec_reachable :: "zone \<Rightarrow> exec_section list \<Rightarrow> pc \<Rightarrow> texecute \<Rightarrow> bool" for z ss where
  reach_init: "\<forall>s \<in> set ss. fresh s \<Longrightarrow> GetReady t now (TExecute ss st) = Some ex \<Longrightarrow>
     exec_reachable z ss Waiting (next_iteration ex)"
| reach_step: "exec_reachable z ss p ex \<Longrightarrow> exec_step z e p ex = Next p' ex' \<Longrightarrow> exec_reachable z ss p' ex'"

inductive_cases reachableE: "exec_reachable z ss p ex"

subsection \<open>The handlers keep the invariant\<close>

lemma ex_core_irrelevant [simp]: "ex_core (ex_incr pt ex) = ex_core ex" "ex_core (ex\<lparr>current := c\<rparr>) = ex_core ex"
  "ex_core (next_iteration ex) = ex_core ex"
  by (simp_all add: ex_core_def ex_incr_def next_iteration_def)

lemma ex_inv_next_iteration [simp]: "ex_inv (next_iteration ex) = ex_inv ex"
  by (simp add: ex_inv_def next_iteration_def)

lemma rem_alarms_keeps:
  assumes "alarms_ok n as"
  shows "alarms_ok n (rem_alarms e as)" "unset (rem_alarms e as) = unset as" "armed (rem_alarms e as) = armed as"
    "cycles (rem_alarms e as) = cycles as" "before (rem_alarms e as) = before as"
proof -
  have ty: "a_type (if a_section a = Some e \<and> \<not> isset a then a\<lparr>a_type := ALRM_REM\<rparr> else a) = ALRM_NEWCL \<longleftrightarrow> a_type a = ALRM_NEWCL"
    if "a \<in> set as" for a using that assms by (auto simp: alarms_ok_def alarm_ok_def)
  show "alarms_ok n (rem_alarms e as)"
    using assms by (induction as) (auto simp: rem_alarms_def alarm_ok_def)
  show "unset (rem_alarms e as) = unset as" by (auto simp: rem_alarms_def)
  show "armed (rem_alarms e as) = armed as" by (cases as) (auto simp: rem_alarms_def)
  show "cycles (rem_alarms e as) = cycles as" "before (rem_alarms e as) = before as"
    using assms by (induction as) (auto simp: rem_alarms_def alarm_ok_def)
qed

lemma section_ok_CheckRetry: "section_ok s \<Longrightarrow> section_ok (CheckRetry s)"
  by (auto simp: section_ok_def CheckRetry_def)

lemma find_section_Some:
  "find_section p ss = Some e \<Longrightarrow> e < length ss \<and> pid (ss ! e) = p"
  by (induction ss arbitrary: e) (auto split: if_splits)

lemma child_exit_inv:
  assumes "ex_inv ex" "find_section (c_pid ch) (sections ex) = Some e" "c_pid ch \<noteq> 0"
  shows "\<exists>ex'. child_exit ch ex = Some ex' \<and> ex_inv ex' \<and> length (sections ex') = length (sections ex) \<and>
    g_next_cycle ex' = g_next_cycle ex \<and> potential ex' \<le> potential ex"
proof -
  note e = find_section_Some [OF assms(2)]
  define s where "s = (if c_status ch \<noteq> Exited 0 then CheckRetry ((sections ex ! e)\<lparr>pid := 0\<rparr>) else (sections ex ! e)\<lparr>pid := 0\<rparr>)"
  define ex1 where "ex1 = (ex_incr (exit_param (c_status ch)) (ex\<lparr>alarms := rem_alarms e (alarms ex)\<rparr>))
    \<lparr>sections := (sections ex)[e := s]\<rparr>"
  have "section_ok (sections ex ! e)" using assms(1) e by (simp add: ex_inv_def)
  then have "section_ok ((sections ex ! e)\<lparr>pid := 0\<rparr>)" by (simp add: section_ok_def)
  then have "section_ok s" by (simp add: s_def section_ok_CheckRetry)
  then have inv: "ex_inv ex1"
    using assms(1) rem_alarms_keeps [of "length (sections ex)" "alarms ex" e] set_update_subset_insert [of "sections ex" e s]
    by (auto simp: ex_inv_def ex1_def)
  have pot: "potential ex1 = potential ex" "length (sections ex1) = length (sections ex)" "current ex1 = current ex"
    "g_next_cycle ex1 = g_next_cycle ex"
    using assms(1) rem_alarms_keeps(5) [of "length (sections ex)" "alarms ex" e] by (simp_all add: potential_def ex1_def ex_inv_def)
  have eq: "child_exit ch ex = (if current ex = e then RunSections (c_env ch) (ex1\<lparr>current := Suc (current ex)\<rparr>) else Some ex1)"
    using assms e by (simp add: child_exit_def ClearPid_def Let_def ex1_def s_def)
  show ?thesis
  proof (cases "current ex = e")
    case False
    then show ?thesis using eq inv pot by simp
  next
    case True
    have "potential (ex1\<lparr>current := Suc (current ex)\<rparr>) + 2 \<le> potential ex"
    proof -
      have "2 * (length (sections ex) - Suc e) + 2 \<le> 2 * (length (sections ex) - e)" using e by linarith
      moreover have "before (alarms ex1) = before (alarms ex)"
        using rem_alarms_keeps(5) [of "length (sections ex)" "alarms ex" e] assms(1) by (simp add: ex1_def ex_inv_def)
      ultimately show ?thesis using True pot by (simp add: potential_def)
    qed
    moreover obtain ex' where "RunSections (c_env ch) (ex1\<lparr>current := Suc (current ex)\<rparr>) = Some ex'" "ex_inv ex'"
      "length (sections ex') = length (sections ex)" "g_next_cycle ex' = g_next_cycle ex"
      "potential ex' \<le> potential (ex1\<lparr>current := Suc (current ex)\<rparr>) + 2"
      using RunSections_inv [of "ex1\<lparr>current := Suc (current ex)\<rparr>" "c_env ch"] inv pot by auto
    ultimately show ?thesis using eq True by auto
  qed
qed

lemma SigChldHandler_inv:
  assumes "ex_inv ex" "SigChldHandler cs ex = Some ex'" "list_all (\<lambda>c. c_pid c > 0) cs"
  shows "ex_inv ex' \<and> length (sections ex') = length (sections ex) \<and> g_next_cycle ex' = g_next_cycle ex \<and>
    potential ex' \<le> potential ex"
  using assms
proof (induction cs arbitrary: ex)
  case (Cons ch cs)
  obtain ex1 where c: "child_exit ch ex = Some ex1" "SigChldHandler cs ex1 = Some ex'"
    using Cons.prems(2) by (auto split: option.splits)
  obtain e where "find_section (c_pid ch) (sections ex) = Some e" using c(1) by (auto simp: child_exit_def split: option.splits)
  then have "ex_inv ex1 \<and> length (sections ex1) = length (sections ex) \<and> g_next_cycle ex1 = g_next_cycle ex \<and> potential ex1 \<le> potential ex"
    using child_exit_inv [OF Cons.prems(1)] c(1) Cons.prems(3) by fastforce
  then show ?case using Cons.IH [OF _ c(2)] Cons.prems(3) by fastforce
qed simp

lemma SigAlrmHandler_inv:
  assumes "ex_inv ex" "timer_runs ex"
  shows "\<exists>ex'. SigAlrmHandler now ex = Some ex' \<and> ex_inv ex' \<and> sections ex' = sections ex \<and> current ex' = current ex \<and>
    (g_next_cycle ex' \<or> Suc (potential ex') \<le> potential ex)"
proof -
  obtain a as where as: "alarms ex = a # as" "isset a" using assms(2) by (cases "alarms ex") (auto simp: timer_runs_def)
  then have flag: "\<not> g_next_cycle ex" using assms(1) by (auto simp: ex_inv_def)
  have core: "alarms_ok (length (sections ex)) (a # as)" "unset as" "cycles (a # as) = 1"
    using assms(1) as flag by (auto simp: ex_inv_def)
  show ?thesis
  proof (cases "a_type a = ALRM_NEWCL")
    case True
    then show ?thesis using as core assms(1) by (auto simp: SigAlrmHandler_def ex_inv_def)
  next
    case False
    obtain ex1 where k: "(case a_type a of ALRM_NEWCL \<Rightarrow> Some (ex\<lparr>g_next_cycle := True\<rparr>)
        | ALRM_STRM \<Rightarrow> kill_section SIGTERM (a_section a) ex | ALRM_SKILL \<Rightarrow> kill_section SIGKILL (a_section a) ex
        | ALRM_REM \<Rightarrow> Some ex) = Some ex1" "sections ex1 = sections ex" "current ex1 = current ex" "g_next_cycle ex1 = g_next_cycle ex"
      using False core(1) by (cases "a_type a") (auto simp: alarm_ok_def kill_section_def)
    obtain ex2 where n: "NextAlarm now (ex1\<lparr>alarms := as\<rparr>) = Some ex2" "alarms_ok (length (sections ex)) (alarms ex2)"
      "armed (alarms ex2)" "cycles (alarms ex2) = 1" "before (alarms ex2) \<le> before as"
      using NextAlarm_unset [of "length (sections ex)" "ex1\<lparr>alarms := as\<rparr>" now] core False by auto
    note f = NextAlarm_frame [OF n(1)]
    have "SigAlrmHandler now ex = Some ex2" using as k(1) n(1) False by (simp add: SigAlrmHandler_def Let_def)
    moreover have "ex_inv ex2" using n f k assms(1) flag by (auto simp: ex_inv_def)
    moreover have "Suc (potential ex2) \<le> potential ex" using n(5) f k as False by (simp add: potential_def)
    ultimately show ?thesis using f k by auto
  qed
qed

lemma set_cycle_alarm_inv:
  assumes "alarms_ok (length (sections ex)) (alarms ex)" "unset (alarms ex)" "cycles (alarms ex) = 0" "\<not> g_next_cycle ex"
    "\<forall>s \<in> set (sections ex). section_ok s"
  shows "\<exists>ex'. set_cycle_alarm t now ex = Some ex' \<and> ex_inv ex' \<and> sections ex' = sections ex \<and> \<not> g_next_cycle ex'"
proof -
  let ?ex = "ex\<lparr>alarms := insert_alarm (NewCycleAlarm t) (alarms ex)\<rparr>"
  have i: "InsertAlarm now (NewCycleAlarm t) ex = Some ?ex" using InsertAlarm_unset [OF assms(2)] .
  have "alarms_ok (length (sections ex)) (alarms ?ex)"
    using insert_alarm_ok [OF assms(1), of "NewCycleAlarm t"] by (simp add: alarm_ok_def NewCycleAlarm_def)
  moreover have "unset (alarms ?ex)" "cycles (alarms ?ex) = 1" using assms(2,3) by (simp_all add: NewCycleAlarm_def)
  ultimately obtain ex' where n: "NextAlarm now ?ex = Some ex'" "alarms_ok (length (sections ex)) (alarms ex')" "armed (alarms ex')"
    "cycles (alarms ex') = 1"
    using NextAlarm_unset by blast
  then show ?thesis using i NextAlarm_frame [OF n(1)] assms(4,5) by (auto simp: set_cycle_alarm_def ex_inv_def)
qed

lemma Exec_WaitForCycle_inv:
  assumes "ex_inv ex" "g_next_cycle ex"
  shows "\<exists>ex'. Exec_WaitForCycle t now ex = Some ex' \<and> ex_inv ex' \<and> sections ex' = sections ex \<and> \<not> g_next_cycle ex'"
  using set_cycle_alarm_inv [of "ex\<lparr>g_next_cycle := False\<rparr>" t now] assms by (auto simp: Exec_WaitForCycle_def ex_inv_def)

lemma MarkToRun_inv: "ex_inv ex \<Longrightarrow> ex_inv (MarkToRun z t ex)"
  by (auto simp: MarkToRun_def Let_def ex_inv_def section_ok_def MarkRun_def)

subsection \<open>Reachable states\<close>

text \<open>The potential of a configuration: it bounds the alarms that can come before the next cycle.\<close>

definition alarm_bound :: "pc \<Rightarrow> texecute \<Rightarrow> nat" where
  "alarm_bound p ex = potential ex + (if p = Scanning \<or> p = Skipping then 2 else 0)"

fun is_alarm :: "event \<Rightarrow> bool" where
  "is_alarm (Alarm _) = True"
| "is_alarm _ = False"

lemma advance_bound:
  "current ex < length (sections ex) \<Longrightarrow> Suc (Suc (potential (ex\<lparr>current := Suc (current ex)\<rparr>))) \<le> potential ex"
  by (simp add: potential_def)

lemma next_iteration_simps [simp]: "g_next_cycle (next_iteration ex) = g_next_cycle ex" "potential (next_iteration ex) = potential ex"
  "sections (next_iteration ex) = sections ex" "alarms (next_iteration ex) = alarms ex" "current (next_iteration ex) = current ex"
  by (simp_all add: next_iteration_def potential_def)

lemma outcome_of_Next: "outcome_of p r = Next p' ex \<longleftrightarrow> p' = p \<and> r = Some ex"
  "Next p' ex = outcome_of p r \<longleftrightarrow> p' = p \<and> r = Some ex"
  by (auto simp: outcome_of_def split: option.splits)

lemma step_scan:
  assumes "ex_inv ex" "current ex < length (sections ex)" "CheckRun (sections ex ! current ex)"
  shows "\<exists>ex'. Launch env (current ex) (ex_incr PTE_RSECS ex) = Some ex' \<and> ex_inv ex' \<and> potential ex' \<le> potential ex + 2 \<and>
    g_next_cycle ex' = g_next_cycle ex"
proof -
  obtain ex' where l: "Launch env (current ex) (ex_incr PTE_RSECS ex) = Some ex'" "ex_inv ex'" "before (alarms ex') \<le> before (alarms ex) + 2"
    using Launch_inv [of "ex_incr PTE_RSECS ex" "current ex" env] assms by (auto simp: CheckRun_def)
  then show ?thesis using Launch_frame [OF l(1)] by (auto simp: potential_def)
qed

lemma step_inv:
  assumes "ex_inv ex" "exec_step z e p ex = Next p' ex'"
  shows "ex_inv ex'" and "\<not> g_next_cycle ex \<Longrightarrow> g_next_cycle ex' \<or> (if is_alarm e then 1 else 0) + alarm_bound p' ex' \<le> alarm_bound p ex"
proof -
  have "ex_inv ex' \<and> (\<not> g_next_cycle ex \<longrightarrow> g_next_cycle ex' \<or> (if is_alarm e then 1 else 0) + alarm_bound p' ex' \<le> alarm_bound p ex)"
    using assms(2)
  proof (cases rule: exec_step.elims)
    case (1 now)
    then show ?thesis using SigAlrmHandler_inv [of ex now] assms(1)
      by (auto simp: outcome_of_Next alarm_bound_def split: if_splits)
  next
    case (2 cs)
    then show ?thesis using SigChldHandler_inv [of ex cs ex'] assms(1)
      by (auto simp: outcome_of_Next alarm_bound_def split: if_splits)
  next
    case (3 t now go tmark)
    then show ?thesis using Exec_WaitForCycle_inv [OF assms(1), of t now]
      by (auto simp: MarkToRun_inv split: if_splits option.splits)
  next
    case (4 env)
    then show ?thesis using step_scan [of ex env] assms(1)
      by (auto simp: outcome_of_Next alarm_bound_def split: if_splits)
  next
    case 5
    then show ?thesis using advance_bound [of ex] assms(1) by (auto simp: alarm_bound_def split: if_splits)
  next
    case 6
    then show ?thesis using advance_bound [of ex] assms(1) by (auto simp: alarm_bound_def split: if_splits)
  qed auto
  then show "ex_inv ex'" "\<not> g_next_cycle ex \<Longrightarrow> g_next_cycle ex' \<or> (if is_alarm e then 1 else 0) + alarm_bound p' ex' \<le> alarm_bound p ex"
    by auto
qed

lemma exec_reachable_inv: "exec_reachable z ss p ex \<Longrightarrow> ex_inv ex"
proof (induction rule: exec_reachable.induct)
  case (reach_init t now st ex)
  then show ?case
    using set_cycle_alarm_inv [of "(TExecute ss st)\<lparr>g_next_cycle := False\<rparr>" t now]
    by (auto simp: GetReady_def TExecute_def fresh_def)
next
  case (reach_step p ex e p' ex')
  then show ?case using step_inv(1) by blast
qed


lemma run_reachable: "exec_reachable z ss p ex \<Longrightarrow> exec_run z es p ex = Next p' ex' \<Longrightarrow> exec_reachable z ss p' ex'"
proof (induction es arbitrary: p ex)
  case (Cons e es)
  then show ?case by (auto split: outcome.splits intro: reach_step)
qed simp

text \<open>One section that may run at any time, without a limit.\<close>

definition demo_section :: exec_section where
  "demo_section = TExecSection [108, 115] 127 4095 0x7FFFFFFF 0xFFFFFF 63 0 False 0"

definition demo_start :: texecute where
  "demo_start = next_iteration (the (GetReady 0 0 (TExecute [demo_section] (TStatus (\<lambda>_. 0)))))"

lemma demo_reachable: "exec_reachable (fixed_zone 0) [demo_section] Waiting demo_start"
proof -
  have "\<forall>s \<in> set [demo_section]. fresh s" by (simp add: fresh_def section_ok_def demo_section_def TExecSection_def)
  moreover have "GetReady 0 0 (TExecute [demo_section] (TStatus (\<lambda>_. 0))) =
      Some (the (GetReady 0 0 (TExecute [demo_section] (TStatus (\<lambda>_. 0)))))"
    by (simp add: GetReady_def TExecute_def set_cycle_alarm_def InsertAlarm_def NextAlarm_def NewCycleAlarm_def)
  ultimately show ?thesis unfolding demo_start_def by (rule reach_init)
qed


subsection \<open>The next cycle comes\<close>

lemma quiet_run_bound:
  assumes "ex_inv ex" "\<not> g_next_cycle ex" "exec_run z es p ex = Next p' ex'"
    and "\<And>n q ex1. exec_run z (take n es) p ex = Next q ex1 \<Longrightarrow> \<not> g_next_cycle ex1"
  shows "length (filter is_alarm es) + alarm_bound p' ex' \<le> alarm_bound p ex"
  using assms
proof (induction es arbitrary: p ex)
  case (Cons e es)
  obtain q ex1 where st: "exec_step z e p ex = Next q ex1" "exec_run z es q ex1 = Next p' ex'"
    using Cons.prems(3) by (auto split: outcome.splits)
  have q1: "\<not> g_next_cycle ex1" using Cons.prems(4) [of 1 q ex1] st(1) by simp
  have "\<not> g_next_cycle ex2" if "exec_run z (take n es) q ex1 = Next r ex2" for n r ex2
    using Cons.prems(4) [of "Suc n" r ex2] st(1) that by simp
  then have "length (filter is_alarm es) + alarm_bound p' ex' \<le> alarm_bound q ex1"
    using Cons.IH [OF step_inv(1) [OF Cons.prems(1) st(1)] q1 st(2)] by blast
  then show ?case using step_inv(2) [OF Cons.prems(1) st(1) Cons.prems(2)] q1 by auto
qed simp



subsection \<open>A review\<close>



subsection \<open>Marking the sections of a cycle\<close>

lemma has_bit_iff: "has_bit w i \<longleftrightarrow> bit w (nat i)"
  by (simp add: has_bit_def bit_iff_and_push_bit_not_eq_0)

lemma fold_marks:
  "fold (\<lambda>s st. Incr PTE_SECS (if due s then Incr PTE_TRSECS st else st)) ss st =
     st\<lparr>vals := (vals st)(PTE_SECS := vals st PTE_SECS + of_nat (length ss),
        PTE_TRSECS := vals st PTE_TRSECS + of_nat (length (filter due ss)))\<rparr>"
  by (induction ss arbitrary: st) (auto simp: Incr_def Set_def fun_eq_iff add.assoc)

definition lt_ok :: "tm \<Rightarrow> bool" where
  "lt_ok lt \<longleftrightarrow> 0 \<le> tm_wday lt \<and> tm_wday lt \<le> 6 \<and> 0 \<le> tm_min lt \<and> tm_min lt \<le> 59"

text \<open>In a cycle exactly those sections are marked that failed before and are to be retried, or
  whose masks have the bits of the weekday (from Monday), the month, the day, the hour and the ten
  minutes of the local time; nothing else of a section changes, the review starts with the first
  section, and the statistics count the sections and the marked ones.\<close>

theorem MarkToRun_marks:
  assumes "lt_ok (localtime_r z t)"
  shows "let lt = localtime_r z t; ex' = MarkToRun z t ex;
      due = (\<lambda>s. fails s > 0 \<or> bit (s_wday s) (nat ((tm_wday lt - 1) mod 7)) \<and> bit (s_month s) (nat (tm_mon lt)) \<and>
        bit (s_day s) (nat (tm_mday lt - 1)) \<and> bit (s_hour s) (nat (tm_hour lt)) \<and> bit (s_min10 s) (nat (tm_min lt div 10)))
    in sections ex' = map (\<lambda>s. s\<lparr>torun := due s\<rparr>) (sections ex) \<and> current ex' = 0 \<and> alarms ex' = alarms ex \<and>
      vals (ex_status ex') = (vals (ex_status ex))(PTE_RSECS := 0, PTE_SECS := of_nat (length (sections ex)),
        PTE_TRSECS := of_nat (length (filter due (sections ex))))"
proof -
  let ?lt = "localtime_r z t"
  have w: "(tm_wday ?lt + 6) smod 7 = (tm_wday ?lt - 1) mod 7"
  proof -
    have "(tm_wday ?lt + 6) mod 7 = (tm_wday ?lt - 1) mod 7" using mod_add_self2 [of "tm_wday ?lt - 1" 7] by (simp add: add.commute)
    then show ?thesis using assms by (simp add: smod_nonneg lt_ok_def)
  qed
  have m: "tm_min ?lt sdiv 10 = tm_min ?lt div 10" using assms by (simp add: sdiv_nonneg lt_ok_def)
  have c: "CheckTime ((tm_wday ?lt + 6) smod 7) (tm_mon ?lt) (tm_mday ?lt - 1) (tm_hour ?lt) (tm_min ?lt sdiv 10) s \<longleftrightarrow>
      bit (s_wday s) (nat ((tm_wday ?lt - 1) mod 7)) \<and> bit (s_month s) (nat (tm_mon ?lt)) \<and>
      bit (s_day s) (nat (tm_mday ?lt - 1)) \<and> bit (s_hour s) (nat (tm_hour ?lt)) \<and> bit (s_min10 s) (nat (tm_min ?lt div 10))" for s
    unfolding CheckTime_def has_bit_iff w m by simp
  show ?thesis
    unfolding MarkToRun_def Let_def c fold_marks by (simp add: MarkRun_def Reset_def Set_def fun_eq_iff)
qed

theorem MarkToRun_marks_witness:
  "sections (MarkToRun (fixed_zone 0) 600 demo_start) = [demo_section\<lparr>torun := True\<rparr>]"
proof -
  have *: "localtime_r (fixed_zone 0) 600 = \<lparr>tm_sec = 0, tm_min = 10, tm_hour = 0, tm_mday = 1, tm_mon = 0, tm_year = 70, tm_wday = 4, tm_isdst = 0\<rparr>"
    by code_simp
  then have "lt_ok (localtime_r (fixed_zone 0) 600)" by (simp add: lt_ok_def)
  from MarkToRun_marks [OF this, of demo_start] show ?thesis
    by (simp add: Let_def * demo_start_def demo_section_def TExecSection_def GetReady_def TExecute_def set_cycle_alarm_def
        InsertAlarm_def NextAlarm_def NewCycleAlarm_def bit_numeral_rec nat_numeral)
qed

subsection \<open>Failures\<close>

text \<open>C32. The review of the main loop can run into a null pointer: there is a reachable state in which
  the loop has found that a section is still running from the previous cycle and is about to go on
  to the next one, and in which the exit of that section has already moved \<open>current\<close> past the end of
  the list.\<close>

theorem review_race:
  "\<exists>ex. exec_reachable (fixed_zone 0) [demo_section] Skipping ex \<and> current ex = length (sections ex) \<and>
     exec_step (fixed_zone 0) Advance Skipping ex = Failed"
proof -
  let ?es = "[Alarm 600, Cycle 600 600 True 600, Scan \<lparr>l_time = 600, l_pid = 5, l_now = 600\<rparr>, Advance,
    Alarm 1200, Cycle 1200 1200 True 1200, Scan \<lparr>l_time = 1200, l_pid = 6, l_now = 1200\<rparr>,
    Children [\<lparr>c_pid = 5, c_status = Exited 0, c_env = (\<lambda>_. \<lparr>l_time = 1200, l_pid = 7, l_now = 1200\<rparr>)\<rparr>]]"
  have "case exec_run (fixed_zone 0) ?es Waiting demo_start of
      Next p ex \<Rightarrow> p = Skipping \<and> current ex = 1 \<and> length (sections ex) = 1 | _ \<Rightarrow> False"
    by code_simp
  then obtain ex where ex: "exec_run (fixed_zone 0) ?es Waiting demo_start = Next Skipping ex"
      "current ex = 1" "length (sections ex) = 1"
    by (auto split: outcome.splits)
  then have "exec_step (fixed_zone 0) Advance Skipping ex = Failed" by simp
  then show ?thesis using run_reachable [OF demo_reachable ex(1)] ex(2,3) by metis
qed

text \<open>A section whose \<open>fork\<close> failed has the process number -1, which no exit clears.\<close>

definition stuck :: "nat \<Rightarrow> texecute \<Rightarrow> bool" where
  "stuck i ex \<longleftrightarrow> i < length (sections ex) \<and> pid (sections ex ! i) = - 1"

lemma stuck_RunSections:
  assumes "RunSections env ex = Some ex'" "stuck i ex"
  shows "stuck i ex'"
  using RunSections_launches [OF assms(1)] assms(2) by (auto simp: stuck_def launched_def CheckRun_def)

lemma stuck_child_exit:
  assumes "child_exit ch ex = Some ex'" "c_pid ch > 0" "stuck i ex"
  shows "stuck i ex'"
proof -
  obtain e where e: "find_section (c_pid ch) (sections ex) = Some e" using assms(1) by (auto simp: child_exit_def split: option.splits)
  have "e \<noteq> i" using find_section_Some [OF e] assms(2,3) by (auto simp: stuck_def)
  then have "stuck i (ex\<lparr>sections := (sections ex)[e := s]\<rparr>)" for s using assms(3) by (simp add: stuck_def)
  then show ?thesis using assms(1) e
    by (auto simp: child_exit_def Let_def ClearPid_def stuck_def split: option.splits if_splits
        dest!: stuck_RunSections [where i = i, unfolded stuck_def])
qed

lemma stuck_SigChldHandler:
  "SigChldHandler cs ex = Some ex' \<Longrightarrow> list_all (\<lambda>c. c_pid c > 0) cs \<Longrightarrow> stuck i ex \<Longrightarrow> stuck i ex'"
  by (induction cs arbitrary: ex) (auto split: option.splits dest: stuck_child_exit)

lemma SigAlrmHandler_sections: "SigAlrmHandler now ex = Some ex' \<Longrightarrow> sections ex' = sections ex"
  by (auto simp: SigAlrmHandler_def kill_section_def Let_def dest!: NextAlarm_frame
      split: list.splits if_splits alarm_type.splits option.splits)

lemma stuck_step:
  assumes "exec_step z e p ex = Next p' ex'" "stuck i ex"
  shows "stuck i ex'"
  using assms(1)
proof (cases rule: exec_step.elims)
  case (1 now)
  then show ?thesis using assms SigAlrmHandler_sections [of now ex ex'] by (auto simp: outcome_of_Next stuck_def split: if_splits)
next
  case (2 cs)
  then show ?thesis using assms stuck_SigChldHandler [of cs ex ex' i] by (auto simp: outcome_of_Next split: if_splits)
next
  case (3 t now go tmark)
  have "set_cycle_alarm t now x = Some y \<Longrightarrow> sections y = sections x" for x y
    by (auto simp: set_cycle_alarm_def dest!: NextAlarm_frame InsertAlarm_frame split: option.splits)
  then show ?thesis using 3 assms(2)
    by (fastforce simp: Exec_WaitForCycle_def stuck_def MarkToRun_def Let_def MarkRun_def split: if_splits option.splits)
next
  case (4 env)
  then show ?thesis using assms(2)
    by (auto simp: outcome_of_Next stuck_def nth_list_update CheckRun_def dest!: Launch_frame split: if_splits)
qed (use assms(2) in \<open>auto simp: stuck_def split: if_splits\<close>)

lemma stuck_run: "stuck i ex \<Longrightarrow> exec_run z es q ex = Next p ex' \<Longrightarrow> stuck i ex'"
proof (induction es arbitrary: q ex)
  case (Cons e es)
  then obtain q1 ex1 where "exec_step z e q ex = Next q1 ex1" "exec_run z es q1 ex1 = Next p ex'"
    by (auto split: outcome.splits)
  then show ?case using Cons.IH stuck_step [OF _ Cons.prems(1)] by blast
qed simp

text \<open>A command whose \<open>fork\<close> fails is never run again: the section keeps the process number -1
  along every run, however long, and is not taken for idle in any later cycle.\<close>

theorem failed_fork_is_final:
  assumes "exec_reachable z ss Scanning ex" "current ex < length (sections ex)" "CheckRun (sections ex ! current ex)" "l_pid env = - 1"
  shows "\<exists>ex1. exec_step z (Scan env) Scanning ex = Next Returned ex1 \<and>
    (\<forall>es p ex'. exec_run z es Returned ex1 = Next p ex' \<longrightarrow>
       pid (sections ex' ! current ex) = - 1 \<and> \<not> CheckRun (sections ex' ! current ex))"
proof -
  obtain ex1 where l: "Launch env (current ex) (ex_incr PTE_RSECS ex) = Some ex1"
    using step_scan [OF exec_reachable_inv [OF assms(1)] assms(2,3)] by blast
  have s: "stuck (current ex) ex1" using Launch_frame [OF l] assms(2,4) by (simp add: stuck_def)
  have "exec_step z (Scan env) Scanning ex = Next Returned ex1" using l assms(2,3) by (simp add: outcome_of_def)
  moreover have "pid (sections ex' ! current ex) = - 1 \<and> \<not> CheckRun (sections ex' ! current ex)"
    if "exec_run z es Returned ex1 = Next p ex'" for es p ex'
    using stuck_run [OF s that] by (simp add: stuck_def CheckRun_def)
  ultimately show ?thesis by blast
qed

theorem failed_fork_is_final_witness:
  "\<exists>ex ex1. exec_reachable (fixed_zone 0) [demo_section] Scanning ex \<and>
     exec_step (fixed_zone 0) (Scan \<lparr>l_time = 600, l_pid = - 1, l_now = 600\<rparr>) Scanning ex = Next Returned ex1 \<and>
     (\<forall>es p ex'. exec_run (fixed_zone 0) es Returned ex1 = Next p ex' \<longrightarrow> pid (sections ex' ! 0) = - 1)"
proof -
  have "case exec_run (fixed_zone 0) [Alarm 600, Cycle 600 600 True 600] Waiting demo_start of
      Next p ex \<Rightarrow> p = Scanning \<and> current ex = 0 \<and> length (sections ex) = 1 \<and> CheckRun (sections ex ! 0) | _ \<Rightarrow> False"
    by code_simp
  then obtain ex where ex: "exec_run (fixed_zone 0) [Alarm 600, Cycle 600 600 True 600] Waiting demo_start = Next Scanning ex"
      "current ex = 0" "length (sections ex) = 1" "CheckRun (sections ex ! 0)"
    by (auto split: outcome.splits)
  note r = run_reachable [OF demo_reachable ex(1)]
  then show ?thesis using failed_fork_is_final [OF r, of "\<lparr>l_time = 600, l_pid = - 1, l_now = 600\<rparr>"] ex by auto
qed

end
