(* ===== verification/Exec_Config.thy ===== *)
theory Exec_Config
  imports Exec_Run
begin

text \<open>
  The configuration of the execute mechanism: \<open>CreateSection\<close>, \<open>LoadSectionConfig\<close> and \<open>LoadConfig\<close>
  of \<open>texecute.cc\<close>. The values come from \<open>libpar_getpar\<close>, the lookup of a parameter of a section of
  the configuration file, which is an argument. Of the C library \<open>strsep\<close> with a space and \<open>strtol\<close>
  with base 0 are modelled. Strings are lists of character codes without the terminating zero.
\<close>

subsection \<open>Strings\<close>

text \<open>The tokens a sequence of \<open>strsep(&s, " ")\<close> returns.\<close>

fun strsep_tokens :: "int list \<Rightarrow> int list list" where
  "strsep_tokens [] = [[]]"
| "strsep_tokens (c # cs) =
     (if c = 32 then [] # strsep_tokens cs
      else case strsep_tokens cs of [] \<Rightarrow> [[c]] | t # ts \<Rightarrow> (c # t) # ts)"

definition c_isspace :: "int \<Rightarrow> bool" where
  "c_isspace c \<longleftrightarrow> c = 32 \<or> 9 \<le> c \<and> c \<le> 13"

definition digit_value :: "int \<Rightarrow> int" where
  "digit_value c = (if 48 \<le> c \<and> c \<le> 57 then c - 48 else if 97 \<le> c \<and> c \<le> 122 then c - 87
     else if 65 \<le> c \<and> c \<le> 90 then c - 55 else 99)"

definition strtol_digits :: "int \<Rightarrow> int list \<Rightarrow> int list" where
  "strtol_digits base s = takeWhile (\<lambda>c. digit_value c < base) s"

definition strtol_value :: "int \<Rightarrow> int list \<Rightarrow> int" where
  "strtol_value base ds = foldl (\<lambda>v c. v * base + digit_value c) 0 ds"

definition clamp_long :: "int \<Rightarrow> int" where
  "clamp_long v = max (- (2 ^ 63)) (min (2 ^ 63 - 1) v)"

text \<open>The base and the digits after the sign: a prefix \<open>0x\<close> counts only before a digit.\<close>

definition strtol_base :: "int list \<Rightarrow> int \<times> int list" where
  "strtol_base s = (case s of
       c # x # d # r \<Rightarrow> if c = 48 \<and> (x = 120 \<or> x = 88) \<and> digit_value d < 16 then (16, d # r)
                    else if c = 48 then (8, s) else (10, s)
     | c # r \<Rightarrow> if c = 48 then (8, s) else (10, s)
     | [] \<Rightarrow> (10, s))"

definition strtol0 :: "int list \<Rightarrow> int \<times> int list" where
  "strtol0 s =
     (let s1 = dropWhile c_isspace s;
          neg = (s1 \<noteq> [] \<and> hd s1 = 45);
          s2 = (if s1 \<noteq> [] \<and> (hd s1 = 45 \<or> hd s1 = 43) then tl s1 else s1);
          (base, s3) = strtol_base s2;
          ds = strtol_digits base s3 in
      if ds = [] then (0, s)
      else (clamp_long (if neg then - strtol_value base ds else strtol_value base ds), drop (length ds) s3))"

subsection \<open>Sections of the configuration\<close>

text \<open>The five fields of the time: weekday, month, day, hour, minutes.\<close>

definition parse_time_fields ::
  "int list \<Rightarrow> (32 word \<times> 32 word \<times> 32 word \<times> 32 word \<times> 32 word) option" where
  "parse_time_fields timestr =
     (case strsep_tokens timestr of
        wd # mo # da # ho # mi # _ \<Rightarrow>
          (case parse_cron_time wd 7 1 False of None \<Rightarrow> None | Some wday \<Rightarrow>
           case parse_cron_time mo 12 1 False of None \<Rightarrow> None | Some month \<Rightarrow>
           case parse_cron_time da 31 1 False of None \<Rightarrow> None | Some day \<Rightarrow>
           case parse_cron_time ho 23 0 False of None \<Rightarrow> None | Some hour \<Rightarrow>
           case parse_cron_time mi 5 0 True of None \<Rightarrow> None | Some min10 \<Rightarrow>
             Some (wday, month, day, hour, min10))
      | _ \<Rightarrow> None)"

definition parse_retry :: "int list option \<Rightarrow> int option" where
  "parse_retry retrystr = (case retrystr of
       None \<Rightarrow> Some 0
     | Some s \<Rightarrow> let (l, r) = strtol0 s; v = c_int l in
         if r \<noteq> [] then None else if v < 0 then None else Some v)"

definition parse_limit :: "int list option \<Rightarrow> int option" where
  "parse_limit limitstr = (case limitstr of
       None \<Rightarrow> Some (600 - 1)
     | Some s \<Rightarrow> let (l, r) = strtol0 s; v = c_int l in
         if r \<noteq> [] then None
         else if v < - (600 - 1) then None
         else if v < 0 then Some (600 - v)
         else Some v)"

definition yes_text :: "int list" where "yes_text = [121, 101, 115]"

definition CreateSection ::
  "int list \<Rightarrow> int list \<Rightarrow> int list option \<Rightarrow> int list option \<Rightarrow> int list option \<Rightarrow>
     exec_section list \<Rightarrow> int \<times> exec_section list" where
  "CreateSection timestr commandstr retrystr parallelstr limitstr ss =
     (case parse_time_fields timestr of None \<Rightarrow> (1, ss) | Some (wday, month, day, hour, min10) \<Rightarrow>
      case parse_retry retrystr of None \<Rightarrow> (1, ss) | Some re \<Rightarrow>
      case parse_limit limitstr of None \<Rightarrow> (1, ss) | Some li \<Rightarrow>
        (0, ss @ [TExecSection commandstr wday month day hour min10 re (parallelstr = Some yes_text) li]))"

datatype par_name = Par_time | Par_command_line | Par_retry | Par_parallel | Par_limit | Par_execute_sections

definition LoadSectionConfig ::
  "(int list \<Rightarrow> par_name \<Rightarrow> int list option) \<Rightarrow> int list \<Rightarrow> exec_section list \<Rightarrow> int \<times> exec_section list" where
  "LoadSectionConfig libpar_getpar section ss =
     (case libpar_getpar section Par_time of None \<Rightarrow> (0, ss) | Some timestr \<Rightarrow>
      case libpar_getpar section Par_command_line of None \<Rightarrow> (0, ss) | Some cmd \<Rightarrow>
        (0, snd (CreateSection timestr cmd (libpar_getpar section Par_retry)
              (libpar_getpar section Par_parallel) (libpar_getpar section Par_limit) ss)))"

definition EXECUTE_SECTION :: "int list" where
  "EXECUTE_SECTION = [101, 120, 101, 99, 117, 116, 101]"

fun load_sections ::
  "(int list \<Rightarrow> par_name \<Rightarrow> int list option) \<Rightarrow> int list list \<Rightarrow> exec_section list \<Rightarrow> int \<times> exec_section list" where
  "load_sections libpar_getpar [] ss = (0, ss)"
| "load_sections libpar_getpar (sect # sects) ss =
     (case LoadSectionConfig libpar_getpar sect ss of
        (r, ss) \<Rightarrow> if r \<noteq> 0 then (1, ss) else load_sections libpar_getpar sects ss)"

definition TExecute_LoadConfig ::
  "(int list \<Rightarrow> par_name \<Rightarrow> int list option) \<Rightarrow> exec_section list \<Rightarrow> int \<times> exec_section list" where
  "TExecute_LoadConfig libpar_getpar ss =
     (case libpar_getpar EXECUTE_SECTION Par_execute_sections of
        None \<Rightarrow> (0, ss)
      | Some text \<Rightarrow> if text = [] then (0, ss) else load_sections libpar_getpar (strsep_tokens text) ss)"

subsection \<open>Well-formed sections\<close>

definition config_ok :: "exec_section \<Rightarrow> bool" where
  "config_ok s \<longleftrightarrow> fresh s \<and> in_field 7 1 (s_wday s) \<and> in_field 12 1 (s_month s) \<and> in_field 31 1 (s_day s) \<and>
     in_field 23 0 (s_hour s) \<and> in_field 5 0 (s_min10 s) \<and> limit s < 2 ^ 31 \<and> retry s < 2 ^ 31"

lemma cron_init_ok: "cron_ok maxi mini cron_init"
  by (simp add: cron_ok_def cron_init_def in_field_def)

lemma parsed_in_field:
  "parse_cron_time s maxi mini minutes = Some w \<Longrightarrow> 0 \<le> mini \<Longrightarrow> mini < maxi \<Longrightarrow> maxi < 32 \<Longrightarrow> in_field maxi mini w"
  using cron_run_in_field [OF cron_init_ok] by (simp add: parse_cron_time_def)

lemma parse_time_fields_ok:
  assumes "parse_time_fields s = Some (wd, mo, da, ho, mi)"
  shows "in_field 7 1 wd \<and> in_field 12 1 mo \<and> in_field 31 1 da \<and> in_field 23 0 ho \<and> in_field 5 0 mi"
  using assms by (auto simp: parse_time_fields_def parsed_in_field split: list.splits option.splits)

lemma parse_limit_bounds: "parse_limit s = Some v \<Longrightarrow> 0 \<le> v \<and> v < 2 ^ 31"
  using c_int_range [unfolded int_range_def]
  by (auto simp: parse_limit_def Let_def split: option.splits if_splits prod.splits)

lemma parse_retry_bounds: "parse_retry s = Some v \<Longrightarrow> 0 \<le> v \<and> v < 2 ^ 31"
  using c_int_range [unfolded int_range_def]
  by (auto simp: parse_retry_def Let_def split: option.splits if_splits prod.splits)

lemma CreateSection_ok:
  assumes "\<forall>s \<in> set ss. config_ok s" "CreateSection t c r p l ss = (ret, ss')"
  shows "\<forall>s \<in> set ss'. config_ok s"
proof -
  consider "ss' = ss" | wd mo da ho mi re li where "parse_time_fields t = Some (wd, mo, da, ho, mi)" "parse_retry r = Some re"
    "parse_limit l = Some li" "ss' = ss @ [TExecSection c wd mo da ho mi re (p = Some yes_text) li]"
    using assms(2) by (auto simp: CreateSection_def split: option.splits)
  then show ?thesis
  proof cases
    case 2
    have "config_ok (TExecSection c wd mo da ho mi re (p = Some yes_text) li)"
      using parse_time_fields_ok [OF 2(1)] parse_retry_bounds [OF 2(2)] parse_limit_bounds [OF 2(3)]
      by (simp add: config_ok_def fresh_def section_ok_def TExecSection_def)
    then show ?thesis using assms(1) 2(4) by auto
  qed (use assms in simp)
qed

lemma load_sections_ok:
  "\<forall>s \<in> set ss. config_ok s \<Longrightarrow> load_sections getp sects ss = (r, ss') \<Longrightarrow> r = 0 \<and> (\<forall>s \<in> set ss'. config_ok s)"
proof (induction sects arbitrary: ss)
  case (Cons sect sects)
  obtain r1 ss1 where l: "LoadSectionConfig getp sect ss = (r1, ss1)" by fastforce
  have "r1 = 0 \<and> (\<forall>s \<in> set ss1. config_ok s)"
  proof (cases "\<exists>t c. getp sect Par_time = Some t \<and> getp sect Par_command_line = Some c")
    case True
    then obtain t c where tc: "getp sect Par_time = Some t" "getp sect Par_command_line = Some c" by blast
    obtain r2 ss2 where "CreateSection t c (getp sect Par_retry) (getp sect Par_parallel) (getp sect Par_limit) ss = (r2, ss2)"
      by fastforce
    then show ?thesis using CreateSection_ok [OF Cons.prems(1)] l tc by (auto simp: LoadSectionConfig_def)
  next
    case False
    then show ?thesis using l Cons.prems(1) by (auto simp: LoadSectionConfig_def split: option.splits)
  qed
  then show ?case using Cons.IH [of ss1] Cons.prems(2) l by simp
qed simp

text \<open>C33. Whatever the configuration says, loading it does not fail and gives sections that are
  well-formed: the masks have only bits of their fields, the limit and the number of retries are
  not negative, and no section is running. From such sections the program starts: the first alarm
  is set, for the beginning of the next cycle.\<close>

theorem LoadConfig_well_formed:
  "\<exists>ss ex. TExecute_LoadConfig libpar_getpar [] = (0, ss) \<and> (\<forall>s \<in> set ss. config_ok s) \<and>
     GetReady t now (TExecute ss st) = Some ex \<and> exec_reachable z ss Waiting (next_iteration ex) \<and>
     alarms ex = [(NewCycleAlarm t)\<lparr>isset := True\<rparr>]"
proof -
  obtain r ss where l: "TExecute_LoadConfig libpar_getpar [] = (r, ss)" by fastforce
  then have ok: "r = 0 \<and> (\<forall>s \<in> set ss. config_ok s)"
    using load_sections_ok [of "[]" libpar_getpar _ r ss] by (auto simp: TExecute_LoadConfig_def split: option.splits if_splits)
  obtain ex where g: "GetReady t now (TExecute ss st) = Some ex" "alarms ex = [(NewCycleAlarm t)\<lparr>isset := True\<rparr>]"
    by (simp add: GetReady_def TExecute_def set_cycle_alarm_def InsertAlarm_def NextAlarm_def NewCycleAlarm_def)
  have "\<forall>s \<in> set ss. fresh s" using ok by (simp add: config_ok_def)
  then have "exec_reachable z ss Waiting (next_iteration ex)" using g(1) by (rule reach_init)
  then show ?thesis using l ok g by auto
qed

text \<open>A configuration with one section, to be run in every cycle.\<close>

definition demo_getpar :: "int list \<Rightarrow> par_name \<Rightarrow> int list option" where
  "demo_getpar sect par = (case par of Par_execute_sections \<Rightarrow> Some [97] | Par_time \<Rightarrow> Some [42, 32, 42, 32, 42, 32, 42, 32, 42]
     | Par_command_line \<Rightarrow> Some [108, 115] | _ \<Rightarrow> None)"

theorem LoadConfig_well_formed_witness:
  "\<exists>s ex. TExecute_LoadConfig demo_getpar [] = (0, [s]) \<and> config_ok s \<and>
     GetReady 0 0 (TExecute [s] (TStatus (\<lambda>_. 0))) = Some ex"
proof -
  have "length (snd (TExecute_LoadConfig demo_getpar [])) = 1" by code_simp
  then obtain s where s: "snd (TExecute_LoadConfig demo_getpar []) = [s]" by (auto simp: length_Suc_conv)
  obtain ss ex where "TExecute_LoadConfig demo_getpar [] = (0, ss)" "\<forall>s \<in> set ss. config_ok s"
      "GetReady 0 0 (TExecute ss (TStatus (\<lambda>_. 0))) = Some ex"
    using LoadConfig_well_formed [of demo_getpar 0 0 "TStatus (\<lambda>_. 0)"] by blast
  then show ?thesis using s by auto
qed

text \<open>A negative limit does not count from the end of the cycle as documented: \<open>-1\<close> is not the
  same as the default 599 but 601 seconds from the beginning of the cycle, so that the command is
  stopped only after the next cycle has begun; every negative limit accepted gives more than a whole
  cycle.\<close>

theorem negative_limit_exceeds_cycle:
  "parse_limit None = Some 599 \<and> parse_limit (Some [45, 49]) = Some 601 \<and>
   (\<forall>s v. parse_limit (Some s) = Some v \<and> c_int (fst (strtol0 s)) < 0 \<longrightarrow> 600 < v \<and> v < 1200)"
proof (intro conjI allI impI)
  show "parse_limit None = Some 599" by (simp add: parse_limit_def)
  show "parse_limit (Some [45, 49]) = Some 601" by code_simp
  fix s v
  assume "parse_limit (Some s) = Some v \<and> c_int (fst (strtol0 s)) < 0"
  then show "600 < v" "v < 1200" by (auto simp: parse_limit_def Let_def split: prod.splits if_splits)
qed

theorem negative_limit_exceeds_cycle_witness:
  "parse_limit (Some [45, 53]) = Some 605 \<and> 600 < (605 :: int)"
proof -
  have "parse_limit (Some [45, 53]) = Some 605" "c_int (fst (strtol0 [45, 53])) < 0" by code_simp+
  then show ?thesis using negative_limit_exceeds_cycle by blast
qed

end
