(* ===== verification/Meaner_Main.thy ===== *)
theory Meaner_Main
  imports Exec_Config
begin

text \<open>
  The main loop of \<open>meaner3.cc\<close>: wait for a cycle, check that the clock has moved on, copy the
  values, write them, mark and review the sections. The iteration joins the writer of \<open>Meaner\<close> and
  the executor of \<open>Exec_Run\<close>, which share the statistics; signals interrupt the wait and the review.
\<close>

record main_state =
  ms_meaner :: meaner
  ms_files :: files
  ms_exec :: texecute
  last_cycle :: time_t

fun is_cycle :: "event \<Rightarrow> bool" where
  "is_cycle (Cycle _ _ _ _) = True"
| "is_cycle _ = False"

text \<open>The signals of a wait and of a review.\<close>

definition signals :: "event list \<Rightarrow> bool" where
  "signals es \<longleftrightarrow> list_all (\<lambda>e. \<not> is_cycle e) es"

definition same_cycle :: "time_t \<Rightarrow> time_t \<Rightarrow> bool" where
  "same_cycle t lc \<longleftrightarrow> t sdiv 600 \<le> lc sdiv 600"

inductive main_step :: "zone \<Rightarrow> main_state \<Rightarrow> main_state \<Rightarrow> bool" for z where
  main_skip: "signals es \<Longrightarrow> exec_run z es Waiting (ms_exec s) = Next Waiting ex \<Longrightarrow> g_next_cycle ex \<Longrightarrow>
     Exec_WaitForCycle tc nc ex = Some ex1 \<Longrightarrow> same_cycle t (last_cycle s) \<Longrightarrow>
     main_step z s (s\<lparr>ms_exec := next_iteration ex1\<rparr>)"
| main_write: "signals es \<Longrightarrow> exec_run z es Waiting (ms_exec s) = Next Waiting ex \<Longrightarrow> g_next_cycle ex \<Longrightarrow>
     Exec_WaitForCycle tc nc ex = Some ex1 \<Longrightarrow> \<not> same_cycle t (last_cycle s) \<Longrightarrow>
     TMeaner_WriteParams env senv now copied (ms_meaner s, ms_files s, ex_status ex1) = Some (m, fs, st) \<Longrightarrow>
     signals es' \<Longrightarrow> exec_run z es' Scanning (MarkToRun z t (ex1\<lparr>ex_status := st\<rparr>)) = Next Waiting ex2 \<Longrightarrow>
     main_step z s \<lparr>ms_meaner = m, ms_files = fs, ms_exec = ex2, last_cycle = t\<rparr>"

inductive main_run :: "zone \<Rightarrow> main_state \<Rightarrow> main_state \<Rightarrow> bool" for z where
  main_refl: "main_run z s s"
| main_trans: "main_run z s s1 \<Longrightarrow> main_step z s1 s2 \<Longrightarrow> main_run z s s2"

definition main_inv :: "main_state \<Rightarrow> bool" where
  "main_inv s \<longleftrightarrow> meaner_inv (ms_meaner s) (ms_files s) \<and> ex_inv (ms_exec s)"

lemma run_inv: "ex_inv ex \<Longrightarrow> exec_run z es p ex = Next p' ex' \<Longrightarrow> ex_inv ex'"
proof (induction es arbitrary: p ex)
  case (Cons e es)
  then obtain q ex1 where "exec_step z e p ex = Next q ex1" "exec_run z es q ex1 = Next p' ex'"
    by (auto split: outcome.splits)
  then show ?case using Cons.IH step_inv(1) [OF Cons.prems(1)] by blast
qed simp

lemma main_step_inv:
  assumes "main_step z s s'" "main_inv s"
  shows "main_inv s'" "grows (ms_files s) (ms_files s')" "last_cycle s sdiv 600 \<le> last_cycle s' sdiv 600"
    "ms_files s' \<noteq> ms_files s \<Longrightarrow> last_cycle s sdiv 600 < last_cycle s' sdiv 600"
    "names (params (ms_meaner s')) = names (params (ms_meaner s))" "data_dir (ms_meaner s') = data_dir (ms_meaner s)"
proof -
  have inv: "meaner_inv (ms_meaner s) (ms_files s)" "ex_inv (ms_exec s)" using assms(2) by (simp_all add: main_inv_def)
  have "main_inv s' \<and> grows (ms_files s) (ms_files s') \<and> last_cycle s sdiv 600 \<le> last_cycle s' sdiv 600 \<and>
    (ms_files s' \<noteq> ms_files s \<longrightarrow> last_cycle s sdiv 600 < last_cycle s' sdiv 600) \<and>
    names (params (ms_meaner s')) = names (params (ms_meaner s)) \<and> data_dir (ms_meaner s') = data_dir (ms_meaner s)"
    using assms(1)
  proof cases
    case (main_skip es ex tc nc ex1 t)
    then show ?thesis using Exec_WaitForCycle_inv [OF run_inv [OF inv(2) main_skip(3)] main_skip(4), of tc nc] inv
      by (auto simp: main_inv_def)
  next
    case (main_write es ex tc nc ex1 t env senv now copied m fs st es' ex2)
    have "ex_inv ex1" using Exec_WaitForCycle_inv [OF run_inv [OF inv(2) main_write(3)] main_write(4), of tc nc] main_write(5) by auto
    then have "ex_inv (ex1\<lparr>ex_status := st\<rparr>)" by (simp add: ex_inv_def)
    then have "ex_inv ex2" using run_inv [OF MarkToRun_inv main_write(9)] by blast
    then show ?thesis using main_write(1,6) WriteParams_keeps [OF inv(1) main_write(7)] by (simp add: main_inv_def same_cycle_def)
  qed
  then show "main_inv s'" "grows (ms_files s) (ms_files s')" "last_cycle s sdiv 600 \<le> last_cycle s' sdiv 600"
    "ms_files s' \<noteq> ms_files s \<Longrightarrow> last_cycle s sdiv 600 < last_cycle s' sdiv 600"
    "names (params (ms_meaner s')) = names (params (ms_meaner s))" "data_dir (ms_meaner s') = data_dir (ms_meaner s)"
    by simp_all
qed

text \<open>C9. The daemon only appends. Over any number of iterations, whatever the clock shows, whichever
  system calls fail and however signals interrupt the loop, every probe that is in a file of the
  data base stays there with its value; the files change only in an iteration of a later ten-minute
  period than every write before; and the invariants of the writer and of the executor are kept.\<close>

theorem meaner_only_appends:
  assumes "main_run z s s'" "main_inv s"
  shows "main_inv s' \<and> (\<forall>p i v. stored (ms_files s) p i v \<longrightarrow> stored (ms_files s') p i v) \<and>
    last_cycle s sdiv 600 \<le> last_cycle s' sdiv 600 \<and>
    (\<forall>s''. main_step z s' s'' \<and> ms_files s'' \<noteq> ms_files s' \<longrightarrow> last_cycle s sdiv 600 < last_cycle s'' sdiv 600) \<and>
    names (params (ms_meaner s')) = names (params (ms_meaner s))"
proof -
  have "main_inv s' \<and> grows (ms_files s) (ms_files s') \<and> last_cycle s sdiv 600 \<le> last_cycle s' sdiv 600 \<and>
      names (params (ms_meaner s')) = names (params (ms_meaner s))"
    using assms
  proof (induction rule: main_run.induct)
    case (main_trans s s1 s2)
    then have ih: "main_inv s1" "grows (ms_files s) (ms_files s1)" "last_cycle s sdiv 600 \<le> last_cycle s1 sdiv 600"
      "names (params (ms_meaner s1)) = names (params (ms_meaner s))" by simp_all
    note m = main_step_inv [OF main_trans.hyps(2) ih(1)]
    show ?case using m(1,3,5) ih(3,4) grows_trans [OF ih(2) m(2)] by simp
  qed simp
  moreover from this have "last_cycle s sdiv 600 < last_cycle s'' sdiv 600" if "main_step z s' s''" "ms_files s'' \<noteq> ms_files s'" for s''
    using main_step_inv(4) [OF that(1) _ that(2)] by simp
  ultimately show ?thesis using grows_stored by blast
qed

definition demo_main :: main_state where
  "demo_main = \<lparr>ms_meaner = demo_meaner, ms_files = (\<lambda>_. Some [7]), ms_exec = demo_start, last_cycle = 0\<rparr>"

theorem meaner_only_appends_witness:
  "\<exists>s'. main_step (fixed_zone 0) demo_main s' \<and> stored (ms_files s') [65] 0 7"
proof -
  have inv: "main_inv demo_main"
    using exec_reachable_inv [OF demo_reachable]
    by (auto simp: main_inv_def demo_main_def meaner_inv_def demo_meaner_def sp_inv_def TSaveParam_def)
  have "case exec_run (fixed_zone 0) [Alarm 600] Waiting demo_start of
      Next p ex \<Rightarrow> p = Waiting \<and> g_next_cycle ex | _ \<Rightarrow> False" by code_simp
  then obtain ex where ex: "exec_run (fixed_zone 0) [Alarm 600] Waiting demo_start = Next Waiting ex" "g_next_cycle ex"
    by (auto split: outcome.splits)
  obtain ex1 where ex1: "Exec_WaitForCycle 600 600 ex = Some ex1"
    using Exec_WaitForCycle_inv [OF run_inv [OF exec_reachable_inv [OF demo_reachable] ex(1)] ex(2)] by blast
  have "same_cycle 500 (last_cycle demo_main)" by (simp add: same_cycle_def demo_main_def sdiv_nonneg)
  then have s: "main_step (fixed_zone 0) demo_main (demo_main\<lparr>ms_exec := next_iteration ex1\<rparr>)"
    using main_skip [of "[Alarm 600]" "fixed_zone 0" demo_main ex 600 600 ex1 500] ex ex1
    by (simp add: signals_def demo_main_def)
  have "stored (ms_files demo_main) [65] 0 7" by (simp add: stored_def demo_main_def)
  then show ?thesis using s meaner_only_appends [OF main_trans [OF main_refl s] inv] by blast
qed

end
