(* ===== verification/Linked_List.thy ===== *)
theory Linked_List
  imports Prelude
begin

text \<open>
  Doubly linked lists in a heap, for the usage list and the lists of the blocks of one parameter in
  \<open>Szb_Cache\<close>. A list is given by the two functions that read the links of a node; \<open>dlist\<close> says that
  they link the nodes of a list in its order. The lemmas are the two things the source does to its
  lists: a node is taken out, and a node is put in front.
\<close>

definition first_of :: "'a list \<Rightarrow> 'a option" where
  "first_of xs = (case xs of [] \<Rightarrow> None | x # _ \<Rightarrow> Some x)"

definition last_of :: "'a list \<Rightarrow> 'a option" where
  "last_of xs = (if xs = [] then None else Some (last xs))"

lemma first_of_simps [simp]: "first_of [] = None" "first_of (x # xs) = Some x"
  by (simp_all add: first_of_def)

lemma last_of_simps [simp]: "last_of [] = None" "last_of (xs @ [x]) = Some x"
  "last_of (x # xs) = Some (if xs = [] then x else last xs)"
  by (simp_all add: last_of_def)

fun dseg :: "('a \<Rightarrow> 'a option) \<Rightarrow> ('a \<Rightarrow> 'a option) \<Rightarrow> 'a option \<Rightarrow> 'a list \<Rightarrow> 'a option \<Rightarrow> bool" where
  "dseg nx pv p [] q = True"
| "dseg nx pv p (x # xs) q \<longleftrightarrow> pv x = p \<and> nx x = (if xs = [] then q else first_of xs) \<and> dseg nx pv (Some x) xs q"

lemma dseg_append:
  "dseg nx pv p (as @ bs) q \<longleftrightarrow>
     dseg nx pv p as (if bs = [] then q else first_of bs) \<and> dseg nx pv (if as = [] then p else last_of as) bs q"
  by (induction as arbitrary: p) (auto simp: first_of_def neq_Nil_conv split: list.splits)

lemma dseg_cong:
  assumes "\<And>x. x \<in> set xs \<Longrightarrow> nx x = nx' x \<and> pv x = pv' x"
  shows "dseg nx pv p xs q = dseg nx' pv' p xs q"
  using assms by (induction xs arbitrary: p) auto

lemma dseg_next_upd [simp]: "a \<notin> set xs \<Longrightarrow> dseg (nx(a := v)) pv p xs q = dseg nx pv p xs q"
  by (rule dseg_cong) auto

lemma dseg_prev_upd [simp]: "a \<notin> set xs \<Longrightarrow> dseg nx (pv(a := v)) p xs q = dseg nx pv p xs q"
  by (rule dseg_cong) auto

abbreviation dlist :: "('a \<Rightarrow> 'a option) \<Rightarrow> ('a \<Rightarrow> 'a option) \<Rightarrow> 'a list \<Rightarrow> bool" where
  "dlist nx pv xs \<equiv> dseg nx pv None xs None \<and> distinct xs"

lemma dlist_ends:
  assumes "dlist nx pv (as @ l # bs)"
  shows "nx l = first_of bs" "pv l = last_of as"
  using assms by (auto simp: dseg_append first_of_def last_of_def split: list.splits)

definition unlink_next :: "('a \<Rightarrow> 'a option) \<Rightarrow> ('a \<Rightarrow> 'a option) \<Rightarrow> 'a \<Rightarrow> 'a \<Rightarrow> 'a option" where
  "unlink_next nx pv l = (case pv l of None \<Rightarrow> nx | Some a \<Rightarrow> nx(a := nx l))"

lemma dlist_unlink:
  assumes "dlist nx pv xs" "l \<in> set xs"
  shows "dlist (unlink_next nx pv l) (unlink_next pv nx l) (remove1 l xs)"
proof -
  obtain as bs where xs: "xs = as @ l # bs" "l \<notin> set as" using split_list_first [OF assms(2)] by blast
  have d: "dlist nx pv (as @ l # bs)" using assms(1) xs by simp
  have r: "remove1 l xs = as @ bs" using xs by (simp add: remove1_append)
  show ?thesis unfolding r
  proof (cases as rule: rev_cases)
    case Nil
    then show "dlist (unlink_next nx pv l) (unlink_next pv nx l) (as @ bs)"
      using d dlist_ends [OF d] by (cases bs) (auto simp: unlink_next_def)
  next
    case (snoc cs a)
    then show "dlist (unlink_next nx pv l) (unlink_next pv nx l) (as @ bs)"
      using d dlist_ends [OF d] by (cases bs) (auto simp: unlink_next_def dseg_append)
  qed
qed

lemma dlist_push:
  assumes "dlist nx pv xs" "l \<notin> set xs"
  shows "dlist (nx(l := first_of xs)) (case first_of xs of None \<Rightarrow> pv(l := None) | Some a \<Rightarrow> pv(l := None, a := Some l)) (l # xs)"
  using assms by (cases xs) auto

lemma dlist_first:
  assumes "dlist nx pv xs" "l \<in> set xs"
  shows "pv l = None \<longleftrightarrow> first_of xs = Some l" "nx l = None \<longleftrightarrow> last_of xs = Some l"
    "nx l = Some a \<Longrightarrow> a \<in> set xs \<and> a \<noteq> l" "pv l = Some a \<Longrightarrow> a \<in> set xs \<and> a \<noteq> l"
proof -
  obtain as bs where xs: "xs = as @ l # bs" using split_list [OF assms(2)] by blast
  note e = dlist_ends [OF assms(1) [unfolded xs]]
  show "pv l = None \<longleftrightarrow> first_of xs = Some l" using e(2) assms(1) unfolding xs by (cases as) (auto simp: last_of_def)
  show "nx l = None \<longleftrightarrow> last_of xs = Some l" using e(1) assms(1) unfolding xs by (cases bs rule: rev_cases) (auto simp: first_of_def last_of_def split: list.splits)
  show "nx l = Some a \<Longrightarrow> a \<in> set xs \<and> a \<noteq> l" using e(1) assms(1) unfolding xs by (auto simp: first_of_def split: list.splits)
  show "pv l = Some a \<Longrightarrow> a \<in> set xs \<and> a \<noteq> l" using e(2) assms(1) unfolding xs by (cases as rule: rev_cases) auto
qed

lemma dlist_remove_ends:
  assumes "dlist nx pv xs" "l \<in> set xs"
  shows "first_of (remove1 l xs) = (if pv l = None then nx l else first_of xs)"
    "last_of (remove1 l xs) = (if nx l = None then pv l else last_of xs)"
proof -
  obtain as bs where xs: "xs = as @ l # bs" "l \<notin> set as" using split_list_first [OF assms(2)] by blast
  note e = dlist_ends [OF assms(1) [unfolded xs(1)]]
  have r: "remove1 l xs = as @ bs" using xs by (simp add: remove1_append)
  show "first_of (remove1 l xs) = (if pv l = None then nx l else first_of xs)"
    unfolding r using e xs by (cases as) (auto simp: last_of_def)
  show "last_of (remove1 l xs) = (if nx l = None then pv l else last_of xs)"
    unfolding r using e xs by (cases bs) (auto simp: last_of_def)
qed
end
