(* ===== verification/Szb_Cache.thy ===== *)
theory Szb_Cache
  imports Linked_List Szb_Date "HOL-Library.AList" "HOL-Library.Monad_Syntax"
begin

text \<open>
  The cache of data blocks, \<open>szb_buffer_str\<close> and \<open>BlockLocator\<close> of \<open>szbase/szbbuf.cc\<close>. Blocks are
  found through two hash tables; each block has a locator, a node of the list of all blocks in the
  order of their last use and of the list of the blocks of its parameter. A buffer that is not
  locked removes the blocks used the longest ago when there are more than \<open>max_blocks\<close>.

  Locators and blocks live in a heap, pointers are addresses. The address of a new object is an
  argument. \<open>None\<close> is a failed assertion or the use of a null or dangling pointer. The tables are
  association lists; a lookup of a missing key inserts a null pointer, as \<open>operator[]\<close> does.
\<close>

subsection \<open>State\<close>

type_synonym addr = nat
type_synonym tparam = nat
type_synonym buffer_key = "tparam \<times> time_t"

datatype block_type = MIN10_BLOCK | SEC10_BLOCK | UNUSED_BLOCK_TYPE

record cblock =
  b_param :: tparam
  b_start :: time_t
  b_type :: block_type
  b_locator :: "addr option"

record locator =
  l_block :: addr
  newer :: "addr option"
  older :: "addr option"
  next_same_param :: "addr option"
  prev_same_param :: "addr option"

record szb_buffer =
  locators :: "addr \<Rightarrow> locator option"
  blocks :: "addr \<Rightarrow> cblock option"
  datastorage :: "(buffer_key \<times> addr option) list"
  probestorage :: "(buffer_key \<times> addr option) list"
  paramindex :: "tparam \<Rightarrow> addr option"
  newest_block :: "addr option"
  oldest_block :: "addr option"
  blocks_c :: int
  max_blocks :: int
  locked :: int
  cachepoison :: bool
  configurationDate :: time_t
  last_err :: int

definition szb_buffer_new :: "int \<Rightarrow> szb_buffer" where
  "szb_buffer_new n = \<lparr>locators = Map.empty, blocks = Map.empty, datastorage = [], probestorage = [],
     paramindex = (\<lambda>_. None), newest_block = None, oldest_block = None, blocks_c = 0, max_blocks = n,
     locked = 0, cachepoison = False, configurationDate = - 1, last_err = 0\<rparr>"

subsection \<open>Writes through pointers\<close>

definition put_locator :: "(locator \<Rightarrow> locator) \<Rightarrow> addr \<Rightarrow> szb_buffer \<Rightarrow> szb_buffer" where
  "put_locator f a s = s\<lparr>locators := (locators s)(a \<mapsto> f (the (locators s a)))\<rparr>"

definition write_to :: "(locator \<Rightarrow> locator) \<Rightarrow> addr option \<Rightarrow> szb_buffer \<Rightarrow> szb_buffer option" where
  "write_to f p s = (case p of None \<Rightarrow> None
     | Some a \<Rightarrow> if locators s a = None then None else Some (put_locator f a s))"

definition assert_that :: "bool \<Rightarrow> unit option" where
  "assert_that P = (if P then Some () else None)"

subsection \<open>Locators\<close>

text \<open>The destructor: the locator leaves the list of its parameter, then the usage list.\<close>

definition unlink_param :: "addr \<Rightarrow> szb_buffer \<Rightarrow> szb_buffer option" where
  "unlink_param this s = do {
     lo \<leftarrow> locators s this;
     case prev_same_param lo of
       Some p \<Rightarrow> do {
         s \<leftarrow> write_to (\<lambda>n. n\<lparr>next_same_param := next_same_param lo\<rparr>) (Some p) s;
         if next_same_param lo \<noteq> None
         then write_to (\<lambda>n. n\<lparr>prev_same_param := Some p\<rparr>) (next_same_param lo) s else Some s }
     | None \<Rightarrow> do {
         b \<leftarrow> blocks s (l_block lo);
         let s = s\<lparr>paramindex := (paramindex s)(b_param b := next_same_param lo)\<rparr>;
         if next_same_param lo \<noteq> None
         then write_to (\<lambda>n. n\<lparr>prev_same_param := None\<rparr>) (next_same_param lo) s else Some s } }"

definition unlink_usage :: "addr \<Rightarrow> szb_buffer \<Rightarrow> szb_buffer option" where
  "unlink_usage this s = do {
     lo \<leftarrow> locators s this;
     if Some this = newest_block s \<and> Some this = oldest_block s then do {
       assert_that (older lo = None);
       assert_that (newer lo = None);
       Some (s\<lparr>newest_block := None, oldest_block := None\<rparr>) }
     else if Some this = newest_block s then do {
       assert_that (newer lo = None);
       assert_that (older lo \<noteq> None);
       write_to (\<lambda>n. n\<lparr>newer := None\<rparr>) (older lo) (s\<lparr>newest_block := older lo\<rparr>) }
     else if Some this = oldest_block s then do {
       assert_that (older lo = None);
       assert_that (newer lo \<noteq> None);
       write_to (\<lambda>n. n\<lparr>older := None\<rparr>) (newer lo) (s\<lparr>oldest_block := newer lo\<rparr>) }
     else do {
       assert_that (older lo \<noteq> None);
       assert_that (newer lo \<noteq> None);
       s \<leftarrow> write_to (\<lambda>n. n\<lparr>older := older lo\<rparr>) (newer lo) s;
       write_to (\<lambda>n. n\<lparr>newer := newer lo\<rparr>) (older lo) s } }"

definition locator_delete :: "addr \<Rightarrow> szb_buffer \<Rightarrow> szb_buffer option" where
  "locator_delete this s = do {
     let s = s\<lparr>blocks_c := blocks_c s - 1\<rparr>;
     s \<leftarrow> unlink_param this s;
     s \<leftarrow> unlink_usage this s;
     Some (s\<lparr>locators := (locators s)(this := None)\<rparr>) }"

definition Used :: "addr \<Rightarrow> szb_buffer \<Rightarrow> szb_buffer option" where
  "Used this s = do {
     lo \<leftarrow> locators s this;
     if Some this = newest_block s then do { assert_that (newer lo = None); Some s }
     else do {
       s \<leftarrow> (if Some this = oldest_block s then do {
               assert_that (older lo = None);
               assert_that (newer lo \<noteq> None);
               write_to (\<lambda>n. n\<lparr>older := None\<rparr>) (newer lo) (s\<lparr>oldest_block := newer lo\<rparr>) }
             else do {
               assert_that (older lo \<noteq> None);
               assert_that (newer lo \<noteq> None);
               s \<leftarrow> write_to (\<lambda>n. n\<lparr>older := older lo\<rparr>) (newer lo) s;
               write_to (\<lambda>n. n\<lparr>newer := newer lo\<rparr>) (older lo) s });
       s \<leftarrow> write_to (\<lambda>n. n\<lparr>newer := None\<rparr>) (Some this) s;
       s \<leftarrow> write_to (\<lambda>n. n\<lparr>older := newest_block s\<rparr>) (Some this) s;
       s \<leftarrow> write_to (\<lambda>n. n\<lparr>newer := Some this\<rparr>) (newest_block s) s;
       Some (s\<lparr>newest_block := Some this\<rparr>) } }"

subsection \<open>Deleting blocks\<close>

text \<open>\<open>delete block\<close>: the destructor of a block deletes its locator.\<close>

definition block_delete :: "addr \<Rightarrow> szb_buffer \<Rightarrow> szb_buffer option" where
  "block_delete b s = do {
     blk \<leftarrow> blocks s b;
     s \<leftarrow> (case b_locator blk of None \<Rightarrow> Some s | Some l \<Rightarrow> locator_delete l s);
     Some (s\<lparr>blocks := (blocks s)(b := None)\<rparr>) }"

definition DeleteBlock :: "addr \<Rightarrow> szb_buffer \<Rightarrow> szb_buffer option" where
  "DeleteBlock b s = do {
     blk \<leftarrow> blocks s b;
     let key = (b_param blk, b_start blk);
     s \<leftarrow> (case b_type blk of
            MIN10_BLOCK \<Rightarrow> do {
              assert_that (map_of (datastorage s) key \<noteq> None);
              Some (s\<lparr>datastorage := AList.delete key (datastorage s)\<rparr>) }
          | SEC10_BLOCK \<Rightarrow> do {
              assert_that (map_of (probestorage s) key \<noteq> None);
              Some (s\<lparr>probestorage := AList.delete key (probestorage s)\<rparr>) }
          | UNUSED_BLOCK_TYPE \<Rightarrow> None);
     block_delete b s }"

definition stored :: "szb_buffer \<Rightarrow> nat" where
  "stored s = length (datastorage s) + length (probestorage s)"

definition same_tables :: "szb_buffer \<Rightarrow> szb_buffer \<Rightarrow> bool" where
  "same_tables s s' \<longleftrightarrow> datastorage s' = datastorage s \<and> probestorage s' = probestorage s"

lemma write_to_tables: "write_to f p s = Some s' \<Longrightarrow> same_tables s s'"
  by (auto simp: write_to_def put_locator_def same_tables_def split: option.splits if_splits)

lemma unlink_param_tables: "unlink_param l s = Some s' \<Longrightarrow> same_tables s s'"
  by (auto simp: unlink_param_def same_tables_def Let_def Option.bind_eq_Some_conv
    dest!: write_to_tables split: option.splits if_splits)

lemma unlink_usage_tables: "unlink_usage l s = Some s' \<Longrightarrow> same_tables s s'"
  by (auto simp: unlink_usage_def same_tables_def assert_that_def Option.bind_eq_Some_conv
    dest!: write_to_tables split: if_splits)

lemma locator_delete_tables: "locator_delete l s = Some s' \<Longrightarrow> same_tables s s'"
  by (auto simp: locator_delete_def same_tables_def Option.bind_eq_Some_conv
    dest!: unlink_param_tables unlink_usage_tables)

lemma delete_shorter: "map_of xs k = Some v \<Longrightarrow> length (AList.delete k xs) < length xs"
  by (induction xs) (auto simp: AList.delete_eq le_imp_less_Suc length_filter_le)

lemma DeleteBlock_stored:
  assumes "DeleteBlock b s = Some s'"
  shows "stored s' < stored s"
proof -
  have f: "stored s2 = stored s1" if "block_delete c s1 = Some s2" for c s1 s2
    using that by (auto simp: block_delete_def stored_def Option.bind_eq_Some_conv same_tables_def dest!: locator_delete_tables split: option.splits)
  obtain blk where blk: "blocks s b = Some blk" using assms by (auto simp: DeleteBlock_def Option.bind_eq_Some_conv)
  show ?thesis
    using assms
    by (cases "b_type blk")
      (auto simp: DeleteBlock_def blk Let_def Option.bind_eq_Some_conv assert_that_def stored_def dest!: f intro: delete_shorter split: if_splits)
qed

text \<open>The loop of the constructor of a locator and of \<open>Unlock\<close>. It ends because every deletion
  removes an entry of a table.\<close>

function evict :: "szb_buffer \<Rightarrow> szb_buffer option" where
  "evict s =
     (if blocks_c s > max_blocks s then
        (case Option.bind (oldest_block s) (locators s) of
           None \<Rightarrow> None
         | Some lo \<Rightarrow> (case DeleteBlock (l_block lo) s of None \<Rightarrow> None | Some s' \<Rightarrow> evict s'))
      else Some s)"
  by auto
termination by (relation "measure stored") (auto dest: DeleteBlock_stored)

declare evict.simps [simp del]

text \<open>The constructor.\<close>

definition link_usage :: "addr \<Rightarrow> szb_buffer \<Rightarrow> szb_buffer option" where
  "link_usage this s =
     (if newest_block s = None then Some (s\<lparr>newest_block := Some this, oldest_block := Some this\<rparr>)
      else do {
        s \<leftarrow> write_to (\<lambda>n. n\<lparr>older := newest_block s\<rparr>) (Some this) s;
        s \<leftarrow> write_to (\<lambda>n. n\<lparr>newer := Some this\<rparr>) (newest_block s) s;
        Some (s\<lparr>newest_block := Some this\<rparr>) })"

definition link_param :: "tparam \<Rightarrow> addr \<Rightarrow> szb_buffer \<Rightarrow> szb_buffer option" where
  "link_param p this s =
     (if paramindex s p = None then Some (s\<lparr>paramindex := (paramindex s)(p := Some this)\<rparr>)
      else do {
        s \<leftarrow> write_to (\<lambda>n. n\<lparr>next_same_param := paramindex s p\<rparr>) (Some this) s;
        s \<leftarrow> write_to (\<lambda>n. n\<lparr>prev_same_param := Some this\<rparr>) (paramindex s p) s;
        Some (s\<lparr>paramindex := (paramindex s)(p := Some this)\<rparr>) })"

definition locator_new :: "addr \<Rightarrow> addr \<Rightarrow> szb_buffer \<Rightarrow> szb_buffer option" where
  "locator_new this b s = do {
     let s = s\<lparr>locators := (locators s)(this \<mapsto> \<lparr>l_block = b, newer = None, older = None,
       next_same_param = None, prev_same_param = None\<rparr>)\<rparr>;
     s \<leftarrow> link_usage this s;
     blk \<leftarrow> blocks s b;
     s \<leftarrow> link_param (b_param blk) this s;
     let s = s\<lparr>blocks_c := blocks_c s + 1\<rparr>;
     if locked s = 0 then evict s else Some s }"

subsection \<open>The buffer\<close>

definition AddBlock :: "addr \<Rightarrow> addr \<Rightarrow> szb_buffer \<Rightarrow> szb_buffer option" where
  "AddBlock b loc s = do {
     blk \<leftarrow> blocks s b;
     let key = (b_param blk, b_start blk);
     s \<leftarrow> (case b_type blk of
            MIN10_BLOCK \<Rightarrow> Some (s\<lparr>datastorage := AList.update key (Some b) (datastorage s)\<rparr>)
          | SEC10_BLOCK \<Rightarrow> Some (s\<lparr>probestorage := AList.update key (Some b) (probestorage s)\<rparr>)
          | UNUSED_BLOCK_TYPE \<Rightarrow> None);
     s \<leftarrow> locator_new loc b s;
     blk \<leftarrow> blocks s b;
     Some (s\<lparr>blocks := (blocks s)(b \<mapsto> blk\<lparr>b_locator := Some loc\<rparr>)\<rparr>) }"

definition MarkAsUsed :: "addr \<Rightarrow> szb_buffer \<Rightarrow> szb_buffer option" where
  "MarkAsUsed b s = do { blk \<leftarrow> blocks s b; l \<leftarrow> b_locator blk; Used l s }"

text \<open>The subscript operator of the tables: a missing key is inserted with a null pointer.\<close>

definition table_entry :: "buffer_key \<Rightarrow> (buffer_key \<times> addr option) list \<Rightarrow>
  addr option \<times> (buffer_key \<times> addr option) list" where
  "table_entry k t = (case map_of t k of Some p \<Rightarrow> (p, t) | None \<Rightarrow> (None, AList.update k None t))"

definition FindDataBlock :: "tparam \<Rightarrow> int \<Rightarrow> int \<Rightarrow> szb_buffer \<Rightarrow> (addr option \<times> szb_buffer) option" where
  "FindDataBlock p year month s =
     (let (block, t) = table_entry (p, probe2time 0 year month) (datastorage s); s = s\<lparr>datastorage := t\<rparr> in
      case block of None \<Rightarrow> Some (None, s)
      | Some b \<Rightarrow> do { s \<leftarrow> MarkAsUsed b s; Some (Some b, s) })"

definition FindProbeBlock :: "tparam \<Rightarrow> time_t \<Rightarrow> szb_buffer \<Rightarrow> (addr option \<times> szb_buffer) option" where
  "FindProbeBlock p start s =
     (let (block, t) = table_entry (p, start) (probestorage s); s = s\<lparr>probestorage := t\<rparr> in
      case block of None \<Rightarrow> Some (None, s)
      | Some b \<Rightarrow> do { s \<leftarrow> MarkAsUsed b s; Some (Some b, s) })"

definition Lock :: "szb_buffer \<Rightarrow> szb_buffer" where
  "Lock s = s\<lparr>locked := locked s + 1\<rparr>"

definition Unlock :: "szb_buffer \<Rightarrow> szb_buffer option" where
  "Unlock s = do {
     let s = s\<lparr>locked := locked s - 1\<rparr>;
     assert_that (locked s \<ge> 0);
     if locked s \<noteq> 0 then Some s else evict s }"

text \<open>\<open>freeBlocks\<close>: the first entry of a table is deleted until the table is empty.\<close>

definition delete_ptr :: "addr option \<Rightarrow> szb_buffer \<Rightarrow> szb_buffer option" where
  "delete_ptr p s = (case p of None \<Rightarrow> Some s | Some b \<Rightarrow> block_delete b s)"

fun free_data :: "(buffer_key \<times> addr option) list \<Rightarrow> szb_buffer \<Rightarrow> szb_buffer option" where
  "free_data [] s = Some (s\<lparr>datastorage := []\<rparr>)"
| "free_data ((k, p) # t) s = do { s \<leftarrow> delete_ptr p s; free_data t (s\<lparr>datastorage := t\<rparr>) }"

fun free_probes :: "(buffer_key \<times> addr option) list \<Rightarrow> szb_buffer \<Rightarrow> szb_buffer option" where
  "free_probes [] s = Some (s\<lparr>probestorage := []\<rparr>)"
| "free_probes ((k, p) # t) s = do { s \<leftarrow> delete_ptr p s; free_probes t (s\<lparr>probestorage := t\<rparr>) }"

definition freeBlocks :: "szb_buffer \<Rightarrow> szb_buffer option" where
  "freeBlocks s = do { s \<leftarrow> free_data (datastorage s) s; free_probes (probestorage s) s }"

text \<open>\<open>GetConfigurationDate\<close> is an argument.\<close>

definition szb_reset_buffer :: "time_t \<Rightarrow> szb_buffer \<Rightarrow> szb_buffer option" where
  "szb_reset_buffer date s = do {
     let poison = cachepoison s;
     s \<leftarrow> freeBlocks (s\<lparr>cachepoison := True\<rparr>);
     let s = s\<lparr>cachepoison := poison\<rparr>;
     assert_that (blocks_c s = 0);
     Some (s\<lparr>configurationDate := date, last_err := 0\<rparr>) }"

text \<open>The loop of \<open>ClearParamFromCache\<close>; the files of the cache are not part of the model.\<close>

function delete_param_blocks :: "tparam \<Rightarrow> szb_buffer \<Rightarrow> szb_buffer option" where
  "delete_param_blocks p s =
     (case paramindex s p of None \<Rightarrow> Some s
      | Some l \<Rightarrow> (case locators s l of None \<Rightarrow> None
        | Some lo \<Rightarrow> (case DeleteBlock (l_block lo) s of None \<Rightarrow> None | Some s' \<Rightarrow> delete_param_blocks p s')))"
  by auto
termination by (relation "measure (stored \<circ> snd)") (auto dest: DeleteBlock_stored)

declare delete_param_blocks.simps [simp del]

definition ClearParamFromCache :: "tparam \<Rightarrow> szb_buffer \<Rightarrow> szb_buffer option" where
  "ClearParamFromCache p s = do {
     let poison = cachepoison s;
     s \<leftarrow> delete_param_blocks p (s\<lparr>cachepoison := True\<rparr>);
     Some (s\<lparr>cachepoison := poison\<rparr>) }"

subsection \<open>Getting blocks\<close>

text \<open>What the constructors of blocks do: no block, or a block at a fresh address (with the address
  of its locator) and whether it was initialised.\<close>

datatype creation = No_block | Created addr addr bool

definition new_block :: "tparam \<Rightarrow> time_t \<Rightarrow> block_type \<Rightarrow> addr \<Rightarrow> szb_buffer \<Rightarrow> szb_buffer" where
  "new_block p t ty b s = s\<lparr>blocks := (blocks s)(b \<mapsto> \<lparr>b_param = p, b_start = t, b_type = ty, b_locator = None\<rparr>)\<rparr>"

definition szb_get_datablock :: "tparam \<Rightarrow> int \<Rightarrow> int \<Rightarrow> creation \<Rightarrow> szb_buffer \<Rightarrow> (addr option \<times> szb_buffer) option" where
  "szb_get_datablock p year month cr s = do {
     (ret, s) \<leftarrow> FindDataBlock p year month s;
     if ret \<noteq> None then Some (ret, s)
     else case cr of No_block \<Rightarrow> Some (None, s)
       | Created b loc initialized \<Rightarrow> do {
           s \<leftarrow> AddBlock b loc (new_block p (probe2time 0 year month) MIN10_BLOCK b s);
           if initialized then Some (Some b, s) else do { s \<leftarrow> DeleteBlock b s; Some (None, s) } } }"

text \<open>\<open>szb_get_probeblock\<close> adds what \<open>szb_create_probe_block\<close> returns without a check.\<close>

definition szb_get_probeblock :: "tparam \<Rightarrow> time_t \<Rightarrow> creation \<Rightarrow> szb_buffer \<Rightarrow> (addr option \<times> szb_buffer) option" where
  "szb_get_probeblock p start cr s = do {
     (ret, s) \<leftarrow> FindProbeBlock p start s;
     if ret \<noteq> None then Some (ret, s)
     else case cr of No_block \<Rightarrow> None
       | Created b loc _ \<Rightarrow> do {
           s \<leftarrow> AddBlock b loc (new_block p start SEC10_BLOCK b s);
           Some (Some b, s) } }"

end
