(* ===== verification/Szb_Cache_Inv.thy ===== *)
theory Szb_Cache_Inv
  imports Szb_Cache
begin

text \<open>
  The invariant of the pointer structure of \<open>Szb_Cache\<close> and its preservation by every operation: the
  usage list and the lists of the parameters are doubly linked lists of the locators, every locator
  has a block of its own, and the tables hold exactly the blocks. The operations never fail on a
  buffer with the invariant.
\<close>

subsection \<open>Links in the heap\<close>

type_synonym lheap = "addr \<Rightarrow> locator option"

definition f_older :: "lheap \<Rightarrow> addr \<Rightarrow> addr option" where "f_older h a = older (the (h a))"
definition f_newer :: "lheap \<Rightarrow> addr \<Rightarrow> addr option" where "f_newer h a = newer (the (h a))"
definition f_next :: "lheap \<Rightarrow> addr \<Rightarrow> addr option" where "f_next h a = next_same_param (the (h a))"
definition f_prev :: "lheap \<Rightarrow> addr \<Rightarrow> addr option" where "f_prev h a = prev_same_param (the (h a))"
definition f_block :: "lheap \<Rightarrow> addr \<Rightarrow> addr" where "f_block h a = l_block (the (h a))"

lemmas f_defs = f_older_def f_newer_def f_next_def f_prev_def f_block_def

definition set_field :: "(locator \<Rightarrow> locator) \<Rightarrow> addr \<Rightarrow> lheap \<Rightarrow> lheap" where
  "set_field g a h = h(a \<mapsto> g (the (h a)))"

lemma dom_set_field [simp]: "dom (set_field g a h) = insert a (dom h)"
  by (simp add: set_field_def)

lemma set_older_fields [simp]:
  "f_older (set_field (\<lambda>n. n\<lparr>older := v\<rparr>) a h) = (f_older h)(a := v)"
  "f_newer (set_field (\<lambda>n. n\<lparr>older := v\<rparr>) a h) = f_newer h"
  "f_next (set_field (\<lambda>n. n\<lparr>older := v\<rparr>) a h) = f_next h"
  "f_prev (set_field (\<lambda>n. n\<lparr>older := v\<rparr>) a h) = f_prev h"
  "f_block (set_field (\<lambda>n. n\<lparr>older := v\<rparr>) a h) = f_block h"
  by (auto simp: f_defs set_field_def fun_eq_iff)

lemma set_newer_fields [simp]:
  "f_older (set_field (\<lambda>n. n\<lparr>newer := v\<rparr>) a h) = f_older h"
  "f_newer (set_field (\<lambda>n. n\<lparr>newer := v\<rparr>) a h) = (f_newer h)(a := v)"
  "f_next (set_field (\<lambda>n. n\<lparr>newer := v\<rparr>) a h) = f_next h"
  "f_prev (set_field (\<lambda>n. n\<lparr>newer := v\<rparr>) a h) = f_prev h"
  "f_block (set_field (\<lambda>n. n\<lparr>newer := v\<rparr>) a h) = f_block h"
  by (auto simp: f_defs set_field_def fun_eq_iff)

lemma set_next_fields [simp]:
  "f_older (set_field (\<lambda>n. n\<lparr>next_same_param := v\<rparr>) a h) = f_older h"
  "f_newer (set_field (\<lambda>n. n\<lparr>next_same_param := v\<rparr>) a h) = f_newer h"
  "f_next (set_field (\<lambda>n. n\<lparr>next_same_param := v\<rparr>) a h) = (f_next h)(a := v)"
  "f_prev (set_field (\<lambda>n. n\<lparr>next_same_param := v\<rparr>) a h) = f_prev h"
  "f_block (set_field (\<lambda>n. n\<lparr>next_same_param := v\<rparr>) a h) = f_block h"
  by (auto simp: f_defs set_field_def fun_eq_iff)

lemma set_prev_fields [simp]:
  "f_older (set_field (\<lambda>n. n\<lparr>prev_same_param := v\<rparr>) a h) = f_older h"
  "f_newer (set_field (\<lambda>n. n\<lparr>prev_same_param := v\<rparr>) a h) = f_newer h"
  "f_next (set_field (\<lambda>n. n\<lparr>prev_same_param := v\<rparr>) a h) = f_next h"
  "f_prev (set_field (\<lambda>n. n\<lparr>prev_same_param := v\<rparr>) a h) = (f_prev h)(a := v)"
  "f_block (set_field (\<lambda>n. n\<lparr>prev_same_param := v\<rparr>) a h) = f_block h"
  by (auto simp: f_defs set_field_def fun_eq_iff)

lemma write_to_Some [simp]:
  "a \<in> dom (locators s) \<Longrightarrow> write_to g (Some a) s = Some (s\<lparr>locators := set_field g a (locators s)\<rparr>)"
  by (auto simp: write_to_def put_locator_def set_field_def)

lemma assert_that_bind [simp]: "P \<Longrightarrow> assert_that P \<bind> k = k ()"
  by (simp add: assert_that_def)

text \<open>What two heaps agree on besides one pair of links.\<close>

definition same_usage :: "lheap \<Rightarrow> lheap \<Rightarrow> bool" where
  "same_usage h h' \<longleftrightarrow> dom h' = dom h \<and> f_older h' = f_older h \<and> f_newer h' = f_newer h \<and> f_block h' = f_block h"

definition same_params :: "lheap \<Rightarrow> lheap \<Rightarrow> bool" where
  "same_params h h' \<longleftrightarrow> dom h' = dom h \<and> f_next h' = f_next h \<and> f_prev h' = f_prev h \<and> f_block h' = f_block h"

definition same_tables_blocks :: "szb_buffer \<Rightarrow> szb_buffer \<Rightarrow> bool" where
  "same_tables_blocks s s' \<longleftrightarrow> blocks s' = blocks s \<and> datastorage s' = datastorage s \<and>
     probestorage s' = probestorage s \<and> max_blocks s' = max_blocks s \<and> locked s' = locked s"

text \<open>A computation succeeds with a result that has a property.\<close>

definition succeeds :: "'a option \<Rightarrow> ('a \<Rightarrow> bool) \<Rightarrow> bool" where
  "succeeds r P \<longleftrightarrow> (case r of None \<Rightarrow> False | Some x \<Rightarrow> P x)"

lemma succeeds_Some [simp]: "succeeds (Some x) P = P x"
  by (simp add: succeeds_def)

lemma succeedsE:
  assumes "succeeds r P" obtains x where "r = Some x" "P x"
  using assms by (auto simp: succeeds_def split: option.splits)

lemma unlink_param_links:
  assumes "dlist (f_next (locators s)) (f_prev (locators s)) ys" "l \<in> set ys" "set ys \<subseteq> dom (locators s)"
    and "paramindex s p = first_of ys" "blocks s (f_block (locators s) l) = Some blk" "b_param blk = p"
  shows "succeeds (unlink_param l s) (\<lambda>s'. same_usage (locators s) (locators s') \<and> same_tables_blocks s s' \<and>
    f_next (locators s') = unlink_next (f_next (locators s)) (f_prev (locators s)) l \<and>
    f_prev (locators s') = unlink_next (f_prev (locators s)) (f_next (locators s)) l \<and>
    paramindex s' = (paramindex s)(p := first_of (remove1 l ys)) \<and> newest_block s' = newest_block s \<and>
    oldest_block s' = oldest_block s \<and> blocks_c s' = blocks_c s)"
proof -
  obtain lo where lo: "locators s l = Some lo" using assms(2,3) by blast
  have lf: "f_next (locators s) l = next_same_param lo" "f_prev (locators s) l = prev_same_param lo"
    "f_block (locators s) l = l_block lo"
    using lo by (simp_all add: f_defs)
  have ends: "a \<in> dom (locators s)" if "next_same_param lo = Some a \<or> prev_same_param lo = Some a" for a
    using dlist_first(3,4) [OF assms(1,2), of a] assms(3) that lf by auto
  have r: "first_of (remove1 l ys) = (if prev_same_param lo = None then next_same_param lo else paramindex s p)"
    using dlist_remove_ends(1) [OF assms(1,2)] lf assms(4) by simp
  have b: "blocks s (l_block lo) = Some blk" using assms(5) lf by simp
  show ?thesis unfolding r
    by (cases "prev_same_param lo"; cases "next_same_param lo")
      (use lo lf b assms(6) ends in \<open>simp_all add: unlink_param_def same_usage_def same_tables_blocks_def
        unlink_next_def insert_absorb fun_upd_idem\<close>)
qed

lemma unlink_usage_links:
  assumes "dlist (f_older (locators s)) (f_newer (locators s)) xs" "l \<in> set xs" "set xs \<subseteq> dom (locators s)"
    and "newest_block s = first_of xs" "oldest_block s = last_of xs"
  shows "succeeds (unlink_usage l s) (\<lambda>s'. same_params (locators s) (locators s') \<and> same_tables_blocks s s' \<and>
    f_older (locators s') = unlink_next (f_older (locators s)) (f_newer (locators s)) l \<and>
    f_newer (locators s') = unlink_next (f_newer (locators s)) (f_older (locators s)) l \<and>
    newest_block s' = first_of (remove1 l xs) \<and> oldest_block s' = last_of (remove1 l xs) \<and>
    paramindex s' = paramindex s \<and> blocks_c s' = blocks_c s)"
proof -
  obtain lo where lo: "locators s l = Some lo" using assms(2,3) by blast
  have lf: "f_older (locators s) l = older lo" "f_newer (locators s) l = newer lo"
    using lo by (simp_all add: f_defs)
  have ends: "a \<in> dom (locators s)" if "older lo = Some a \<or> newer lo = Some a" for a
    using dlist_first(3,4) [OF assms(1,2), of a] assms(3) that lf by auto
  have at: "Some l = newest_block s \<longleftrightarrow> newer lo = None" "Some l = oldest_block s \<longleftrightarrow> older lo = None"
    using dlist_first(1,2) [OF assms(1,2)] lf assms(4,5) by auto
  have r: "first_of (remove1 l xs) = (if newer lo = None then older lo else newest_block s)"
    "last_of (remove1 l xs) = (if older lo = None then newer lo else oldest_block s)"
    using dlist_remove_ends [OF assms(1,2)] lf assms(4,5) by simp_all
  show ?thesis unfolding r
    by (cases "newer lo"; cases "older lo")
      (use lo lf ends at in \<open>simp_all add: unlink_usage_def same_params_def same_tables_blocks_def
        unlink_next_def insert_absorb fun_upd_idem\<close>)
qed

lemma link_usage_links:
  assumes "dlist (f_older (locators s)) (f_newer (locators s)) xs" "l \<notin> set xs" "set xs \<subseteq> dom (locators s)"
    and "newest_block s = first_of xs" "oldest_block s = last_of xs" "l \<in> dom (locators s)"
    and "f_older (locators s) l = None" "f_newer (locators s) l = None"
  shows "succeeds (link_usage l s) (\<lambda>s'. same_params (locators s) (locators s') \<and> same_tables_blocks s s' \<and>
    dlist (f_older (locators s')) (f_newer (locators s')) (l # xs) \<and>
    newest_block s' = Some l \<and> oldest_block s' = last_of (l # xs) \<and>
    paramindex s' = paramindex s \<and> blocks_c s' = blocks_c s)"
proof (cases xs)
  case Nil
  then show ?thesis using assms by (simp add: link_usage_def same_params_def same_tables_blocks_def)
next
  case (Cons a ys)
  then have "newest_block s = Some a" "a \<in> dom (locators s)" using assms(3,4) by auto
  then show ?thesis
    using assms(1,2,5,6,8) Cons dlist_push [OF assms(1,2)]
    by (simp add: link_usage_def same_params_def same_tables_blocks_def insert_absorb)
qed

lemma link_param_links:
  assumes "dlist (f_next (locators s)) (f_prev (locators s)) ys" "l \<notin> set ys" "set ys \<subseteq> dom (locators s)"
    and "paramindex s p = first_of ys" "l \<in> dom (locators s)"
    and "f_next (locators s) l = None" "f_prev (locators s) l = None"
  shows "succeeds (link_param p l s) (\<lambda>s'. same_usage (locators s) (locators s') \<and> same_tables_blocks s s' \<and>
    dlist (f_next (locators s')) (f_prev (locators s')) (l # ys) \<and>
    (\<forall>a. a \<notin> insert l (set ys) \<longrightarrow> f_next (locators s') a = f_next (locators s) a \<and> f_prev (locators s') a = f_prev (locators s) a) \<and>
    paramindex s' = (paramindex s)(p := Some l) \<and> newest_block s' = newest_block s \<and>
    oldest_block s' = oldest_block s \<and> blocks_c s' = blocks_c s)"
proof (cases ys)
  case Nil
  then show ?thesis using assms by (simp add: link_param_def same_usage_def same_tables_blocks_def)
next
  case (Cons a zs)
  then have "paramindex s p = Some a" "a \<in> dom (locators s)" using assms(3,4) by auto
  then show ?thesis
    using assms(1,2,5,7) Cons dlist_push [OF assms(1,2)]
    by (simp add: link_param_def same_usage_def same_tables_blocks_def insert_absorb)
qed

text \<open>Moving a locator to the front of the usage list.\<close>

lemma Used_links:
  assumes "dlist (f_older (locators s)) (f_newer (locators s)) xs" "l \<in> set xs" "set xs \<subseteq> dom (locators s)"
    and "newest_block s = first_of xs" "oldest_block s = last_of xs"
  shows "succeeds (Used l s) (\<lambda>s'. same_params (locators s) (locators s') \<and> same_tables_blocks s s' \<and>
    dlist (f_older (locators s')) (f_newer (locators s')) (l # remove1 l xs) \<and>
    newest_block s' = Some l \<and> oldest_block s' = last_of (l # remove1 l xs) \<and>
    paramindex s' = paramindex s \<and> blocks_c s' = blocks_c s)"
proof -
  obtain lo where lo: "locators s l = Some lo" using assms(2,3) by blast
  have lf: "f_older (locators s) l = older lo" "f_newer (locators s) l = newer lo"
    using lo by (simp_all add: f_defs)
  have at: "Some l = newest_block s \<longleftrightarrow> newer lo = None" "Some l = oldest_block s \<longleftrightarrow> older lo = None"
    using dlist_first(1,2) [OF assms(1,2)] lf assms(4,5) by auto
  have ends: "a \<in> dom (locators s) \<and> a \<noteq> l" if "older lo = Some a \<or> newer lo = Some a" for a
    using dlist_first(3,4) [OF assms(1,2), of a] assms(3) that lf by auto
  show ?thesis
  proof (cases "newer lo")
    case None
    then have "first_of xs = Some l" using at assms(4) by simp
    then have "l # remove1 l xs = xs" by (cases xs) auto
    then show ?thesis using None lo at assms by (simp add: Used_def same_params_def same_tables_blocks_def first_of_def split: list.splits)
  next
    case (Some n)
    define r where "r = remove1 l xs"
    have rl: "l \<notin> set r" using assms(1,2) by (simp add: r_def)
    have re: "first_of r = newest_block s" "last_of r = (if older lo = None then Some n else oldest_block s)"
      using dlist_remove_ends [OF assms(1,2)] lf assms(4,5) Some unfolding r_def by simp_all
    obtain m where m: "newest_block s = Some m" using assms(2,4) by (cases xs) auto
    have "r \<noteq> []" using re(1) m by auto
    then have mr: "m \<in> set r" using re(1) m by (cases r) auto
    then have md: "m \<in> dom (locators s)" "m \<noteq> l" using assms(3) rl notin_set_remove1 [of m xs l] unfolding r_def by auto
    have lr: "last_of (l # r) = last_of r" using \<open>r \<noteq> []\<close> by (simp add: last_of_def)
    have d: "dlist (unlink_next (f_older (locators s)) (f_newer (locators s)) l)
      (unlink_next (f_newer (locators s)) (f_older (locators s)) l) r"
      using dlist_unlink [OF assms(1,2)] by (simp add: r_def)
    have p: "dlist ((unlink_next (f_older (locators s)) (f_newer (locators s)) l)(l := Some m))
      ((unlink_next (f_newer (locators s)) (f_older (locators s)) l)(l := None, m := Some l)) (l # r)"
      using dlist_push [OF d rl] by (simp only: re(1) m option.case)
    have at': "newest_block s \<noteq> Some l" "oldest_block s = Some l \<longleftrightarrow> older lo = None" using at Some by auto
    have "succeeds (Used l s) (\<lambda>s'. same_params (locators s) (locators s') \<and> same_tables_blocks s s' \<and>
      f_older (locators s') = (unlink_next (f_older (locators s)) (f_newer (locators s)) l)(l := Some m) \<and>
      f_newer (locators s') = (unlink_next (f_newer (locators s)) (f_older (locators s)) l)(l := None, m := Some l) \<and>
      newest_block s' = Some l \<and> oldest_block s' = (if older lo = None then Some n else oldest_block s) \<and>
      paramindex s' = paramindex s \<and> blocks_c s' = blocks_c s)"
      using Some lo lf at' ends m md domI [of "locators s" l lo]
      by (cases "older lo") (simp_all add: Used_def same_params_def same_tables_blocks_def unlink_next_def insert_absorb eq_commute [of "Some l"])
    then show ?thesis
      by (rule succeedsE) (use p in \<open>simp add: r_def [symmetric] lr re(2) del: last_of_simps dseg.simps\<close>)
  qed
qed

subsection \<open>The invariant\<close>

definition lparam :: "szb_buffer \<Rightarrow> addr \<Rightarrow> tparam" where
  "lparam s l = b_param (the (blocks s (f_block (locators s) l)))"

text \<open>\<open>xs\<close> are the locators from the newest to the oldest, \<open>f p\<close> those of the parameter \<open>p\<close>.\<close>

definition usage_inv :: "szb_buffer \<Rightarrow> addr list \<Rightarrow> bool" where
  "usage_inv s xs \<longleftrightarrow> dom (locators s) = set xs \<and> dlist (f_older (locators s)) (f_newer (locators s)) xs \<and>
     newest_block s = first_of xs \<and> oldest_block s = last_of xs \<and> blocks_c s = int (length xs)"

definition param_inv :: "szb_buffer \<Rightarrow> addr list \<Rightarrow> (tparam \<Rightarrow> addr list) \<Rightarrow> bool" where
  "param_inv s xs f \<longleftrightarrow> (\<forall>p. dlist (f_next (locators s)) (f_prev (locators s)) (f p) \<and>
     set (f p) = {l \<in> set xs. lparam s l = p} \<and> paramindex s p = first_of (f p))"

text \<open>Every locator has a block of its own, and the block its locator, except for the locators in
  \<open>U\<close>, whose constructor has not returned.\<close>

definition block_inv :: "szb_buffer \<Rightarrow> addr list \<Rightarrow> addr set \<Rightarrow> bool" where
  "block_inv s xs U \<longleftrightarrow> inj_on (f_block (locators s)) (set xs) \<and> dom (blocks s) = f_block (locators s) ` set xs \<and>
     (\<forall>l \<in> set xs. b_locator (the (blocks s (f_block (locators s) l))) = (if l \<in> U then None else Some l))"

text \<open>The entries of a table that are not null are the blocks of its type, under their keys.\<close>

definition points_to :: "(addr \<Rightarrow> cblock option) \<Rightarrow> block_type \<Rightarrow> (buffer_key \<Rightarrow> addr option option) \<Rightarrow> bool" where
  "points_to h ty m \<longleftrightarrow> (\<forall>k b. m k = Some (Some b) \<longleftrightarrow>
     (\<exists>blk. h b = Some blk \<and> b_type blk = ty \<and> k = (b_param blk, b_start blk)))"

definition holds_blocks :: "(addr \<Rightarrow> cblock option) \<Rightarrow> block_type \<Rightarrow> (buffer_key \<times> addr option) list \<Rightarrow> bool" where
  "holds_blocks h ty t \<longleftrightarrow> distinct (map fst t) \<and> points_to h ty (map_of t)"

definition table_inv :: "szb_buffer \<Rightarrow> bool" where
  "table_inv s \<longleftrightarrow> holds_blocks (blocks s) MIN10_BLOCK (datastorage s) \<and> holds_blocks (blocks s) SEC10_BLOCK (probestorage s) \<and>
     (\<forall>b blk. blocks s b = Some blk \<longrightarrow> b_type blk \<noteq> UNUSED_BLOCK_TYPE)"

definition cache_inv :: "szb_buffer \<Rightarrow> addr list \<Rightarrow> (tparam \<Rightarrow> addr list) \<Rightarrow> addr set \<Rightarrow> bool" where
  "cache_inv s xs f U \<longleftrightarrow> usage_inv s xs \<and> param_inv s xs f \<and> block_inv s xs U \<and> table_inv s"

lemma unlink_next_other:
  assumes "dlist nx pv ys" "l \<in> set ys" "x \<notin> set ys"
  shows "unlink_next nx pv l x = nx x" "unlink_next pv nx l x = pv x"
  using dlist_first(3,4) [OF assms(1,2)] assms(3) by (auto simp: unlink_next_def split: option.splits)

lemma f_removed: "a \<noteq> l \<Longrightarrow> f_older (h(l := None)) a = f_older h a \<and> f_newer (h(l := None)) a = f_newer h a \<and>
    f_next (h(l := None)) a = f_next h a \<and> f_prev (h(l := None)) a = f_prev h a \<and> f_block (h(l := None)) a = f_block h a"
  by (simp add: f_defs)

lemma dlist_cong:
  "(\<And>x. x \<in> set xs \<Longrightarrow> nx x = nx' x \<and> pv x = pv' x) \<Longrightarrow> dlist nx' pv' xs \<Longrightarrow> dlist nx pv xs"
  using dseg_cong [of xs nx nx' pv pv' None None] by simp

lemma locator_delete_links:
  assumes u: "usage_inv s xs" and p: "param_inv s xs f" and l: "l \<in> set xs"
    and b: "blocks s (f_block (locators s) l) \<noteq> None"
  shows "succeeds (locator_delete l s) (\<lambda>s'. same_tables_blocks s s' \<and> usage_inv s' (remove1 l xs) \<and>
    (\<forall>q. dlist (f_next (locators s')) (f_prev (locators s')) (remove1 l (f q)) \<and> paramindex s' q = first_of (remove1 l (f q))) \<and>
    (\<forall>a. a \<noteq> l \<longrightarrow> f_block (locators s') a = f_block (locators s) a))"
proof -
  define p where "p = lparam s l"
  let ?s = "s\<lparr>blocks_c := blocks_c s - 1\<rparr>"
  obtain blk where blk: "blocks s (f_block (locators s) l) = Some blk" "b_param blk = p"
    using b by (auto simp: p_def lparam_def)
  have fp: "dlist (f_next (locators s)) (f_prev (locators s)) (f p)" "set (f p) \<subseteq> set xs" "paramindex s p = first_of (f p)"
    "l \<in> set (f p)"
    using assms(2) l by (auto simp: param_inv_def p_def)
  have dx: "dom (locators s) = set xs" "dlist (f_older (locators s)) (f_newer (locators s)) xs"
    "newest_block s = first_of xs" "oldest_block s = last_of xs" "blocks_c s = int (length xs)"
    using u by (simp_all add: usage_inv_def)
  obtain s1 where s1: "unlink_param l ?s = Some s1" "same_usage (locators s) (locators s1)" "same_tables_blocks s s1"
    "f_next (locators s1) = unlink_next (f_next (locators s)) (f_prev (locators s)) l"
    "f_prev (locators s1) = unlink_next (f_prev (locators s)) (f_next (locators s)) l"
    "paramindex s1 = (paramindex s)(p := first_of (remove1 l (f p)))" "newest_block s1 = newest_block s"
    "oldest_block s1 = oldest_block s" "blocks_c s1 = blocks_c s - 1"
    using unlink_param_links [of ?s "f p" l p blk] fp dx(1) blk
    by (auto simp: same_tables_blocks_def elim!: succeedsE)
  obtain s2 where s2: "unlink_usage l s1 = Some s2" "same_params (locators s1) (locators s2)" "same_tables_blocks s1 s2"
    "f_older (locators s2) = unlink_next (f_older (locators s)) (f_newer (locators s)) l"
    "f_newer (locators s2) = unlink_next (f_newer (locators s)) (f_older (locators s)) l"
    "newest_block s2 = first_of (remove1 l xs)" "oldest_block s2 = last_of (remove1 l xs)"
    "paramindex s2 = paramindex s1" "blocks_c s2 = blocks_c s1"
    using unlink_usage_links [of s1 xs l] s1 dx l by (auto simp: same_usage_def elim!: succeedsE)
  have dist: "distinct xs" using dx(2) by simp
  have us: "dlist (f_older ((locators s2)(l := None))) (f_newer ((locators s2)(l := None))) (remove1 l xs)"
    by (rule dlist_cong [OF _ dlist_unlink [OF dx(2) l]]) (use s2 f_removed dist in auto)
  have ps: "dlist (f_next ((locators s2)(l := None))) (f_prev ((locators s2)(l := None))) (remove1 l (f q)) \<and>
    paramindex s2 q = first_of (remove1 l (f q))" for q
  proof (cases "q = p")
    case True
    have "dlist (f_next ((locators s2)(l := None))) (f_prev ((locators s2)(l := None))) (remove1 l (f p))"
      by (rule dlist_cong [OF _ dlist_unlink [OF fp(1,4)]]) (use s2(2) s1(4,5) f_removed fp(1) in \<open>auto simp: same_params_def\<close>)
    then show ?thesis using True s2 s1 by simp
  next
    case False
    then have fq: "l \<notin> set (f q)" "set (f q) \<inter> set (f p) = {}" "dlist (f_next (locators s)) (f_prev (locators s)) (f q)"
      "paramindex s q = first_of (f q)"
      using assms(2) by (auto simp: param_inv_def p_def)
    have "dlist (f_next ((locators s2)(l := None))) (f_prev ((locators s2)(l := None))) (f q)"
    proof (rule dlist_cong [OF _ fq(3)])
      fix x assume "x \<in> set (f q)"
      then have x: "x \<notin> set (f p)" "x \<noteq> l" using fq by auto
      then show "f_next ((locators s2)(l := None)) x = f_next (locators s) x \<and> f_prev ((locators s2)(l := None)) x = f_prev (locators s) x"
        using f_removed [OF x(2), of "locators s2"] unlink_next_other [OF fp(1,4) x(1)] s2(2) s1(4,5) by (simp add: same_params_def)
    qed
    then show ?thesis using False s2 s1 fq by (simp add: remove1_idem)
  qed
  have "int (length xs) - 1 = int (length (remove1 l xs))"
    using l by (cases "length xs") (auto simp: length_remove1)
  then show ?thesis
    using s1 s2 us ps dx(1,5) dist f_removed [of _ l "locators s2"]
    by (auto simp: locator_delete_def usage_inv_def same_tables_blocks_def same_usage_def same_params_def)
qed

subsection \<open>Deletion\<close>

lemma points_to_removed:
  assumes "points_to h ty m" "h b = Some blk"
  shows "points_to (h(b := None)) ty (if b_type blk = ty then m((b_param blk, b_start blk) := None) else m)"
proof -
  have m: "m k = Some (Some c) \<longleftrightarrow> (\<exists>blk. h c = Some blk \<and> b_type blk = ty \<and> k = (b_param blk, b_start blk))" for k c
    using assms(1) unfolding points_to_def by blast
  let ?k = "(b_param blk, b_start blk)"
  have "(if b_type blk = ty then m(?k := None) else m) k = Some (Some c) \<longleftrightarrow>
    (\<exists>blk. (h(b := None)) c = Some blk \<and> b_type blk = ty \<and> k = (b_param blk, b_start blk))" for k c
  proof (cases "b_type blk = ty \<and> k = ?k")
    case True
    then have "m ?k = Some (Some b)" unfolding m using assms(2) by blast
    then have "m ?k = Some (Some c) \<Longrightarrow> c = b" by simp
    then show ?thesis using True m [of k c] by (auto simp del: fun_upd_apply) (auto split: if_splits)
  next
    case False
    then have "(if b_type blk = ty then m(?k := None) else m) k = m k" by auto
    then show ?thesis using False m [of k c] assms(2) by auto
  qed
  then show ?thesis unfolding points_to_def by blast
qed

lemma holds_blocks_removed:
  assumes "holds_blocks h ty t" "h b = Some blk"
  shows "holds_blocks (h(b := None)) ty (if b_type blk = ty then AList.delete (b_param blk, b_start blk) t else t)"
  using assms points_to_removed [of h ty "map_of t" b blk]
  by (auto simp: holds_blocks_def distinct_delete delete_conv')

lemma table_entry_exists:
  assumes "holds_blocks h ty t" "h b = Some blk" "b_type blk = ty"
  shows "map_of t (b_param blk, b_start blk) = Some (Some b)"
  using assms unfolding holds_blocks_def points_to_def by blast

definition same_limits :: "szb_buffer \<Rightarrow> szb_buffer \<Rightarrow> bool" where
  "same_limits s s' \<longleftrightarrow> max_blocks s' = max_blocks s \<and> locked s' = locked s"

text \<open>The block a locator stands for, with its key.\<close>

definition entry :: "szb_buffer \<Rightarrow> addr \<Rightarrow> (block_type \<times> buffer_key) \<times> addr" where
  "entry s l = (let b = f_block (locators s) l; blk = the (blocks s b) in ((b_type blk, b_param blk, b_start blk), b))"

lemma block_delete_inv:
  assumes u: "usage_inv s xs" and p: "param_inv s xs f" and b: "block_inv s xs U" and l: "l \<in> set xs" "l \<notin> U"
  shows "succeeds (block_delete (f_block (locators s) l) s) (\<lambda>s'. usage_inv s' (remove1 l xs) \<and>
    param_inv s' (remove1 l xs) (\<lambda>q. remove1 l (f q)) \<and> block_inv s' (remove1 l xs) U \<and>
    datastorage s' = datastorage s \<and> probestorage s' = probestorage s \<and> same_limits s s' \<and>
    blocks s' = (blocks s)(f_block (locators s) l := None) \<and> map (entry s') (remove1 l xs) = map (entry s) (remove1 l xs))"
proof -
  let ?b = "f_block (locators s) l"
  obtain blk where blk: "blocks s ?b = Some blk" "b_locator blk = Some l"
  proof -
    obtain blk where "blocks s ?b = Some blk" using b l(1) unfolding block_inv_def by blast
    then show thesis using that [of blk] b l by (auto simp: block_inv_def)
  qed
  have dist: "distinct xs" using u by (simp add: usage_inv_def)
  obtain s1 where s1: "locator_delete l s = Some s1" "same_tables_blocks s s1" "usage_inv s1 (remove1 l xs)"
    "\<And>q. dlist (f_next (locators s1)) (f_prev (locators s1)) (remove1 l (f q)) \<and> paramindex s1 q = first_of (remove1 l (f q))"
    "\<And>a. a \<noteq> l \<Longrightarrow> f_block (locators s1) a = f_block (locators s) a"
    using locator_delete_links [OF u p l(1)] blk by (auto elim!: succeedsE)
  have inj: "f_block (locators s) a \<noteq> ?b" if "a \<in> set xs" "a \<noteq> l" for a
    using that b l by (auto simp: block_inv_def dest: inj_onD)
  define s2 where "s2 = s1\<lparr>blocks := (blocks s1)(?b := None)\<rparr>"
  have lk: "f_block (locators s2) a = f_block (locators s) a" "blocks s2 (f_block (locators s) a) = blocks s (f_block (locators s) a)"
    if "a \<in> set xs" "a \<noteq> l" for a
    using that s1 inj by (simp_all add: s2_def same_tables_blocks_def)
  have "param_inv s2 (remove1 l xs) (\<lambda>q. remove1 l (f q))"
  proof -
    have "lparam s2 a = lparam s a" if "a \<in> set xs" "a \<noteq> l" for a using lk [OF that] by (simp add: lparam_def)
    moreover have "locators s2 = locators s1" "paramindex s2 = paramindex s1" by (simp_all add: s2_def)
    ultimately show ?thesis using p s1(4) dist by (auto simp: param_inv_def set_remove1_eq)
  qed
  moreover have "block_inv s2 (remove1 l xs) U"
  proof -
    have "inj_on (f_block (locators s2)) (set xs - {l})"
      using b lk(1) unfolding block_inv_def inj_on_def by simp
    moreover have "f_block (locators s2) ` (set xs - {l}) = f_block (locators s) ` set xs - {?b}"
      using image_cong [of "set xs - {l}" _ "f_block (locators s2)" "f_block (locators s)"] lk(1) inj l(1) by auto
    moreover have "dom (blocks s2) = dom (blocks s) - {?b}" using s1(2) by (auto simp: s2_def same_tables_blocks_def)
    ultimately show ?thesis using b lk dist by (simp add: block_inv_def)
  qed
  moreover have "usage_inv s2 (remove1 l xs)" using s1(3) by (simp add: usage_inv_def s2_def)
  moreover have "map (entry s2) (remove1 l xs) = map (entry s) (remove1 l xs)"
    using lk dist by (auto simp: entry_def)
  ultimately show ?thesis
    using s1(1,2) blk by (simp add: block_delete_def s2_def same_tables_blocks_def same_limits_def)
qed

lemma block_of_locator:
  assumes "block_inv s xs U" "l \<in> set xs"
  obtains blk where "blocks s (f_block (locators s) l) = Some blk" "b_locator blk = (if l \<in> U then None else Some l)"
    "entry s l = ((b_type blk, b_param blk, b_start blk), f_block (locators s) l)"
proof -
  obtain blk where "blocks s (f_block (locators s) l) = Some blk" using assms unfolding block_inv_def by blast
  then show thesis using that [of blk] assms by (auto simp: block_inv_def entry_def)
qed

lemma DeleteBlock_inv:
  assumes c: "cache_inv s xs f U" and l: "l \<in> set xs" "l \<notin> U"
  shows "succeeds (DeleteBlock (f_block (locators s) l) s) (\<lambda>s'. cache_inv s' (remove1 l xs) (\<lambda>q. remove1 l (f q)) U \<and>
    same_limits s s' \<and> map (entry s') (remove1 l xs) = map (entry s) (remove1 l xs))"
proof -
  let ?b = "f_block (locators s) l"
  have inv: "usage_inv s xs" "param_inv s xs f" "block_inv s xs U" "table_inv s" using c by (simp_all add: cache_inv_def)
  obtain blk where blk: "blocks s ?b = Some blk" using block_of_locator [OF inv(3) l(1)] by metis
  let ?k = "(b_param blk, b_start blk)"
  define s1 where "s1 = s\<lparr>datastorage := (if b_type blk = MIN10_BLOCK then AList.delete ?k (datastorage s) else datastorage s),
    probestorage := (if b_type blk = SEC10_BLOCK then AList.delete ?k (probestorage s) else probestorage s)\<rparr>"
  have s1: "locators s1 = locators s" "blocks s1 = blocks s" "entry s1 = entry s" "same_limits s s1"
    "usage_inv s1 xs" "param_inv s1 xs f" "block_inv s1 xs U"
    using inv by (simp_all add: s1_def entry_def fun_eq_iff same_limits_def usage_inv_def param_inv_def block_inv_def lparam_def)
  have ty: "b_type blk \<noteq> UNUSED_BLOCK_TYPE" using inv(4) blk by (auto simp: table_inv_def)
  have "DeleteBlock ?b s = block_delete ?b s1"
    using blk ty inv(4) table_entry_exists [of "blocks s" _ _ ?b blk]
    by (cases "b_type blk") (auto simp: DeleteBlock_def s1_def table_inv_def)
  moreover obtain s2 where s2: "block_delete ?b s1 = Some s2" "usage_inv s2 (remove1 l xs)"
    "param_inv s2 (remove1 l xs) (\<lambda>q. remove1 l (f q))" "block_inv s2 (remove1 l xs) U" "datastorage s2 = datastorage s1"
    "probestorage s2 = probestorage s1" "same_limits s1 s2" "blocks s2 = (blocks s)(?b := None)"
    "map (entry s2) (remove1 l xs) = map (entry s) (remove1 l xs)"
    using block_delete_inv [OF s1(5-7) l] s1(1-3) by (auto elim!: succeedsE)
  moreover have "table_inv s2"
    using inv(4) holds_blocks_removed [of "blocks s" _ _ ?b blk] blk s2(5,6,8) by (auto simp: table_inv_def s1_def split: if_splits)
  ultimately show ?thesis using s1(4) by (simp add: cache_inv_def same_limits_def)
qed

lemma oldest_locator:
  assumes "usage_inv s xs" "xs \<noteq> []"
  obtains lo where "oldest_block s = Some (last xs)" "locators s (last xs) = Some lo" "l_block lo = f_block (locators s) (last xs)"
proof -
  obtain lo where "locators s (last xs) = Some lo" using assms last_in_set unfolding usage_inv_def by blast
  then show thesis using that [of lo] assms by (auto simp: usage_inv_def last_of_def f_block_def)
qed

lemma evict_inv:
  assumes "cache_inv s xs f U" "1 \<le> max_blocks s" "U \<subseteq> set (take 1 xs)"
  shows "succeeds (evict s) (\<lambda>s'. \<exists>f'. cache_inv s' (take (nat (max_blocks s)) xs) f' U \<and> same_limits s s' \<and>
    map (entry s') (take (nat (max_blocks s)) xs) = map (entry s) (take (nat (max_blocks s)) xs))"
  using assms
proof (induction s arbitrary: xs f rule: evict.induct)
  case (1 s)
  have u: "usage_inv s xs" "distinct xs" "blocks_c s = int (length xs)" using 1(2) by (auto simp: cache_inv_def usage_inv_def)
  show ?case
  proof (cases "blocks_c s > max_blocks s")
    case False
    then show ?thesis using 1(2) u by (auto simp: evict.simps [of s] same_limits_def)
  next
    case True
    then have ne: "xs \<noteq> []" and len: "nat (max_blocks s) < length xs" "1 < length xs" using u 1(3) by auto
    have tk: "take 1 (butlast xs) = take 1 xs" "take (nat (max_blocks s)) (butlast xs) = take (nat (max_blocks s)) xs"
      using len by (simp_all add: take_butlast)
    have rem: "remove1 (last xs) xs = butlast xs" using u(2) ne by (cases xs rule: rev_cases) (auto simp: remove1_append)
    have lU: "last xs \<notin> U"
    proof
      assume "last xs \<in> U"
      then have "last xs \<in> set (take 1 (butlast xs))" using 1(4) tk by auto
      then show False using u(2) ne by (metis append_butlast_last_id distinct_append disjoint_iff in_set_takeD list.set_intros(1))
    qed
    obtain lo where lo: "oldest_block s = Some (last xs)" "locators s (last xs) = Some lo" "l_block lo = f_block (locators s) (last xs)"
      using oldest_locator [OF u(1) ne] by blast
    obtain s1 where s1: "DeleteBlock (l_block lo) s = Some s1" "cache_inv s1 (butlast xs) (\<lambda>q. remove1 (last xs) (f q)) U"
      "same_limits s s1" "map (entry s1) (butlast xs) = map (entry s) (butlast xs)"
      using DeleteBlock_inv [OF 1(2) last_in_set [OF ne] lU] lo rem by (auto elim!: succeedsE)
    have "succeeds (evict s1) (\<lambda>s'. \<exists>f'. cache_inv s' (take (nat (max_blocks s1)) (butlast xs)) f' U \<and> same_limits s1 s' \<and>
      map (entry s') (take (nat (max_blocks s1)) (butlast xs)) = map (entry s1) (take (nat (max_blocks s1)) (butlast xs)))"
      by (rule "1.IH" [OF True _ s1(1,2)]) (use lo s1(3) 1(3,4) tk in \<open>simp_all add: same_limits_def\<close>)
    moreover have m: "max_blocks s1 = max_blocks s" using s1(3) by (simp add: same_limits_def)
    ultimately obtain s2 f' where s2: "evict s1 = Some s2" "cache_inv s2 (take (nat (max_blocks s)) xs) f' U" "same_limits s1 s2"
      "map (entry s2) (take (nat (max_blocks s)) xs) = map (entry s1) (take (nat (max_blocks s)) xs)"
      unfolding m tk by (blast elim: succeedsE)
    have "map (entry s1) (take (nat (max_blocks s)) xs) = map (entry s) (take (nat (max_blocks s)) xs)"
      using arg_cong [OF s1(4), of "take (nat (max_blocks s))"] tk by (simp add: take_map del: map_eq_conv)
    moreover have "evict s = Some s2" using True lo s1(1) s2(1) by (simp add: evict.simps [of s])
    ultimately show ?thesis using s2 s1(3) by (simp add: same_limits_def del: map_eq_conv) blast
  qed
qed

lemma delete_param_blocks_inv:
  assumes "cache_inv s xs f {}"
  shows "succeeds (delete_param_blocks p s) (\<lambda>s'. \<exists>f'. cache_inv s' (filter (\<lambda>l. lparam s l \<noteq> p) xs) f' {} \<and> same_limits s s' \<and>
    map (entry s') (filter (\<lambda>l. lparam s l \<noteq> p) xs) = map (entry s) (filter (\<lambda>l. lparam s l \<noteq> p) xs))"
  using assms
proof (induction p s arbitrary: xs f rule: delete_param_blocks.induct)
  case (1 p s)
  have pi: "set (f p) = {l \<in> set xs. lparam s l = p}" "paramindex s p = first_of (f p)" and dist: "distinct xs"
    and dm: "dom (locators s) = set xs"
    using 1(2) by (simp_all add: cache_inv_def param_inv_def usage_inv_def)
  show ?case
  proof (cases "f p")
    case Nil
    then have "filter (\<lambda>l. lparam s l \<noteq> p) xs = xs" using pi(1) by (auto simp: filter_id_conv)
    then show ?thesis using 1(2) pi(2) Nil by (auto simp: delete_param_blocks.simps [of p s] same_limits_def)
  next
    case (Cons l ls)
    then have l: "l \<in> set xs" "lparam s l = p" "paramindex s p = Some l" using pi by auto
    obtain lo where lo: "locators s l = Some lo" "l_block lo = f_block (locators s) l" using l(1) dm by (auto simp: f_block_def)
    obtain s1 where s1: "DeleteBlock (l_block lo) s = Some s1" "cache_inv s1 (remove1 l xs) (\<lambda>q. remove1 l (f q)) {}"
      "same_limits s s1" "map (entry s1) (remove1 l xs) = map (entry s) (remove1 l xs)"
      using DeleteBlock_inv [OF 1(2) l(1)] lo by (auto elim!: succeedsE)
    have e: "entry s1 a = entry s a" if "a \<in> set xs" "a \<noteq> l" for a using s1(4) that dist by auto
    then have lp: "lparam s1 a = lparam s a" if "a \<in> set xs" "a \<noteq> l" for a
      using that unfolding entry_def lparam_def Let_def by blast
    have flt: "filter (\<lambda>a. lparam s1 a \<noteq> p) (remove1 l xs) = filter (\<lambda>a. lparam s a \<noteq> p) xs" (is "_ = ?ys")
    proof -
      have "filter (\<lambda>a. lparam s1 a \<noteq> p) (remove1 l xs) = filter (\<lambda>a. lparam s a \<noteq> p) (remove1 l xs)"
        using lp dist by (auto intro!: filter_cong)
      then show ?thesis using l(2) by (simp add: filter_remove1 remove1_idem)
    qed
    obtain s2 f' where s2: "delete_param_blocks p s1 = Some s2" "cache_inv s2 ?ys f' {}" "same_limits s1 s2"
      "map (entry s2) ?ys = map (entry s1) ?ys"
      using "1.IH" [OF l(3) lo(1) s1(1,2)] unfolding flt by (blast elim: succeedsE)
    have "map (entry s1) ?ys = map (entry s) ?ys" using e l(2) by auto
    moreover have "delete_param_blocks p s = Some s2" using l(3) lo(1) s1(1) s2(1) by (simp add: delete_param_blocks.simps [of p s])
    ultimately show ?thesis using s2 s1(3) by (simp add: same_limits_def del: map_eq_conv) blast
  qed
qed

lemma cache_inv_table:
  assumes "cache_inv s xs f U" "holds_blocks (blocks s) MIN10_BLOCK t" "holds_blocks (blocks s) SEC10_BLOCK u"
  shows "cache_inv (s\<lparr>datastorage := t, probestorage := u\<rparr>) xs f U" "entry (s\<lparr>datastorage := t, probestorage := u\<rparr>) = entry s"
  using assms by (simp_all add: cache_inv_def usage_inv_def param_inv_def block_inv_def table_inv_def lparam_def entry_def fun_eq_iff)

lemma holds_blocks_Cons:
  assumes "holds_blocks h ty ((k, p) # t)"
  shows "case p of None \<Rightarrow> holds_blocks h ty t | Some b \<Rightarrow> (\<exists>blk. h b = Some blk \<and> b_type blk = ty \<and> holds_blocks (h(b := None)) ty t)"
proof (cases p)
  case None
  have "k \<notin> fst ` set t" using assms by (simp add: holds_blocks_def)
  then have "map_of t k = None" by (simp add: map_of_eq_None_iff)
  then have "map_of ((k, None) # t) j = Some (Some b) \<longleftrightarrow> map_of t j = Some (Some b)" for j b by simp
  then have "points_to h ty (map_of t)" using assms None unfolding holds_blocks_def points_to_def by metis
  then show ?thesis using assms None by (simp add: holds_blocks_def)
next
  case (Some b)
  then have "map_of ((k, p) # t) k = Some (Some b)" by simp
  then obtain blk where blk: "h b = Some blk" "b_type blk = ty" "k = (b_param blk, b_start blk)"
    using assms unfolding holds_blocks_def points_to_def by blast
  have "AList.delete k ((k, p) # t) = t" using assms by (simp add: holds_blocks_def)
  then show ?thesis using holds_blocks_removed [OF assms blk(1)] blk Some by simp
qed

text \<open>Deleting the first entry of a table, the step of \<open>freeBlocks\<close>.\<close>

lemma delete_ptr_inv:
  assumes c: "cache_inv s xs f {}" and h: "holds_blocks (blocks s) ty ((k, p) # t)"
    and o: "holds_blocks (blocks s) ty' u" "ty' \<noteq> ty"
  shows "succeeds (delete_ptr p s) (\<lambda>s'. \<exists>xs' f'. usage_inv s' xs' \<and> param_inv s' xs' f' \<and> block_inv s' xs' {} \<and>
    holds_blocks (blocks s') ty t \<and> holds_blocks (blocks s') ty' u \<and> datastorage s' = datastorage s \<and>
    probestorage s' = probestorage s \<and> same_limits s s' \<and> (\<forall>b blk. blocks s' b = Some blk \<longrightarrow> b_type blk \<noteq> UNUSED_BLOCK_TYPE))"
proof (cases p)
  case None
  then show ?thesis
    using c o(1) holds_blocks_Cons [OF h] by (auto simp: delete_ptr_def cache_inv_def table_inv_def same_limits_def)
next
  case (Some b)
  obtain blk where blk: "blocks s b = Some blk" "b_type blk = ty" "holds_blocks ((blocks s)(b := None)) ty t"
    using holds_blocks_Cons [OF h] Some by auto
  have inv: "usage_inv s xs" "param_inv s xs f" "block_inv s xs {}" "table_inv s" using c by (simp_all add: cache_inv_def)
  obtain l where l: "l \<in> set xs" "b = f_block (locators s) l" using inv(3) blk(1) unfolding block_inv_def by blast
  have "holds_blocks ((blocks s)(b := None)) ty' u" using holds_blocks_removed [OF o(1) blk(1)] blk(2) o(2) by auto
  then show ?thesis
    using block_delete_inv [OF inv(1-3) l(1)] l(2) blk(3) inv(4) Some
    by (auto simp: delete_ptr_def table_inv_def elim!: succeedsE) (metis (no_types, lifting))+
qed

lemma free_data_inv:
  assumes "cache_inv s xs f {}" "datastorage s = t"
  shows "succeeds (free_data t s) (\<lambda>s'. \<exists>xs' f'. cache_inv s' xs' f' {} \<and> datastorage s' = [] \<and> same_limits s s')"
  using assms
proof (induction t s arbitrary: xs f rule: free_data.induct)
  case (1 s)
  then have "free_data [] s = Some s" by (cases s) simp
  then show ?case using 1 by (auto simp: same_limits_def simp del: free_data.simps)
next
  case (2 k p t s)
  have h: "holds_blocks (blocks s) MIN10_BLOCK ((k, p) # t)" "holds_blocks (blocks s) SEC10_BLOCK (probestorage s)"
    using 2(2,3) by (simp_all add: cache_inv_def table_inv_def)
  obtain s1 xs1 f1 where s1: "delete_ptr p s = Some s1" "usage_inv s1 xs1" "param_inv s1 xs1 f1" "block_inv s1 xs1 {}"
    "holds_blocks (blocks s1) MIN10_BLOCK t" "holds_blocks (blocks s1) SEC10_BLOCK (probestorage s1)" "same_limits s s1"
    "\<forall>b blk. blocks s1 b = Some blk \<longrightarrow> b_type blk \<noteq> UNUSED_BLOCK_TYPE"
    using delete_ptr_inv [OF 2(2) h(1,2)] by (auto elim!: succeedsE)
  have "cache_inv (s1\<lparr>datastorage := t\<rparr>) xs1 f1 {}"
    using s1 by (simp add: cache_inv_def usage_inv_def param_inv_def block_inv_def table_inv_def lparam_def)
  then show ?case using 2(1) [of s1 xs1 f1] s1(1,7) by (auto simp: same_limits_def elim!: succeedsE)
qed

lemma free_probes_inv:
  assumes "cache_inv s xs f {}" "probestorage s = t" "datastorage s = []"
  shows "succeeds (free_probes t s) (\<lambda>s'. \<exists>xs' f'. cache_inv s' xs' f' {} \<and> datastorage s' = [] \<and> probestorage s' = [] \<and> same_limits s s')"
  using assms
proof (induction t s arbitrary: xs f rule: free_probes.induct)
  case (1 s)
  then have "free_probes [] s = Some s" by (cases s) simp
  then show ?case using 1 by (auto simp: same_limits_def simp del: free_probes.simps)
next
  case (2 k p t s)
  have h: "holds_blocks (blocks s) SEC10_BLOCK ((k, p) # t)" "holds_blocks (blocks s) MIN10_BLOCK (datastorage s)"
    using 2(2,3) by (simp_all add: cache_inv_def table_inv_def)
  obtain s1 xs1 f1 where s1: "delete_ptr p s = Some s1" "usage_inv s1 xs1" "param_inv s1 xs1 f1" "block_inv s1 xs1 {}"
    "holds_blocks (blocks s1) SEC10_BLOCK t" "holds_blocks (blocks s1) MIN10_BLOCK (datastorage s1)" "same_limits s s1"
    "\<forall>b blk. blocks s1 b = Some blk \<longrightarrow> b_type blk \<noteq> UNUSED_BLOCK_TYPE" "datastorage s1 = []"
    using delete_ptr_inv [OF 2(2) h(1,2)] 2(4) by (auto elim!: succeedsE)
  have "cache_inv (s1\<lparr>probestorage := t\<rparr>) xs1 f1 {}"
    using s1 by (simp add: cache_inv_def usage_inv_def param_inv_def block_inv_def table_inv_def lparam_def)
  then show ?case using 2(1) [of s1 xs1 f1] s1(1,7,9) by (auto simp: same_limits_def elim!: succeedsE)
qed

lemma freeBlocks_inv:
  assumes "cache_inv s xs f {}"
  shows "succeeds (freeBlocks s) (\<lambda>s'. \<exists>f'. cache_inv s' [] f' {} \<and> same_limits s s')"
proof -
  obtain s1 xs1 f1 where s1: "free_data (datastorage s) s = Some s1" "cache_inv s1 xs1 f1 {}" "datastorage s1 = []" "same_limits s s1"
    using free_data_inv [OF assms refl] by (blast elim: succeedsE)
  obtain s2 xs2 f2 where s2: "free_probes (probestorage s1) s1 = Some s2" "cache_inv s2 xs2 f2 {}" "datastorage s2 = []"
    "probestorage s2 = []" "same_limits s1 s2"
    using free_probes_inv [OF s1(2) refl s1(3)] by (blast elim: succeedsE)
  have "blocks s2 b = None" for b
  proof (rule ccontr)
    assume "blocks s2 b \<noteq> None"
    then obtain blk where blk: "blocks s2 b = Some blk" by blast
    then have "b_type blk = MIN10_BLOCK \<or> b_type blk = SEC10_BLOCK"
      using s2(2) by (cases "b_type blk") (auto simp: cache_inv_def table_inv_def)
    then show False
      using table_entry_exists [of "blocks s2" _ "[]" b blk] blk s2(2-4) by (auto simp: cache_inv_def table_inv_def)
  qed
  then have "xs2 = []" using s2(2) by (simp add: cache_inv_def block_inv_def dom_def)
  then show ?thesis using s1 s2 by (auto simp: freeBlocks_def same_limits_def)
qed

subsection \<open>Insertion\<close>

lemma f_fresh:
  assumes "h l = None" "n = \<lparr>l_block = b, newer = None, older = None, next_same_param = None, prev_same_param = None\<rparr>"
  shows "f_older (h(l \<mapsto> n)) = (f_older h)(l := None)" "f_newer (h(l \<mapsto> n)) = (f_newer h)(l := None)"
    "f_next (h(l \<mapsto> n)) = (f_next h)(l := None)" "f_prev (h(l \<mapsto> n)) = (f_prev h)(l := None)"
    "f_block (h(l \<mapsto> n)) = (f_block h)(l := b)"
  using assms by (auto simp: f_defs fun_eq_iff)

definition new_locator :: "addr \<Rightarrow> addr \<Rightarrow> szb_buffer \<Rightarrow> szb_buffer" where
  "new_locator l b s = s\<lparr>locators := (locators s)(l \<mapsto> \<lparr>l_block = b, newer = None, older = None,
     next_same_param = None, prev_same_param = None\<rparr>)\<rparr>"

definition link_new :: "addr \<Rightarrow> addr \<Rightarrow> szb_buffer \<Rightarrow> szb_buffer option" where
  "link_new l b s = do {
     s \<leftarrow> link_usage l (new_locator l b s);
     blk \<leftarrow> blocks s b;
     s \<leftarrow> link_param (b_param blk) l s;
     Some (s\<lparr>blocks_c := blocks_c s + 1\<rparr>) }"

lemma locator_new_links: "locator_new l b s = do { s \<leftarrow> link_new l b s; if locked s = 0 then evict s else Some s }"
  by (simp add: locator_new_def link_new_def new_locator_def Let_def)

lemma link_usage_new:
  assumes u: "usage_inv s xs" and l: "l \<notin> set xs"
  shows "succeeds (link_usage l (new_locator l b s)) (\<lambda>s'. usage_inv (s'\<lparr>blocks_c := blocks_c s + 1\<rparr>) (l # xs) \<and>
    same_tables_blocks s s' \<and> paramindex s' = paramindex s \<and> blocks_c s' = blocks_c s \<and>
    f_next (locators s') = (f_next (locators s))(l := None) \<and> f_prev (locators s') = (f_prev (locators s))(l := None) \<and>
    f_block (locators s') = (f_block (locators s))(l := b))"
proof -
  let ?s = "new_locator l b s"
  have dx: "dom (locators s) = set xs" "dlist (f_older (locators s)) (f_newer (locators s)) xs"
    "newest_block s = first_of xs" "oldest_block s = last_of xs" "blocks_c s = int (length xs)"
    using u by (simp_all add: usage_inv_def)
  then have fresh: "locators s l = None" using l by auto
  have ff: "dom (locators ?s) = insert l (set xs)" "f_older (locators ?s) = (f_older (locators s))(l := None)"
    "f_newer (locators ?s) = (f_newer (locators s))(l := None)" "f_next (locators ?s) = (f_next (locators s))(l := None)"
    "f_prev (locators ?s) = (f_prev (locators s))(l := None)" "f_block (locators ?s) = (f_block (locators s))(l := b)"
    using dx(1) f_fresh [of "locators s" l, OF fresh refl] by (simp_all add: new_locator_def)
  have "dlist (f_older (locators ?s)) (f_newer (locators ?s)) xs" "set xs \<subseteq> dom (locators ?s)" "newest_block ?s = first_of xs"
    "oldest_block ?s = last_of xs" "l \<in> dom (locators ?s)" "f_older (locators ?s) l = None" "f_newer (locators ?s) l = None"
    using dx(2-4) l ff by (auto simp: new_locator_def)
  from link_usage_links [OF this(1) l this(2-7)] obtain s1 where s1: "link_usage l ?s = Some s1"
    "same_params (locators ?s) (locators s1)" "same_tables_blocks ?s s1"
    "dlist (f_older (locators s1)) (f_newer (locators s1)) (l # xs)" "newest_block s1 = Some l"
    "oldest_block s1 = last_of (l # xs)" "paramindex s1 = paramindex ?s" "blocks_c s1 = blocks_c ?s"
    by (blast elim: succeedsE)
  have "usage_inv (s1\<lparr>blocks_c := blocks_c s + 1\<rparr>) (l # xs)"
    using s1(2,4-6) ff(1) dx(5) by (simp add: usage_inv_def same_params_def del: dseg.simps distinct.simps last_of_simps)
  then show ?thesis
    using s1(1-3,7,8) ff(4-6) by (simp add: same_params_def same_tables_blocks_def new_locator_def)
qed

lemma link_param_new:
  assumes p: "param_inv s xs f" and l: "l \<notin> set xs" and d: "insert l (set xs) \<subseteq> dom (locators s1)"
    and s1: "same_tables_blocks s s1" "paramindex s1 = paramindex s" "f_next (locators s1) = (f_next (locators s))(l := None)"
      "f_prev (locators s1) = (f_prev (locators s))(l := None)" "f_block (locators s1) = (f_block (locators s))(l := b)"
    and blk: "blocks s b = Some blk" "b_param blk = q"
  shows "succeeds (link_param q l s1) (\<lambda>s'. param_inv s' (l # xs) (f(q := l # f q)) \<and> same_usage (locators s1) (locators s') \<and>
    same_tables_blocks s1 s' \<and> newest_block s' = newest_block s1 \<and> oldest_block s' = oldest_block s1 \<and> blocks_c s' = blocks_c s1)"
proof -
  have fq: "dlist (f_next (locators s)) (f_prev (locators s)) (f r)" "set (f r) = {l \<in> set xs. lparam s l = r}"
    "paramindex s r = first_of (f r)" for r
    using p by (simp_all add: param_inv_def)
  have lq: "l \<notin> set (f r)" for r using fq(2) l by auto
  have d1: "dlist (f_next (locators s1)) (f_prev (locators s1)) (f r)" for r
    using s1(3,4) fq(1) [of r] lq by simp
  have h1: "set (f q) \<subseteq> dom (locators s1)" "paramindex s1 q = first_of (f q)" "l \<in> dom (locators s1)"
    "f_next (locators s1) l = None" "f_prev (locators s1) l = None"
    using fq(2,3) [of q] d s1(2-4) by auto
  from link_param_links [OF d1 lq h1] obtain s2 where s2: "link_param q l s1 = Some s2" "same_usage (locators s1) (locators s2)"
    "same_tables_blocks s1 s2" "dlist (f_next (locators s2)) (f_prev (locators s2)) (l # f q)"
    "\<forall>a. a \<notin> insert l (set (f q)) \<longrightarrow> f_next (locators s2) a = f_next (locators s1) a \<and> f_prev (locators s2) a = f_prev (locators s1) a"
    "paramindex s2 = (paramindex s1)(q := Some l)" "newest_block s2 = newest_block s1" "oldest_block s2 = oldest_block s1"
    "blocks_c s2 = blocks_c s1"
    by (elim succeedsE conjE) (rule that; (intro conjI)?; assumption)
  have lp: "lparam s2 a = (if a = l then q else lparam s a)" for a
    using s1(1,5) s2(2,3) blk by (simp add: lparam_def same_tables_blocks_def same_usage_def)
  have "dlist (f_next (locators s2)) (f_prev (locators s2)) ((f(q := l # f q)) r) \<and>
    set ((f(q := l # f q)) r) = {a \<in> set (l # xs). lparam s2 a = r} \<and> paramindex s2 r = first_of ((f(q := l # f q)) r)" for r
  proof (cases "r = q")
    case True
    have "set (l # f q) = {a \<in> set (l # xs). lparam s2 a = q}" using fq(2) [of q] lp l by auto
    then show ?thesis using s2(4,6) True by (simp del: dseg.simps distinct.simps)
  next
    case False
    have "dlist (f_next (locators s2)) (f_prev (locators s2)) (f r)"
    proof (rule dlist_cong [OF _ d1])
      fix x assume "x \<in> set (f r)"
      then have "x \<notin> insert l (set (f q))" using False fq(2) lq by auto
      then show "f_next (locators s2) x = f_next (locators s1) x \<and> f_prev (locators s2) x = f_prev (locators s1) x"
        using s2(5) by blast
    qed
    moreover have "set (f r) = {a \<in> set (l # xs). lparam s2 a = r}" using False fq(2) [of r] lp l by auto
    ultimately show ?thesis using False s2(6) s1(2) fq(3) by simp
  qed
  then have "param_inv s2 (l # xs) (f(q := l # f q))" unfolding param_inv_def by blast
  then show ?thesis using s2(1-3,7-9) by simp
qed

lemma link_new_inv:
  assumes u: "usage_inv s xs" and p: "param_inv s xs f" and l: "l \<notin> set xs" and blk: "blocks s b = Some blk"
  shows "succeeds (link_new l b s) (\<lambda>s'. usage_inv s' (l # xs) \<and> param_inv s' (l # xs) (f(b_param blk := l # f (b_param blk))) \<and>
    f_block (locators s') = (f_block (locators s))(l := b) \<and> same_tables_blocks s s')"
proof -
  obtain s1 where s1: "link_usage l (new_locator l b s) = Some s1" "usage_inv (s1\<lparr>blocks_c := blocks_c s + 1\<rparr>) (l # xs)"
    "same_tables_blocks s s1" "paramindex s1 = paramindex s" "blocks_c s1 = blocks_c s"
    "f_next (locators s1) = (f_next (locators s))(l := None)" "f_prev (locators s1) = (f_prev (locators s))(l := None)"
    "f_block (locators s1) = (f_block (locators s))(l := b)"
    using link_usage_new [OF u l] by (blast elim: succeedsE)
  have d: "insert l (set xs) \<subseteq> dom (locators s1)" using s1(2) by (simp add: usage_inv_def)
  obtain s2 where s2: "link_param (b_param blk) l s1 = Some s2" "param_inv s2 (l # xs) (f(b_param blk := l # f (b_param blk)))"
    "same_usage (locators s1) (locators s2)" "same_tables_blocks s1 s2" "newest_block s2 = newest_block s1"
    "oldest_block s2 = oldest_block s1" "blocks_c s2 = blocks_c s1"
    using link_param_new [OF p l d s1(3,4,6-8) blk refl] by (blast elim: succeedsE)
  define s3 where "s3 = s2\<lparr>blocks_c := blocks_c s2 + 1\<rparr>"
  have "link_new l b s = Some s3" using s1(1,3) s2(1) blk by (simp add: link_new_def s3_def same_tables_blocks_def)
  moreover have "usage_inv s3 (l # xs)"
    using s1(2,5) s2(3,5-7) by (simp add: usage_inv_def same_usage_def s3_def del: dseg.simps distinct.simps)
  moreover have "param_inv s3 (l # xs) (f(b_param blk := l # f (b_param blk)))"
    using s2(2) by (simp add: param_inv_def lparam_def s3_def del: dseg.simps distinct.simps)
  ultimately show ?thesis using s1(3,8) s2(3,4) by (simp add: s3_def same_tables_blocks_def same_usage_def)
qed

lemma points_to_added:
  assumes m: "points_to h ty m" and b: "h b = None"
    and k: "\<And>c blk'. h c = Some blk' \<Longrightarrow> b_type blk' = b_type blk \<Longrightarrow> (b_param blk', b_start blk') \<noteq> (b_param blk, b_start blk)"
  shows "points_to (h(b \<mapsto> blk)) ty (if b_type blk = ty then m((b_param blk, b_start blk) \<mapsto> Some b) else m)"
proof -
  have m': "m k = Some (Some c) \<longleftrightarrow> (\<exists>blk. h c = Some blk \<and> b_type blk = ty \<and> k = (b_param blk, b_start blk))" for k c
    using m unfolding points_to_def by blast
  have "(if b_type blk = ty then m((b_param blk, b_start blk) \<mapsto> Some b) else m) j = Some (Some c) \<longleftrightarrow>
    (\<exists>blk'. (h(b \<mapsto> blk)) c = Some blk' \<and> b_type blk' = ty \<and> j = (b_param blk', b_start blk'))" for j c
  proof (cases "b_type blk = ty \<and> j = (b_param blk, b_start blk)")
    case True
    then have "(\<exists>blk'. (h(b \<mapsto> blk)) c = Some blk' \<and> b_type blk' = ty \<and> j = (b_param blk', b_start blk')) \<longleftrightarrow> c = b"
      using k [of c] by auto
    then show ?thesis using True by auto
  next
    case False
    then have "(if b_type blk = ty then m((b_param blk, b_start blk) \<mapsto> Some b) else m) j = m j" by auto
    moreover have "(\<exists>blk'. (h(b \<mapsto> blk)) c = Some blk' \<and> b_type blk' = ty \<and> j = (b_param blk', b_start blk')) \<longleftrightarrow>
      (\<exists>blk'. h c = Some blk' \<and> b_type blk' = ty \<and> j = (b_param blk', b_start blk'))"
      using False b by auto
    ultimately show ?thesis using m' [of j c] by simp
  qed
  then show ?thesis unfolding points_to_def by blast
qed

lemma holds_blocks_added:
  assumes "holds_blocks h ty t" "h b = None"
    and "\<And>c blk'. h c = Some blk' \<Longrightarrow> b_type blk' = b_type blk \<Longrightarrow> (b_param blk', b_start blk') \<noteq> (b_param blk, b_start blk)"
  shows "holds_blocks (h(b \<mapsto> blk)) ty (if b_type blk = ty then AList.update (b_param blk, b_start blk) (Some b) t else t)"
  using assms(1) points_to_added [of h ty "map_of t" b blk] assms(2,3)
  by (auto simp: holds_blocks_def distinct_update update_conv')

text \<open>The last step of \<open>AddBlock\<close>: the block gets its locator.\<close>

lemma set_locator_inv:
  assumes c: "cache_inv s ys f {l}" and l: "l \<in> set ys" and b: "b = f_block (locators s) l" "blocks s b = Some blk"
    and s': "s' = s\<lparr>blocks := (blocks s)(b \<mapsto> blk\<lparr>b_locator := Some l\<rparr>)\<rparr>"
  shows "cache_inv s' ys f {}" "entry s' = entry s" "same_limits s s'"
proof -
  have inv: "usage_inv s ys" "param_inv s ys f" "block_inv s ys {l}" "table_inv s" using c by (simp_all add: cache_inv_def)
  have bl: "blocks s' = (blocks s)(b \<mapsto> blk\<lparr>b_locator := Some l\<rparr>)" "locators s' = locators s" using s' by simp_all
  have lp: "lparam s' = lparam s" by (rule ext) (use b bl in \<open>auto simp: lparam_def\<close>)
  show "entry s' = entry s" by (rule ext) (use b bl in \<open>auto simp: entry_def Let_def\<close>)
  have "param_inv s' ys f" using inv(2) lp bl(2) s' by (simp add: param_inv_def)
  moreover have "usage_inv s' ys" using inv(1) s' by (simp add: usage_inv_def)
  moreover have "block_inv s' ys {}"
  proof -
    have "f_block (locators s) a \<noteq> b" if "a \<in> set ys" "a \<noteq> l" for a
      using that inv(3) l b(1) by (auto simp: block_inv_def dest: inj_onD)
    then show ?thesis using inv(3) b bl by (auto simp: block_inv_def)
  qed
  moreover have "table_inv s'"
  proof -
    have "points_to (blocks s') ty m" if "points_to (blocks s) ty m" for ty m
    proof -
      have "(\<exists>k. blocks s' c = Some k \<and> b_type k = ty \<and> j = (b_param k, b_start k)) \<longleftrightarrow>
        (\<exists>k. blocks s c = Some k \<and> b_type k = ty \<and> j = (b_param k, b_start k))" for c j
        using b(2) bl(1) by auto
      then show ?thesis using that unfolding points_to_def by blast
    qed
    then show ?thesis using inv(4) s' b(2) by (auto simp: table_inv_def holds_blocks_def)
  qed
  ultimately show "cache_inv s' ys f {}" by (simp add: cache_inv_def)
  show "same_limits s s'" using s' by (simp add: same_limits_def)
qed

definition trimmed :: "szb_buffer \<Rightarrow> 'a list \<Rightarrow> 'a list" where
  "trimmed s xs = (if locked s = 0 then take (nat (max_blocks s)) xs else xs)"

lemma locator_new_inv:
  assumes "cache_inv s3 (l # xs) f {l}" "1 \<le> max_blocks s3"
  shows "succeeds (if locked s3 = 0 then evict s3 else Some s3) (\<lambda>s'. \<exists>f'. cache_inv s' (trimmed s3 (l # xs)) f' {l} \<and> same_limits s3 s' \<and>
    map (entry s') (trimmed s3 (l # xs)) = map (entry s3) (trimmed s3 (l # xs)))"
  using evict_inv [OF assms] assms(1) by (auto simp: trimmed_def same_limits_def)

text \<open>A new block in its table, not yet in the lists.\<close>

definition with_block :: "block_type \<Rightarrow> tparam \<Rightarrow> time_t \<Rightarrow> addr \<Rightarrow> szb_buffer \<Rightarrow> szb_buffer" where
  "with_block ty p t b s = s\<lparr>
    blocks := (blocks s)(b \<mapsto> \<lparr>b_param = p, b_start = t, b_type = ty, b_locator = None\<rparr>),
    datastorage := (if ty = MIN10_BLOCK then AList.update (p, t) (Some b) (datastorage s) else datastorage s),
    probestorage := (if ty = SEC10_BLOCK then AList.update (p, t) (Some b) (probestorage s) else probestorage s)\<rparr>"

lemma with_block_simps [simp]:
  "locators (with_block ty p t b s) = locators s"
  "blocks (with_block ty p t b s) = (blocks s)(b \<mapsto> \<lparr>b_param = p, b_start = t, b_type = ty, b_locator = None\<rparr>)"
  "locked (with_block ty p t b s) = locked s" "max_blocks (with_block ty p t b s) = max_blocks s"
  by (simp_all add: with_block_def)

lemma with_block_inv:
  assumes c: "cache_inv s xs f {}" and ty: "ty \<noteq> UNUSED_BLOCK_TYPE" and b: "blocks s b = None"
    and k: "(ty, p, t) \<notin> fst ` set (map (entry s) xs)"
  shows "usage_inv (with_block ty p t b s) xs" "param_inv (with_block ty p t b s) xs f" "table_inv (with_block ty p t b s)"
    "\<And>a. a \<in> set xs \<Longrightarrow> f_block (locators s) a \<noteq> b"
proof -
  let ?s = "with_block ty p t b s"
  have inv: "usage_inv s xs" "param_inv s xs f" "block_inv s xs {}" "table_inv s" using c by (simp_all add: cache_inv_def)
  show bx: "f_block (locators s) a \<noteq> b" if "a \<in> set xs" for a using that inv(3) b unfolding block_inv_def by blast
  have uniq: "(b_param blk', b_start blk') \<noteq> (p, t)" if c': "blocks s c = Some blk'" "b_type blk' = ty" for c blk'
  proof -
    obtain a where a: "a \<in> set xs" "c = f_block (locators s) a" using inv(3) c'(1) unfolding block_inv_def by blast
    then have "entry s a = ((ty, b_param blk', b_start blk'), c)" using c' by (simp add: entry_def)
    then show ?thesis using k a(1) by force
  qed
  have "holds_blocks (blocks ?s) ty' (if ty = ty' then AList.update (p, t) (Some b) u else u)"
    if "holds_blocks (blocks s) ty' u" for ty' u
    using holds_blocks_added [OF that b, of "\<lparr>b_param = p, b_start = t, b_type = ty, b_locator = None\<rparr>"] uniq by (cases "ty = ty'") auto
  then show "table_inv ?s"
    using inv(4) ty unfolding table_inv_def by (auto simp: with_block_def split: if_splits)
  show "usage_inv ?s xs" using inv(1) by (simp add: usage_inv_def with_block_def)
  have "{a \<in> set xs. lparam ?s a = q} = {a \<in> set xs. lparam s a = q}" for q using bx by (auto simp: lparam_def)
  then show "param_inv ?s xs f" using inv(2) by (simp add: param_inv_def) (simp add: with_block_def)
qed

lemma AddBlock_linked:
  assumes c: "cache_inv s xs f {}" and ty: "ty \<noteq> UNUSED_BLOCK_TYPE"
    and b: "blocks s b = None" and l: "locators s l = None" and k: "(ty, p, t) \<notin> fst ` set (map (entry s) xs)"
  shows "succeeds (link_new l b (with_block ty p t b s)) (\<lambda>s'. (\<exists>f'. cache_inv s' (l # xs) f' {l}) \<and> same_limits s s' \<and>
    map (entry s') (l # xs) = ((ty, p, t), b) # map (entry s) xs)"
proof -
  let ?s = "with_block ty p t b s"
  note w = with_block_inv [OF c ty b k]
  have inv: "usage_inv s xs" "block_inv s xs {}" using c by (simp_all add: cache_inv_def)
  have lx: "l \<notin> set xs" using inv(1) l unfolding usage_inv_def by blast
  obtain s3 where s3: "link_new l b ?s = Some s3" "usage_inv s3 (l # xs)" "param_inv s3 (l # xs) (f(p := l # f p))"
    "f_block (locators s3) = (f_block (locators s))(l := b)" "same_tables_blocks ?s s3"
    using link_new_inv [OF w(1,2) lx, of b] by (auto elim!: succeedsE)
  have "inj_on (f_block (locators s3)) (set (l # xs))" "f_block (locators s3) ` set (l # xs) = insert b (f_block (locators s) ` set xs)"
    using inv(2) s3(4) lx w(4) by (auto simp: block_inv_def inj_on_def)
  then have "block_inv s3 (l # xs) {l}"
    using inv(2) s3(4,5) lx w(4) unfolding block_inv_def by (auto simp: same_tables_blocks_def)
  moreover have "table_inv s3" using w(3) s3(5) by (simp add: table_inv_def same_tables_blocks_def)
  ultimately have "cache_inv s3 (l # xs) (f(p := l # f p)) {l}" using s3(2,3) by (simp add: cache_inv_def)
  moreover have "map (entry s3) (l # xs) = ((ty, p, t), b) # map (entry s) xs"
    using s3(4,5) lx w(4) by (auto simp: entry_def same_tables_blocks_def)
  moreover have "same_limits s s3" using s3(5) by (simp add: same_limits_def same_tables_blocks_def)
  ultimately show ?thesis using s3(1) by (auto simp del: map_eq_conv)
qed

lemma AddBlock_inv:
  assumes c: "cache_inv s xs f {}" and m: "1 \<le> max_blocks s" and ty: "ty \<noteq> UNUSED_BLOCK_TYPE"
    and b: "blocks s b = None" and l: "locators s l = None" and k: "(ty, p, t) \<notin> fst ` set (map (entry s) xs)"
  shows "succeeds (AddBlock b l (new_block p t ty b s)) (\<lambda>s'. \<exists>ys f'. cache_inv s' ys f' {} \<and> same_limits s s' \<and>
    map (entry s') ys = trimmed s (((ty, p, t), b) # map (entry s) xs))"
proof -
  obtain s3 f3 where s3: "link_new l b (with_block ty p t b s) = Some s3" "cache_inv s3 (l # xs) f3 {l}" "same_limits s s3"
    "map (entry s3) (l # xs) = ((ty, p, t), b) # map (entry s) xs"
    using AddBlock_linked [OF c ty b l k] by (elim succeedsE conjE exE) (rule that; assumption)
  have lim: "locked s3 = locked s" "max_blocks s3 = max_blocks s" using s3(3) by (simp_all add: same_limits_def)
  let ?ys = "trimmed s3 (l # xs)"
  obtain s4 f4 where s4: "(if locked s3 = 0 then evict s3 else Some s3) = Some s4" "cache_inv s4 ?ys f4 {l}"
    "same_limits s3 s4" "map (entry s4) ?ys = map (entry s3) ?ys"
  proof -
    have "1 \<le> max_blocks s3" using m lim(2) by simp
    from locator_new_inv [OF s3(2) this] show thesis by (elim succeedsE conjE exE) (rule that; assumption)
  qed
  have l4: "l \<in> set ?ys" using m lim by (cases "nat (max_blocks s)") (auto simp: trimmed_def)
  have "entry s4 l = ((ty, p, t), b)" using s4(4) l4 s3(4) by simp
  then have b4: "f_block (locators s4) l = b" by (simp add: entry_def Let_def)
  moreover obtain blk4 where blk4: "blocks s4 b = Some blk4"
    using block_of_locator [of s4 ?ys "{l}" l] s4(2) l4 b4 by (auto simp: cache_inv_def)
  define s5 where "s5 = s4\<lparr>blocks := (blocks s4)(b \<mapsto> blk4\<lparr>b_locator := Some l\<rparr>)\<rparr>"
  note fin = set_locator_inv [OF s4(2) l4 b4 [symmetric] blk4 s5_def]
  have "AddBlock b l (new_block p t ty b s) = Some s5"
    using s3(1) s4(1) blk4 ty
    by (cases ty) (simp_all add: AddBlock_def new_block_def locator_new_links s5_def with_block_def)
  moreover have "map (entry s5) ?ys = trimmed s (((ty, p, t), b) # map (entry s) xs)"
    using s4(4) fin(2) s3(4) lim by (auto simp: trimmed_def take_map [symmetric] simp del: map_eq_conv)
  ultimately show ?thesis using fin(1,3) s4(3) lim by (auto simp: same_limits_def)
qed

subsection \<open>Lookup\<close>

lemma Used_inv:
  assumes c: "cache_inv s xs f {}" and l: "l \<in> set xs"
  shows "succeeds (Used l s) (\<lambda>s'. cache_inv s' (l # remove1 l xs) f {} \<and> same_limits s s' \<and> entry s' = entry s)"
proof -
  have inv: "usage_inv s xs" "param_inv s xs f" "block_inv s xs {}" "table_inv s" using c by (simp_all add: cache_inv_def)
  have dx: "dlist (f_older (locators s)) (f_newer (locators s)) xs" "set xs \<subseteq> dom (locators s)"
    "newest_block s = first_of xs" "oldest_block s = last_of xs" "dom (locators s) = set xs" "blocks_c s = int (length xs)"
    using inv(1) by (simp_all add: usage_inv_def)
  from Used_links [OF dx(1) l dx(2-4)] obtain s1 where s1: "Used l s = Some s1" "same_params (locators s) (locators s1)"
    "same_tables_blocks s s1" "dlist (f_older (locators s1)) (f_newer (locators s1)) (l # remove1 l xs)"
    "newest_block s1 = Some l" "oldest_block s1 = last_of (l # remove1 l xs)" "paramindex s1 = paramindex s" "blocks_c s1 = blocks_c s"
    by (elim succeedsE conjE) (rule that; (intro conjI)?; assumption)
  have st: "set (l # remove1 l xs) = set xs" using dx(1) l by auto
  have "length (l # remove1 l xs) = length xs" using l by (cases "length xs") (auto simp: length_remove1)
  then have "usage_inv s1 (l # remove1 l xs)"
    using s1(2,4-6,8) dx(5,6) st by (simp add: usage_inv_def same_params_def del: dseg.simps distinct.simps list.set list.size)
  moreover have e: "lparam s1 = lparam s" "entry s1 = entry s"
    using s1(2,3) by (simp_all add: lparam_def entry_def fun_eq_iff same_params_def same_tables_blocks_def)
  moreover have "param_inv s1 (l # remove1 l xs) f"
    using inv(2) s1(2,7) unfolding param_inv_def st by (simp add: e same_params_def)
  moreover have "block_inv s1 (l # remove1 l xs) {}"
    using inv(3) s1(2,3) unfolding block_inv_def st by (simp add: same_params_def same_tables_blocks_def)
  moreover have "table_inv s1" using inv(4) s1(3) by (simp add: table_inv_def same_tables_blocks_def)
  ultimately show ?thesis using s1(1,3) by (simp add: cache_inv_def same_limits_def same_tables_blocks_def)
qed

lemma MarkAsUsed_inv:
  assumes c: "cache_inv s xs f {}" and l: "l \<in> set xs" "f_block (locators s) l = b"
  shows "succeeds (MarkAsUsed b s) (\<lambda>s'. cache_inv s' (l # remove1 l xs) f {} \<and> same_limits s s' \<and> entry s' = entry s)"
proof -
  have "block_inv s xs {}" using c by (simp add: cache_inv_def)
  from block_of_locator [OF this l(1)] obtain blk where "blocks s b = Some blk" "b_locator blk = Some l" using l(2) by auto
  then show ?thesis using Used_inv [OF c l(1)] by (simp add: MarkAsUsed_def)
qed

lemma holds_blocks_entry:
  assumes "holds_blocks h ty t"
  shows "holds_blocks h ty (snd (table_entry k t))" "fst (table_entry k t) = Some b \<longleftrightarrow> map_of t k = Some (Some b)"
proof -
  show "fst (table_entry k t) = Some b \<longleftrightarrow> map_of t k = Some (Some b)" by (auto simp: table_entry_def split: option.splits)
  show "holds_blocks h ty (snd (table_entry k t))"
  proof (cases "map_of t k")
    case None
    then have "((map_of t)(k \<mapsto> None)) j = Some (Some c) \<longleftrightarrow> map_of t j = Some (Some c)" for j c by simp
    then have "points_to h ty ((map_of t)(k \<mapsto> None))" using assms unfolding holds_blocks_def points_to_def by metis
    then show ?thesis using assms None by (simp add: table_entry_def holds_blocks_def update_conv' distinct_update)
  qed (use assms in \<open>simp add: table_entry_def\<close>)
qed

text \<open>The keys of the locators, and what a table holds in terms of them.\<close>

lemma entry_in_table:
  assumes c: "cache_inv s xs f {}" and h: "holds_blocks (blocks s) ty t"
  shows "map_of t k = Some (Some b) \<longleftrightarrow> ((ty, k), b) \<in> set (map (entry s) xs)"
proof -
  have bi: "block_inv s xs {}" using c by (simp add: cache_inv_def)
  have "map_of t k = Some (Some b) \<longleftrightarrow> (\<exists>blk. blocks s b = Some blk \<and> b_type blk = ty \<and> k = (b_param blk, b_start blk))"
    using h unfolding holds_blocks_def points_to_def by blast
  also have "\<dots> \<longleftrightarrow> (\<exists>l \<in> set xs. entry s l = ((ty, k), b))"
  proof
    assume "\<exists>blk. blocks s b = Some blk \<and> b_type blk = ty \<and> k = (b_param blk, b_start blk)"
    then obtain blk where blk: "blocks s b = Some blk" "b_type blk = ty" "k = (b_param blk, b_start blk)" by blast
    then obtain l where "l \<in> set xs" "b = f_block (locators s) l" using bi unfolding block_inv_def by blast
    then show "\<exists>l \<in> set xs. entry s l = ((ty, k), b)" using blk by (intro bexI [of _ l]) (simp_all add: entry_def)
  next
    assume "\<exists>l \<in> set xs. entry s l = ((ty, k), b)"
    then obtain l where l: "l \<in> set xs" "entry s l = ((ty, k), b)" by blast
    from block_of_locator [OF bi l(1)] show "\<exists>blk. blocks s b = Some blk \<and> b_type blk = ty \<and> k = (b_param blk, b_start blk)"
      using l(2) by (metis Pair_inject)
  qed
  finally show ?thesis by force
qed

lemma entry_keys_distinct:
  assumes cc: "cache_inv s xs f {}"
  shows "distinct (map fst (map (entry s) xs))"
proof -
  have t: "table_inv s" and bi: "block_inv s xs {}" and d: "distinct xs" using cc by (auto simp: cache_inv_def usage_inv_def)
  have "a = c" if ac: "a \<in> set xs" "c \<in> set xs" "fst (entry s a) = fst (entry s c)" for a c
  proof -
    obtain ty k b where e1: "entry s a = ((ty, k), b)" by (cases "entry s a") auto
    obtain b' where e2: "entry s c = ((ty, k), b')" using e1 ac(3) by (cases "entry s c") simp
    have m: "((ty, k), b) \<in> set (map (entry s) xs)" "((ty, k), b') \<in> set (map (entry s) xs)"
      using imageI [OF ac(1), of "entry s"] imageI [OF ac(2), of "entry s"] unfolding e1 e2 by simp_all
    have "ty \<noteq> UNUSED_BLOCK_TYPE" by (rule block_of_locator [OF bi ac(1)]) (use e1 t in \<open>auto simp: table_inv_def\<close>)
    then obtain tab where "holds_blocks (blocks s) ty tab" using t by (cases ty) (auto simp: table_inv_def)
    from entry_in_table [OF cc this] m have "map_of tab k = Some (Some b)" "map_of tab k = Some (Some b')" by blast+
    then have "f_block (locators s) a = f_block (locators s) c" using e1 e2 by (simp add: entry_def Let_def)
    then show ?thesis using bi ac(1,2) by (auto simp: block_inv_def dest: inj_onD)
  qed
  then show ?thesis using d by (auto simp: distinct_map inj_on_def)
qed

end
