(* ===== verification/Szb_Lru.thy ===== *)
theory Szb_Lru
  imports Szb_Cache_Inv
begin

text \<open>
  The cache of \<open>Szb_Cache\<close> implements a list of blocks in the order of their last use: an abstract
  cache without pointers, the refinement of it by every operation, and what follows for sequences
  of operations.
\<close>

subsection \<open>The abstract cache\<close>

record lru =
  lru_entries :: "((block_type \<times> buffer_key) \<times> addr) list"
  lru_locked :: int
  lru_max :: int

definition lru_new :: "int \<Rightarrow> lru" where
  "lru_new n = \<lparr>lru_entries = [], lru_locked = 0, lru_max = n\<rparr>"

definition lru_trim :: "lru \<Rightarrow> lru" where
  "lru_trim c = (if lru_locked c = 0 then c\<lparr>lru_entries := take (nat (lru_max c)) (lru_entries c)\<rparr> else c)"

definition lru_find :: "block_type \<times> buffer_key \<Rightarrow> lru \<Rightarrow> addr option \<times> lru" where
  "lru_find k c = (case map_of (lru_entries c) k of None \<Rightarrow> (None, c)
     | Some b \<Rightarrow> (Some b, c\<lparr>lru_entries := (k, b) # remove1 (k, b) (lru_entries c)\<rparr>))"

definition lru_add :: "block_type \<times> buffer_key \<Rightarrow> addr \<Rightarrow> lru \<Rightarrow> lru" where
  "lru_add k b c = lru_trim (c\<lparr>lru_entries := (k, b) # lru_entries c\<rparr>)"

definition lru_get :: "block_type \<times> buffer_key \<Rightarrow> creation \<Rightarrow> lru \<Rightarrow> addr option \<times> lru" where
  "lru_get k cr c = (case lru_find k c of (Some b, c) \<Rightarrow> (Some b, c)
     | (None, c) \<Rightarrow> (case cr of No_block \<Rightarrow> (None, c)
         | Created b _ initialized \<Rightarrow>
             let c = lru_add k b c in
             if initialized then (Some b, c) else (None, c\<lparr>lru_entries := remove1 (k, b) (lru_entries c)\<rparr>)))"

definition refines :: "szb_buffer \<Rightarrow> lru \<Rightarrow> bool" where
  "refines s c \<longleftrightarrow> (\<exists>xs f. cache_inv s xs f {} \<and> map (entry s) xs = lru_entries c) \<and> locked s = lru_locked c \<and>
     max_blocks s = lru_max c \<and> 1 \<le> lru_max c \<and> 0 \<le> lru_locked c"

lemma refinesE:
  assumes "refines s c"
  obtains xs f where "cache_inv s xs f {}" "map (entry s) xs = lru_entries c" "locked s = lru_locked c" "max_blocks s = lru_max c"
    "1 \<le> lru_max c" "0 \<le> lru_locked c"
  using assms by (auto simp: refines_def)

lemma refines_new: "1 \<le> n \<Longrightarrow> refines (szb_buffer_new n) (lru_new n)"
  by (auto simp: refines_def szb_buffer_new_def lru_new_def cache_inv_def usage_inv_def param_inv_def block_inv_def table_inv_def
    holds_blocks_def points_to_def intro!: exI [of _ "\<lambda>_. []"])

text \<open>A lookup in the table of a type, then the use of the block.\<close>

definition find_in :: "(szb_buffer \<Rightarrow> (buffer_key \<times> addr option) list) \<Rightarrow>
  ((buffer_key \<times> addr option) list \<Rightarrow> szb_buffer \<Rightarrow> szb_buffer) \<Rightarrow> buffer_key \<Rightarrow> szb_buffer \<Rightarrow> (addr option \<times> szb_buffer) option" where
  "find_in get put k s =
     (let (block, t) = table_entry k (get s); s = put t s in
      case block of None \<Rightarrow> Some (None, s)
      | Some b \<Rightarrow> do { s \<leftarrow> MarkAsUsed b s; Some (Some b, s) })"

lemma Find_find_in:
  "FindDataBlock p y m s = find_in datastorage (\<lambda>t s. s\<lparr>datastorage := t\<rparr>) (p, probe2time 0 y m) s"
  "FindProbeBlock p t s = find_in probestorage (\<lambda>t s. s\<lparr>probestorage := t\<rparr>) (p, t) s"
  by (simp_all add: FindDataBlock_def FindProbeBlock_def find_in_def)

lemma remove1_map_inj:
  assumes "inj_on g (set xs)" "l \<in> set xs"
  shows "map g (remove1 l xs) = remove1 (g l) (map g xs)"
  using assms by (induction xs) (auto simp: inj_on_def)

lemma find_in_refines:
  assumes r: "refines s c" and h: "holds_blocks (blocks s) ty (get s)"
    and put: "\<And>t. holds_blocks (blocks s) ty t \<Longrightarrow> \<exists>d u. put t s = s\<lparr>datastorage := d, probestorage := u\<rparr> \<and>
      holds_blocks (blocks s) MIN10_BLOCK d \<and> holds_blocks (blocks s) SEC10_BLOCK u"
  shows "succeeds (find_in get put k s) (\<lambda>(b, s'). b = fst (lru_find (ty, k) c) \<and> refines s' (snd (lru_find (ty, k) c)) \<and>
    (b = None \<longrightarrow> blocks s' = blocks s \<and> locators s' = locators s))"
proof -
  from refinesE [OF r] obtain xs f where x: "cache_inv s xs f {}" "map (entry s) xs = lru_entries c" "locked s = lru_locked c"
    "max_blocks s = lru_max c" "1 \<le> lru_max c" "0 \<le> lru_locked c" by metis
  let ?t = "snd (table_entry k (get s))"
  obtain d u where du: "put ?t s = s\<lparr>datastorage := d, probestorage := u\<rparr>" "holds_blocks (blocks s) MIN10_BLOCK d"
    "holds_blocks (blocks s) SEC10_BLOCK u"
    using put [OF holds_blocks_entry(1) [OF h]] by blast
  define s1 where "s1 = s\<lparr>datastorage := d, probestorage := u\<rparr>"
  have c1: "cache_inv s1 xs f {}" "entry s1 = entry s" using cache_inv_table [OF x(1) du(2,3)] by (simp_all add: s1_def)
  have lim: "locked s1 = locked s" "max_blocks s1 = max_blocks s" by (simp_all add: s1_def)
  have dk: "distinct (map fst (lru_entries c))" using entry_keys_distinct [OF x(1)] x(2) by simp
  have fnd: "fst (table_entry k (get s)) = Some b \<longleftrightarrow> map_of (lru_entries c) (ty, k) = Some b" for b
    using holds_blocks_entry(2) [OF h] entry_in_table [OF x(1) h] x(2) map_of_eq_Some_iff [OF dk] by simp
  show ?thesis
  proof (cases "fst (table_entry k (get s))")
    case None
    then have "map_of (lru_entries c) (ty, k) = None" using fnd by (metis option.exhaust option.distinct(1))
    moreover have "refines s1 c" using c1 x lim by (auto simp: refines_def)
    ultimately show ?thesis using None du(1) by (simp add: find_in_def lru_find_def s1_def case_prod_beta)
  next
    case (Some b)
    then have m: "map_of (lru_entries c) (ty, k) = Some b" using fnd by simp
    then have "((ty, k), b) \<in> set (map (entry s) xs)" using x(2) map_of_SomeD by simp
    then obtain l where l: "l \<in> set xs" "entry s l = ((ty, k), b)" by auto
    have "f_block (locators s1) l = b" using l(2) by (simp add: entry_def Let_def s1_def)
    from MarkAsUsed_inv [OF c1(1) l(1) this] obtain s2 where s2: "MarkAsUsed b s1 = Some s2" "cache_inv s2 (l # remove1 l xs) f {}"
      "same_limits s1 s2" "entry s2 = entry s1" by (elim succeedsE conjE) (rule that; assumption)
    have "inj_on (entry s) (set xs)" using entry_keys_distinct [OF x(1)] by (simp add: distinct_map) (metis comp_inj_on_iff inj_on_imageI2)
    then have "map (entry s2) (l # remove1 l xs) = ((ty, k), b) # remove1 ((ty, k), b) (lru_entries c)"
      using remove1_map_inj [OF _ l(1), of "entry s"] s2(4) c1(2) x(2) l(2) by simp
    then have "refines s2 (snd (lru_find (ty, k) c))"
      using s2(2,3) lim x(3-6) m by (auto simp: refines_def lru_find_def same_limits_def)
    then show ?thesis using Some du(1) s2(1) m by (simp add: find_in_def s1_def case_prod_beta lru_find_def)
  qed
qed

lemma refines_entry_inj:
  assumes "cache_inv s xs f {}"
  shows "inj_on (entry s) (set xs)"
  using entry_keys_distinct [OF assms] by (simp add: distinct_map) (metis comp_inj_on_iff inj_on_imageI2)

lemma AddBlock_refines:
  assumes r: "refines s c" and f: "blocks s b = None" "locators s l = None" and ty: "ty \<noteq> UNUSED_BLOCK_TYPE"
    and k: "map_of (lru_entries c) (ty, p, t) = None"
  shows "succeeds (AddBlock b l (new_block p t ty b s)) (\<lambda>s'. refines s' (lru_add (ty, p, t) b c))"
proof -
  from refinesE [OF r] obtain xs g where x: "cache_inv s xs g {}" "map (entry s) xs = lru_entries c" "locked s = lru_locked c"
    "max_blocks s = lru_max c" "1 \<le> lru_max c" "0 \<le> lru_locked c" by metis
  have kn: "(ty, p, t) \<notin> fst ` set (map (entry s) xs)" using k x(2) by (simp add: map_of_eq_None_iff)
  have m1: "1 \<le> max_blocks s" using x by simp
  obtain s' ys g' where s': "AddBlock b l (new_block p t ty b s) = Some s'" "cache_inv s' ys g' {}" "same_limits s s'"
    "map (entry s') ys = trimmed s (((ty, p, t), b) # map (entry s) xs)"
    using AddBlock_inv [OF x(1) m1 ty f kn] by (elim succeedsE conjE exE) (rule that; assumption)
  then show ?thesis using x by (auto simp: refines_def lru_add_def lru_trim_def trimmed_def same_limits_def)
qed

lemma DeleteBlock_refines:
  assumes r: "refines s c" and k: "(k, b) \<in> set (lru_entries c)"
  shows "succeeds (DeleteBlock b s) (\<lambda>s'. refines s' (c\<lparr>lru_entries := remove1 (k, b) (lru_entries c)\<rparr>))"
proof -
  from refinesE [OF r] obtain xs g where x: "cache_inv s xs g {}" "map (entry s) xs = lru_entries c" "locked s = lru_locked c"
    "max_blocks s = lru_max c" "1 \<le> lru_max c" "0 \<le> lru_locked c" by metis
  obtain l where l: "l \<in> set xs" "entry s l = (k, b)" using k x(2) by (metis (mono_tags, lifting) imageE list.set_map)
  then have b: "f_block (locators s) l = b" by (simp add: entry_def Let_def)
  obtain s' where s': "DeleteBlock b s = Some s'" "cache_inv s' (remove1 l xs) (\<lambda>q. remove1 l (g q)) {}" "same_limits s s'"
    "map (entry s') (remove1 l xs) = map (entry s) (remove1 l xs)"
    using DeleteBlock_inv [OF x(1) l(1)] b by (auto elim!: succeedsE)
  have "map (entry s) (remove1 l xs) = remove1 (k, b) (lru_entries c)"
    using remove1_map_inj [OF refines_entry_inj [OF x(1)] l(1)] l(2) x(2) by simp
  then show ?thesis using s' x(3-6) by (auto simp: refines_def same_limits_def simp del: map_eq_conv)
qed

lemma lru_add_has: "1 \<le> lru_max c \<Longrightarrow> (k, b) \<in> set (lru_entries (lru_add k b c))"
  by (cases "nat (lru_max c)") (auto simp: lru_add_def lru_trim_def)

text \<open>The common part of \<open>szb_get_datablock\<close> and \<open>szb_get_probeblock\<close> once a lookup found nothing.\<close>

lemma create_refines:
  assumes r: "refines s c" and f: "blocks s b = None" "locators s l = None" and ty: "ty \<noteq> UNUSED_BLOCK_TYPE"
    and k: "map_of (lru_entries c) (ty, p, t) = None"
  shows "succeeds (do { s \<leftarrow> AddBlock b l (new_block p t ty b s);
      if initialized then Some (Some b, s) else do { s \<leftarrow> DeleteBlock b s; Some (None, s) } })
    (\<lambda>(x, s'). x = fst (lru_get (ty, p, t) (Created b l initialized) c) \<and> refines s' (snd (lru_get (ty, p, t) (Created b l initialized) c)))"
proof -
  obtain s1 where s1: "AddBlock b l (new_block p t ty b s) = Some s1" "refines s1 (lru_add (ty, p, t) b c)"
    using AddBlock_refines [OF r f ty k] by (rule succeedsE)
  have "1 \<le> lru_max c" using r by (auto simp: refines_def)
  from DeleteBlock_refines [OF s1(2) lru_add_has [OF this]] obtain s2 where s2: "DeleteBlock b s1 = Some s2"
    "refines s2 ((lru_add (ty, p, t) b c)\<lparr>lru_entries := remove1 ((ty, p, t), b) (lru_entries (lru_add (ty, p, t) b c))\<rparr>)"
    by (rule succeedsE)
  show ?thesis using s1 s2 k by (simp add: lru_get_def lru_find_def Let_def)
qed

definition fresh :: "creation \<Rightarrow> szb_buffer \<Rightarrow> bool" where
  "fresh cr s = (case cr of No_block \<Rightarrow> True | Created b l _ \<Rightarrow> blocks s b = None \<and> locators s l = None)"

lemma FindDataBlock_refines:
  assumes r: "refines s c"
  shows "succeeds (FindDataBlock p y m s) (\<lambda>(b, s'). b = fst (lru_find (MIN10_BLOCK, p, probe2time 0 y m) c) \<and>
    refines s' (snd (lru_find (MIN10_BLOCK, p, probe2time 0 y m) c)) \<and> (b = None \<longrightarrow> blocks s' = blocks s \<and> locators s' = locators s))"
proof -
  have h: "holds_blocks (blocks s) MIN10_BLOCK (datastorage s)" "holds_blocks (blocks s) SEC10_BLOCK (probestorage s)"
    using r by (auto simp: refines_def cache_inv_def table_inv_def)
  have e: "s\<lparr>datastorage := t\<rparr> = s\<lparr>datastorage := t, probestorage := probestorage s\<rparr>" for t by simp
  show ?thesis unfolding Find_find_in
    by (rule find_in_refines [where get = datastorage, OF r h(1)]) (use h(2) e in blast)
qed

lemma FindProbeBlock_refines:
  assumes r: "refines s c"
  shows "succeeds (FindProbeBlock p t s) (\<lambda>(b, s'). b = fst (lru_find (SEC10_BLOCK, p, t) c) \<and>
    refines s' (snd (lru_find (SEC10_BLOCK, p, t) c)) \<and> (b = None \<longrightarrow> blocks s' = blocks s \<and> locators s' = locators s))"
proof -
  have h: "holds_blocks (blocks s) MIN10_BLOCK (datastorage s)" "holds_blocks (blocks s) SEC10_BLOCK (probestorage s)"
    using r by (auto simp: refines_def cache_inv_def table_inv_def)
  have e: "s\<lparr>probestorage := t\<rparr> = s\<lparr>datastorage := datastorage s, probestorage := t\<rparr>" for t by simp
  show ?thesis unfolding Find_find_in
    by (rule find_in_refines [where get = probestorage, OF r h(2)]) (use h(1) e in blast)
qed

lemma lru_find_None: "fst (lru_find k c) = None \<longleftrightarrow> map_of (lru_entries c) k = None" "fst (lru_find k c) = None \<Longrightarrow> snd (lru_find k c) = c"
  by (auto simp: lru_find_def split: option.splits)

lemma get_datablock_refines:
  assumes r: "refines s c" and f: "fresh cr s"
  shows "succeeds (szb_get_datablock p y m cr s) (\<lambda>(x, s'). x = fst (lru_get (MIN10_BLOCK, p, probe2time 0 y m) cr c) \<and>
    refines s' (snd (lru_get (MIN10_BLOCK, p, probe2time 0 y m) cr c)))"
proof -
  let ?k = "(MIN10_BLOCK, p, probe2time 0 y m)"
  obtain s1 where s1: "FindDataBlock p y m s = Some (fst (lru_find ?k c), s1)" "refines s1 (snd (lru_find ?k c))"
    "fst (lru_find ?k c) = None \<Longrightarrow> blocks s1 = blocks s \<and> locators s1 = locators s"
    by (rule succeedsE [OF FindDataBlock_refines [OF r]]) (auto intro: that)
  show ?thesis
  proof (cases "fst (lru_find ?k c)")
    case None
    note n = lru_find_None(1) [THEN iffD1, OF None] lru_find_None(2) [OF None]
    show ?thesis
    proof (cases cr)
      case No_block
      then show ?thesis using None s1(1,2) n by (simp add: szb_get_datablock_def lru_get_def lru_find_def)
    next
      case (Created b l i)
      have "refines s1 c" "blocks s1 b = None" "locators s1 l = None" using s1(2,3) None n(2) f Created by (simp_all add: fresh_def)
      then show ?thesis using create_refines [of s1 c b l MIN10_BLOCK p "probe2time 0 y m" i] n(1) None s1(1) Created
        by (simp add: szb_get_datablock_def)
    qed
  next
    case (Some b)
    then have "lru_get ?k cr c = lru_find ?k c" by (cases "lru_find ?k c") (simp add: lru_get_def)
    then show ?thesis using Some s1(1,2) by (simp add: szb_get_datablock_def)
  qed
qed

lemma get_probeblock_refines:
  assumes r: "refines s c" and f: "fresh cr s" and cr: "cr \<noteq> No_block \<or> map_of (lru_entries c) (SEC10_BLOCK, p, t) \<noteq> None"
    "\<And>b l i. cr = Created b l i \<Longrightarrow> i"
  shows "succeeds (szb_get_probeblock p t cr s) (\<lambda>(x, s'). x = fst (lru_get (SEC10_BLOCK, p, t) cr c) \<and>
    refines s' (snd (lru_get (SEC10_BLOCK, p, t) cr c)))"
proof -
  let ?k = "(SEC10_BLOCK, p, t)"
  obtain s1 where s1: "FindProbeBlock p t s = Some (fst (lru_find ?k c), s1)" "refines s1 (snd (lru_find ?k c))"
    "fst (lru_find ?k c) = None \<Longrightarrow> blocks s1 = blocks s \<and> locators s1 = locators s"
    by (rule succeedsE [OF FindProbeBlock_refines [OF r]]) (auto intro: that)
  show ?thesis
  proof (cases "fst (lru_find ?k c)")
    case None
    note n = lru_find_None(1) [THEN iffD1, OF None] lru_find_None(2) [OF None]
    obtain b l where Created: "cr = Created b l True" using cr n(1) by (cases cr) auto
    have "refines s1 c" "blocks s1 b = None" "locators s1 l = None" using s1(2,3) None n(2) f Created by (simp_all add: fresh_def)
    then show ?thesis using create_refines [of s1 c b l SEC10_BLOCK p t True] n(1) None s1(1) Created
      by (simp add: szb_get_probeblock_def)
  next
    case (Some b)
    then have "lru_get ?k cr c = lru_find ?k c" by (cases "lru_find ?k c") (simp add: lru_get_def)
    then show ?thesis using Some s1(1,2) by (simp add: szb_get_probeblock_def)
  qed
qed

definition lru_unlock :: "lru \<Rightarrow> lru" where
  "lru_unlock c = lru_trim (c\<lparr>lru_locked := lru_locked c - 1\<rparr>)"

definition lru_clear :: "tparam \<Rightarrow> lru \<Rightarrow> lru" where
  "lru_clear p c = c\<lparr>lru_entries := filter (\<lambda>((_, q, _), _). q \<noteq> p) (lru_entries c)\<rparr>"

lemma cache_inv_flags:
  assumes "cache_inv s xs f U"
  shows "cache_inv (s\<lparr>locked := n\<rparr>) xs f U" "cache_inv (s\<lparr>cachepoison := q\<rparr>) xs f U"
    "cache_inv (s\<lparr>configurationDate := d, last_err := e\<rparr>) xs f U"
    "entry (s\<lparr>locked := n\<rparr>) = entry s" "entry (s\<lparr>cachepoison := q\<rparr>) = entry s"
    "entry (s\<lparr>configurationDate := d, last_err := e\<rparr>) = entry s" "lparam (s\<lparr>cachepoison := q\<rparr>) = lparam s"
  using assms
  by (simp_all add: cache_inv_def usage_inv_def param_inv_def block_inv_def table_inv_def lparam_def entry_def fun_eq_iff)

lemma Lock_refines: "refines s c \<Longrightarrow> refines (Lock s) (c\<lparr>lru_locked := lru_locked c + 1\<rparr>)"
  unfolding refines_def Lock_def by (auto simp: cache_inv_flags(4)) (use cache_inv_flags(1) in blast)

lemma Unlock_refines:
  assumes r: "refines s c" and l: "0 < locked s"
  shows "succeeds (Unlock s) (\<lambda>s'. refines s' (lru_unlock c))"
proof -
  from refinesE [OF r] obtain xs f where x: "cache_inv s xs f {}" "map (entry s) xs = lru_entries c" "locked s = lru_locked c"
    "max_blocks s = lru_max c" "1 \<le> lru_max c" "0 \<le> lru_locked c" by metis
  let ?s = "s\<lparr>locked := locked s - 1\<rparr>"
  have c1: "cache_inv ?s xs f {}" "map (entry ?s) xs = lru_entries c" using x(1,2) cache_inv_flags [OF x(1)] by simp_all
  show ?thesis
  proof (cases "locked s = 1")
    case True
    have "1 \<le> max_blocks ?s" using x by simp
    from evict_inv [OF c1(1) this] obtain s' f' where s': "evict ?s = Some s'" "cache_inv s' (take (nat (max_blocks ?s)) xs) f' {}"
      "same_limits ?s s'" "map (entry s') (take (nat (max_blocks ?s)) xs) = map (entry ?s) (take (nat (max_blocks ?s)) xs)"
      by (auto elim!: succeedsE)
    have "map (entry s') (take (nat (max_blocks ?s)) xs) = take (nat (lru_max c)) (lru_entries c)"
      using s'(4) c1(2) x(4) by (simp add: take_map [symmetric] del: map_eq_conv)
    then show ?thesis
      using s'(1-3) True x by (auto simp: Unlock_def refines_def lru_unlock_def lru_trim_def same_limits_def simp del: map_eq_conv)
  next
    case False
    then show ?thesis
      using c1 x l by (auto simp: Unlock_def refines_def lru_unlock_def lru_trim_def)
  qed
qed

lemma Clear_refines:
  assumes r: "refines s c"
  shows "succeeds (ClearParamFromCache p s) (\<lambda>s'. refines s' (lru_clear p c))"
proof -
  from refinesE [OF r] obtain xs f where x: "cache_inv s xs f {}" "map (entry s) xs = lru_entries c" "locked s = lru_locked c"
    "max_blocks s = lru_max c" "1 \<le> lru_max c" "0 \<le> lru_locked c" by metis
  let ?s = "s\<lparr>cachepoison := True\<rparr>" and ?ys = "filter (\<lambda>l. lparam s l \<noteq> p) xs"
  from delete_param_blocks_inv [OF cache_inv_flags(2) [OF x(1), of True], of p]
  obtain s1 f1 where s1: "delete_param_blocks p ?s = Some s1" "cache_inv s1 ?ys f1 {}" "same_limits ?s s1" "map (entry s1) ?ys = map (entry s) ?ys"
    unfolding cache_inv_flags(5,7) [OF x(1)] by (elim succeedsE conjE exE) (rule that; assumption)
  have "fst (snd (fst (entry s l))) = lparam s l" for l by (simp add: entry_def lparam_def Let_def)
  then have "map (entry s) ?ys = filter (\<lambda>((_, q, _), _). q \<noteq> p) (lru_entries c)"
    unfolding x(2) [symmetric] filter_map by (simp add: comp_def case_prod_beta)
  then show ?thesis
    using s1 x(3-6) cache_inv_flags [OF s1(2)]
    by (auto simp: ClearParamFromCache_def refines_def lru_clear_def same_limits_def Let_def simp del: map_eq_conv)
qed

lemma Reset_refines:
  assumes r: "refines s c"
  shows "succeeds (szb_reset_buffer d s) (\<lambda>s'. refines s' (c\<lparr>lru_entries := []\<rparr>))"
proof -
  from refinesE [OF r] obtain xs f where x: "cache_inv s xs f {}" "locked s = lru_locked c"
    "max_blocks s = lru_max c" "1 \<le> lru_max c" "0 \<le> lru_locked c" by metis
  let ?s = "s\<lparr>cachepoison := True\<rparr>"
  from freeBlocks_inv [OF cache_inv_flags(2) [OF x(1), of True]]
  obtain s1 f1 where s1: "freeBlocks ?s = Some s1" "cache_inv s1 [] f1 {}" "same_limits ?s s1"
    by (elim succeedsE conjE exE) (rule that; assumption)
  have "blocks_c s1 = 0" using s1(2) by (simp add: cache_inv_def usage_inv_def)
  then show ?thesis
    using s1 x(2-5) cache_inv_flags(3) [OF cache_inv_flags(2) [OF s1(2)]]
    by (auto simp: szb_reset_buffer_def refines_def same_limits_def Let_def)
qed

subsection \<open>Sequences of operations\<close>

datatype cache_op = Get_data tparam int int creation | Get_probes tparam time_t addr addr | Lock_op | Unlock_op
  | Clear_param tparam | Reset_op time_t

fun cache_exec :: "cache_op \<Rightarrow> szb_buffer \<Rightarrow> (addr option \<times> szb_buffer) option" where
  "cache_exec (Get_data p y m cr) s = szb_get_datablock p y m cr s"
| "cache_exec (Get_probes p t b l) s = szb_get_probeblock p t (Created b l True) s"
| "cache_exec Lock_op s = Some (None, Lock s)"
| "cache_exec Unlock_op s = map_option (Pair None) (Unlock s)"
| "cache_exec (Clear_param p) s = map_option (Pair None) (ClearParamFromCache p s)"
| "cache_exec (Reset_op d) s = map_option (Pair None) (szb_reset_buffer d s)"

fun lru_exec :: "cache_op \<Rightarrow> lru \<Rightarrow> addr option \<times> lru" where
  "lru_exec (Get_data p y m cr) c = lru_get (MIN10_BLOCK, p, probe2time 0 y m) cr c"
| "lru_exec (Get_probes p t b l) c = lru_get (SEC10_BLOCK, p, t) (Created b l True) c"
| "lru_exec Lock_op c = (None, c\<lparr>lru_locked := lru_locked c + 1\<rparr>)"
| "lru_exec Unlock_op c = (None, lru_unlock c)"
| "lru_exec (Clear_param p) c = (None, lru_clear p c)"
| "lru_exec (Reset_op d) c = (None, c\<lparr>lru_entries := []\<rparr>)"

text \<open>New objects have addresses that are not in use, and a buffer is unlocked only when locked.\<close>

fun legal :: "cache_op \<Rightarrow> szb_buffer \<Rightarrow> bool" where
  "legal (Get_data p y m cr) s = fresh cr s"
| "legal (Get_probes p t b l) s = fresh (Created b l True) s"
| "legal Unlock_op s = (0 < locked s)"
| "legal _ s = True"

fun cache_run :: "cache_op list \<Rightarrow> szb_buffer \<Rightarrow> (addr option list \<times> szb_buffer) option" where
  "cache_run [] s = Some ([], s)"
| "cache_run (e # es) s = do { (r, s) \<leftarrow> cache_exec e s; (rs, s) \<leftarrow> cache_run es s; Some (r # rs, s) }"

fun legal_run :: "cache_op list \<Rightarrow> szb_buffer \<Rightarrow> bool" where
  "legal_run [] s = True"
| "legal_run (e # es) s \<longleftrightarrow> legal e s \<and> (case cache_exec e s of None \<Rightarrow> True | Some (_, s) \<Rightarrow> legal_run es s)"

fun lru_run :: "cache_op list \<Rightarrow> lru \<Rightarrow> addr option list \<times> lru" where
  "lru_run [] c = ([], c)"
| "lru_run (e # es) c = (let (r, c) = lru_exec e c; (rs, c) = lru_run es c in (r # rs, c))"

lemma succeeds_map: "succeeds (map_option g r) P \<longleftrightarrow> succeeds r (P \<circ> g)"
  by (cases r) (auto simp: succeeds_def)

lemma exec_refines:
  assumes r: "refines s c" and l: "legal e s"
  shows "succeeds (cache_exec e s) (\<lambda>(x, s'). x = fst (lru_exec e c) \<and> refines s' (snd (lru_exec e c)))"
proof (cases e)
  case (Get_data p y m cr)
  then show ?thesis using get_datablock_refines [OF r, of cr p y m] l by simp
next
  case (Get_probes p t b l')
  then show ?thesis using get_probeblock_refines [OF r, of "Created b l' True" p t] l by simp
next
  case Unlock_op
  then show ?thesis using Unlock_refines [OF r] l by (simp add: succeeds_map comp_def)
qed (use Lock_refines [OF r] Clear_refines [OF r] Reset_refines [OF r] in \<open>simp_all add: succeeds_map comp_def\<close>)

lemma run_refines:
  assumes "refines s c" "legal_run es s"
  shows "\<exists>s'. cache_run es s = Some (fst (lru_run es c), s') \<and> refines s' (snd (lru_run es c))"
  using assms
proof (induction es arbitrary: s c)
  case (Cons e es)
  obtain s1 where s1: "cache_exec e s = Some (fst (lru_exec e c), s1)" "refines s1 (snd (lru_exec e c))"
    by (rule succeedsE [OF exec_refines [OF Cons.prems(1), of e]]) (use Cons.prems(2) in \<open>auto intro: that\<close>)
  then have "legal_run es s1" using Cons.prems(2) by simp
  from Cons.IH [OF s1(2) this] show ?case using s1(1) by (auto simp: case_prod_beta Let_def)
qed simp

subsection \<open>Properties of the abstract cache\<close>

definition lru_ok :: "lru \<Rightarrow> bool" where
  "lru_ok c \<longleftrightarrow> 1 \<le> lru_max c \<and> (lru_locked c = 0 \<longrightarrow> length (lru_entries c) \<le> nat (lru_max c))"

lemma lru_trim_ok: "1 \<le> lru_max c \<Longrightarrow> lru_ok (lru_trim c)"
  by (simp add: lru_ok_def lru_trim_def)

lemma lru_get_ok:
  assumes "lru_ok c"
  shows "lru_ok (snd (lru_get k cr c))"
proof -
  have f: "lru_ok (snd (lru_find k c))"
    using assms map_of_SomeD [of "lru_entries c" k] length_pos_if_in_set [of _ "lru_entries c"]
    by (auto simp: lru_find_def lru_ok_def length_remove1 split: option.splits)
  have a: "lru_ok (lru_add k b c)" for b using lru_trim_ok assms by (simp add: lru_add_def lru_ok_def)
  have r: "lru_ok (c'\<lparr>lru_entries := remove1 x (lru_entries c')\<rparr>)" if "lru_ok c'" for c' x
    using that by (auto simp: lru_ok_def length_remove1)
  show ?thesis
    using f a r [OF a] lru_find_None(2) [of k c]
    by (cases "lru_find k c"; cases cr; cases "fst (lru_find k c)") (auto simp: lru_get_def Let_def)
qed

lemma lru_exec_ok:
  assumes "refines s c" "legal e s" "lru_ok c"
  shows "lru_ok (snd (lru_exec e c))"
proof (cases e)
  case (Clear_param p)
  have "length (filter P xs) \<le> n" if "length xs \<le> n" for P n and xs :: "((block_type \<times> buffer_key) \<times> addr) list"
    using that length_filter_le [of P xs] by linarith
  then show ?thesis using Clear_param assms by (auto simp: lru_ok_def lru_clear_def)
qed (use assms lru_get_ok lru_trim_ok in \<open>auto simp: refines_def lru_ok_def lru_unlock_def\<close>)

lemma run_ok:
  assumes "refines s c" "legal_run es s" "lru_ok c"
  shows "lru_ok (snd (lru_run es c))"
  using assms
proof (induction es arbitrary: s c)
  case (Cons e es)
  obtain s1 where s1: "cache_exec e s = Some (fst (lru_exec e c), s1)" "refines s1 (snd (lru_exec e c))"
    by (rule succeedsE [OF exec_refines [OF Cons.prems(1), of e]]) (use Cons.prems(2) in \<open>auto intro: that\<close>)
  then have "legal_run es s1" "lru_ok (snd (lru_exec e c))" using Cons.prems lru_exec_ok by simp_all
  from Cons.IH [OF s1(2) this] show ?case by (simp add: case_prod_beta Let_def)
qed simp

text \<open>A block is at a position of the usage list of at most \<open>i\<close>.\<close>

definition at_most :: "block_type \<times> buffer_key \<Rightarrow> addr \<Rightarrow> nat \<Rightarrow> lru \<Rightarrow> bool" where
  "at_most k b i c \<longleftrightarrow> (\<exists>pre post. lru_entries c = pre @ (k, b) # post \<and> length pre \<le> i \<and> k \<notin> fst ` set pre)"

lemma at_mostI: "lru_entries c = pre @ (k, b) # post \<Longrightarrow> length pre \<le> i \<Longrightarrow> k \<notin> fst ` set pre \<Longrightarrow> at_most k b i c"
  by (auto simp: at_most_def)

lemma at_most_found:
  assumes "at_most k b i c"
  shows "map_of (lru_entries c) k = Some b"
proof -
  obtain pre post where e: "lru_entries c = pre @ (k, b) # post" "k \<notin> fst ` set pre" using assms by (auto simp: at_most_def)
  have "map_of pre k = None" using e(2) by (simp add: map_of_eq_None_iff)
  then show ?thesis using e(1) by (simp add: map_add_def)
qed

lemma at_most_find:
  assumes a: "at_most k b i c" and b: "map_of (lru_entries c) j = Some d"
  shows "at_most k b (Suc i) (snd (lru_find j c))"
proof (cases "j = k")
  case True
  then have "d = b" using at_most_found [OF a] b by simp
  then show ?thesis using True b by (intro at_mostI [of _ "[]"]) (simp_all add: lru_find_def)
next
  case False
  obtain pre post where e: "lru_entries c = pre @ (k, b) # post" "length pre \<le> i" "k \<notin> fst ` set pre"
    using a by (auto simp: at_most_def)
  have r: "remove1 (j, d) (pre @ (k, b) # post) = (if (j, d) \<in> set pre then remove1 (j, d) pre @ (k, b) # post
    else pre @ (k, b) # remove1 (j, d) post)" using False by (simp add: remove1_append)
  have "k \<notin> fst ` set (remove1 (j, d) pre)" "length (remove1 (j, d) pre) \<le> i"
    using e(2,3) set_remove1_subset [of "(j, d)" pre] by (auto simp: length_remove1)
  then have "at_most k b (Suc i) (c\<lparr>lru_entries := (j, d) # remove1 (j, d) (lru_entries c)\<rparr>)"
    using False e r at_mostI [of _ "(j, d) # remove1 (j, d) pre" k b post "Suc i"]
      at_mostI [of _ "(j, d) # pre" k b "remove1 (j, d) post" "Suc i"]
    by (cases "(j, d) \<in> set pre") simp_all
  then show ?thesis using b by (simp add: lru_find_def)
qed

lemma at_most_add:
  assumes a: "at_most k b i c" and j: "j \<noteq> k" and m: "Suc i < nat (lru_max c)"
  shows "at_most k b (Suc i) (lru_add j d c)" "at_most k b (Suc i) ((lru_add j d c)\<lparr>lru_entries := remove1 (j, d) (lru_entries (lru_add j d c))\<rparr>)"
proof -
  obtain pre post where e: "lru_entries c = pre @ (k, b) # post" "length pre \<le> i" "k \<notin> fst ` set pre"
    using a by (auto simp: at_most_def)
  obtain post' where p: "lru_entries (lru_add j d c) = ((j, d) # pre) @ (k, b) # post'"
  proof (cases "lru_locked c = 0")
    case True
    obtain n where n: "nat (lru_max c) = Suc (length pre + Suc n)"
      using e(2) m that by (intro that [of "nat (lru_max c) - length pre - 2"]) simp
    show thesis using that [of "take n post"] True e(1) by (simp add: lru_add_def lru_trim_def n)
  qed (use that e(1) in \<open>simp add: lru_add_def lru_trim_def\<close>)
  show "at_most k b (Suc i) (lru_add j d c)" using e(2,3) j by (intro at_mostI [OF p]) auto
  show "at_most k b (Suc i) ((lru_add j d c)\<lparr>lru_entries := remove1 (j, d) (lru_entries (lru_add j d c))\<rparr>)"
    using e(2,3) p by (intro at_mostI [of _ pre]) auto
qed

lemma at_most_get:
  assumes a: "at_most k b i c" and m: "Suc i < nat (lru_max c)"
  shows "at_most k b (Suc i) (snd (lru_get j cr c)) \<and> lru_max (snd (lru_get j cr c)) = lru_max c"
proof (cases "map_of (lru_entries c) j")
  case None
  then have j: "j \<noteq> k" using at_most_found [OF a] by auto
  have "lru_get j cr c = (case cr of No_block \<Rightarrow> (None, c) | Created d _ i \<Rightarrow>
    (if i then (Some d, lru_add j d c) else (None, (lru_add j d c)\<lparr>lru_entries := remove1 (j, d) (lru_entries (lru_add j d c))\<rparr>)))"
    using None by (simp add: lru_get_def lru_find_def Let_def split: creation.splits)
  moreover have "at_most k b (Suc i) c" using a by (auto simp: at_most_def)
  moreover have "lru_max (lru_add j d c) = lru_max c" for d by (simp add: lru_add_def lru_trim_def)
  ultimately show ?thesis using at_most_add [OF a j m] by (simp split: creation.splits)
next
  case (Some d)
  have "lru_get j cr c = lru_find j c" using Some by (simp add: lru_get_def lru_find_def)
  then show ?thesis using at_most_find [OF a Some] Some by (simp add: lru_find_def)
qed

fun is_get :: "cache_op \<Rightarrow> bool" where
  "is_get (Get_data _ _ _ _) = True"
| "is_get (Get_probes _ _ _ _) = True"
| "is_get _ = False"

lemma lru_exec_is_get: "is_get e \<Longrightarrow> \<exists>j cr. lru_exec e c = lru_get j cr c"
  by (cases e) auto

lemma at_most_run:
  assumes "at_most k b i c" "list_all is_get es" "i + length es < nat (lru_max c)"
  shows "at_most k b (i + length es) (snd (lru_run es c))"
  using assms
proof (induction es arbitrary: c i)
  case (Cons e es)
  then obtain j cr where e: "lru_exec e c = lru_get j cr c" using lru_exec_is_get [of e c] by auto
  have "at_most k b (Suc i) (snd (lru_exec e c))" "lru_max (snd (lru_exec e c)) = lru_max c"
    using at_most_get [OF Cons.prems(1), of j cr] Cons.prems(3) e by simp_all
  then show ?case using Cons.IH [of "Suc i" "snd (lru_exec e c)"] Cons.prems(2,3) by (simp add: case_prod_beta Let_def)
qed simp

lemma lru_get_at_most:
  assumes "fst (lru_get k cr c) = Some b" "lru_ok c"
  shows "at_most k b 0 (snd (lru_get k cr c))"
proof (cases "map_of (lru_entries c) k")
  case None
  then obtain l where l: "cr = Created b l True" using assms(1) by (auto simp: lru_get_def lru_find_def Let_def split: creation.splits if_splits)
  have "lru_entries (lru_add k b c) = [] @ (k, b) # tl (lru_entries (lru_add k b c))"
    using assms(2) by (cases "nat (lru_max c)") (auto simp: lru_add_def lru_trim_def lru_ok_def)
  from at_mostI [OF this] show ?thesis using None l by (simp add: lru_get_def lru_find_def Let_def)
next
  case (Some d)
  then show ?thesis using assms(1) by (intro at_mostI [of _ "[]"]) (simp_all add: lru_get_def lru_find_def)
qed

lemma lru_run_append: "lru_run (es @ fs) c = (let (rs, c) = lru_run es c; (rs', c) = lru_run fs c in (rs @ rs', c))"
  by (induction es arbitrary: c) (simp_all add: case_prod_beta Let_def)

lemma length_lru_run: "length (fst (lru_run es c)) = length es"
  by (induction es arbitrary: c) (simp_all add: case_prod_beta Let_def)

lemma lru_run_max: "lru_max (snd (lru_run es c)) = lru_max c"
proof (induction es arbitrary: c)
  case (Cons e es)
  have f: "lru_max (snd (lru_find k c)) = lru_max c" for k by (simp add: lru_find_def split: option.splits)
  have g: "lru_max (snd (lru_get k cr c)) = lru_max c" for k cr
    using lru_find_None(2) [of k c] f [of k] unfolding lru_get_def
    by (cases "lru_find k c"; cases "fst (lru_find k c)") (auto simp: Let_def lru_add_def lru_trim_def split: creation.splits)
  have "lru_max (snd (lru_exec e c)) = lru_max c"
    by (cases e) (auto simp: g lru_unlock_def lru_trim_def lru_clear_def)
  then show ?case using Cons [of "snd (lru_exec e c)"] by (simp add: case_prod_beta Let_def)
qed simp

lemma legal_run_prefix: "legal_run (es @ fs) s \<Longrightarrow> legal_run es s"
  by (induction es arbitrary: s) (auto split: option.splits)

subsection \<open>Properties\<close>


definition demo_ops :: "cache_op list" where
  "demo_ops = [Get_data 1 2010 1 (Created 10 20 True), Get_data 1 2010 2 (Created 11 21 True), Get_probes 2 0 12 22,
     Get_data 1 2010 2 No_block, Lock_op, Get_data 3 2010 1 (Created 13 23 True), Get_data 4 2010 1 (Created 14 24 False),
     Unlock_op, Get_data 1 2010 2 No_block, Clear_param 1, Reset_op 7]"


text \<open>C34. After such a sequence the blocks and locators that are allocated are exactly those the buffer counts,
  so nothing is lost; and a buffer that is not locked holds at most the number of blocks it was made for.\<close>

theorem cache_bounded:
  assumes n: "1 \<le> n" and l: "legal_run es (szb_buffer_new n)" and r: "cache_run es (szb_buffer_new n) = Some (rs, s)"
  shows "int (card (dom (blocks s))) = blocks_c s \<and> int (card (dom (locators s))) = blocks_c s \<and>
    (locked s = 0 \<longrightarrow> blocks_c s \<le> n)"
proof -
  have s: "refines s (snd (lru_run es (lru_new n)))" using run_refines [OF refines_new [OF n] l] r by auto
  have ok: "lru_ok (snd (lru_run es (lru_new n)))" by (rule run_ok [OF refines_new [OF n] l]) (use n in \<open>simp add: lru_ok_def lru_new_def\<close>)
  from refinesE [OF s] obtain xs f where x: "cache_inv s xs f {}" "map (entry s) xs = lru_entries (snd (lru_run es (lru_new n)))"
    "locked s = lru_locked (snd (lru_run es (lru_new n)))" by metis
  have d: "distinct xs" "dom (locators s) = set xs" "blocks_c s = int (length xs)" "dom (blocks s) = f_block (locators s) ` set xs"
    "inj_on (f_block (locators s)) (set xs)"
    using x(1) by (simp_all add: cache_inv_def usage_inv_def block_inv_def)
  have "length xs = length (lru_entries (snd (lru_run es (lru_new n))))" using x(2) by (metis length_map)
  moreover have "lru_max (snd (lru_run es (lru_new n))) = n" by (simp add: lru_run_max) (simp add: lru_new_def)
  ultimately have "locked s = 0 \<longrightarrow> length xs \<le> nat n" using ok x(3) by (simp add: lru_ok_def)
  then show ?thesis using d n by (auto simp: distinct_card card_image)
qed

theorem cache_bounded_witness:
  "\<exists>rs s. cache_run (take 8 demo_ops) (szb_buffer_new 2) = Some (rs, s) \<and> int (card (dom (blocks s))) = blocks_c s \<and>
     int (card (dom (locators s))) = blocks_c s \<and> locked s = 0 \<and> blocks_c s \<le> 2"
proof -
  let ?r = "cache_run (take 8 demo_ops) (szb_buffer_new 2)"
  have l: "legal_run (take 8 demo_ops) (szb_buffer_new 2)" by code_simp
  have "map_option (locked \<circ> snd) ?r = Some 0" by code_simp
  then obtain rs s where r: "?r = Some (rs, s)" "locked s = 0" by (cases ?r) auto
  show ?thesis using cache_bounded [OF _ l r(1)] r by auto
qed

text \<open>C35. A block that was got is still in the cache, and the same block is returned without loading it again,
  as long as fewer blocks than the buffer may hold were asked for since.\<close>

theorem recently_used_stay:
  assumes n: "1 \<le> n" and l: "legal_run (es @ Get_data p y m cr # fs @ [Get_data p y m No_block]) (szb_buffer_new n)"
    and g: "list_all is_get fs" "int (length fs) < n"
    and r: "cache_run (es @ Get_data p y m cr # fs @ [Get_data p y m No_block]) (szb_buffer_new n) = Some (rs @ Some b # rs' @ [x], s)"
    and len: "length rs = length es" "length rs' = length fs"
  shows "x = Some b"
proof -
  let ?k = "(MIN10_BLOCK, p, probe2time 0 y m)" and ?g = "Get_data p y m cr" and ?g' = "Get_data p y m No_block"
  define c0 where "c0 = snd (lru_run es (lru_new n))"
  define c1 where "c1 = snd (lru_get ?k cr c0)"
  define c2 where "c2 = snd (lru_run fs c1)"
  have "fst (lru_run (es @ ?g # fs @ [?g']) (lru_new n)) = rs @ Some b # rs' @ [x]"
    using run_refines [OF refines_new [OF n] l] r by auto
  then have "fst (lru_run es (lru_new n)) @ fst (lru_get ?k cr c0) # fst (lru_run fs c1) @ [fst (lru_get ?k No_block c2)] = rs @ Some b # rs' @ [x]"
    by (simp add: lru_run_append case_prod_beta Let_def c0_def c1_def c2_def)
  then have e: "fst (lru_get ?k cr c0) = Some b" "fst (lru_get ?k No_block c2) = x"
    using len by (simp_all add: length_lru_run append_eq_append_conv)
  have "lru_ok c0" unfolding c0_def
    by (rule run_ok [OF refines_new [OF n] legal_run_prefix [OF l]]) (use n in \<open>simp add: lru_ok_def lru_new_def\<close>)
  then have "at_most ?k b 0 c1" using lru_get_at_most [OF e(1)] by (simp add: c1_def)
  moreover have "lru_max c1 = n"
    using lru_run_max [of "[?g]" c0] lru_run_max [of es "lru_new n"] by (simp add: c1_def c0_def case_prod_beta Let_def) (simp add: lru_new_def)
  ultimately have "at_most ?k b (length fs) c2" using at_most_run [of ?k b 0 c1 fs] g n by (simp add: c2_def)
  from at_most_found [OF this] show ?thesis using e(2) by (simp add: lru_get_def lru_find_def)
qed

definition demo_reuse :: "cache_op list" where
  "demo_reuse = [] @ Get_data 1 2010 1 (Created 10 20 True) # [Get_probes 2 0 12 22] @ [Get_data 1 2010 1 No_block]"

theorem recently_used_stay_witness:
  "legal_run demo_reuse (szb_buffer_new 2) \<and>
   (\<exists>x s. cache_run demo_reuse (szb_buffer_new 2) = Some ([] @ Some 10 # [Some 12] @ [x], s) \<and> x = Some 10)"
proof -
  have l: "legal_run demo_reuse (szb_buffer_new 2)" by code_simp
  have "map_option (take 2 \<circ> fst) (cache_run demo_reuse (szb_buffer_new 2)) = Some [Some 10, Some 12]"
    "map_option (length \<circ> fst) (cache_run demo_reuse (szb_buffer_new 2)) = Some 3" by code_simp+
  then obtain rs s where r: "cache_run demo_reuse (szb_buffer_new 2) = Some (rs, s)" "take 2 rs = [Some 10, Some 12]" "length rs = 3"
    by auto
  then obtain x where "rs = [] @ Some 10 # [Some 12] @ [x]" by (auto simp: numeral_3_eq_3 length_Suc_conv numeral_2_eq_2)
  then show ?thesis
    using r(1) l recently_used_stay [of 2 "[]" 1 2010 1 "Created 10 20 True" "[Get_probes 2 0 12 22]" "[]" 10 "[Some 12]" x s]
    by (auto simp: demo_reuse_def)
qed

text \<open>When no probe block can be created (a definable parameter with an error, or an averaging Lua
  parameter), \<open>szb_get_probeblock\<close> follows a null pointer, although its callers test for a null block.\<close>

lemma null_probe_block:
  assumes "refines s c" "map_of (lru_entries c) (SEC10_BLOCK, p, t) = None"
  shows "szb_get_probeblock p t No_block s = None"
proof -
  obtain s1 where "FindProbeBlock p t s = Some (None, s1)"
    by (rule succeedsE [OF FindProbeBlock_refines [OF assms(1), of p t]]) (use assms(2) in \<open>auto simp: lru_find_def intro: that\<close>)
  then show ?thesis by (simp add: szb_get_probeblock_def)
qed

text \<open>A limit of -1, which the header calls no limit, makes the first insertion delete its own block and
  then use the dangling pointer.\<close>

lemma no_limit_fails: "cache_run [Get_data 1 2010 1 (Created 10 20 True)] (szb_buffer_new (- 1)) = None"
  by code_simp

end
