(* ===== verification/Ieee.thy ===== *)
theory Ieee
  imports Prelude Complex_Main
begin

text \<open>
  The binary floating point the sources compute with: \<open>float\<close> and \<open>double\<close> with round to
  nearest even. A finite number is the rational it denotes; the two zeros are not distinguished,
  which no source modelled here can observe (every division is guarded against a zero divisor).
  Conversions to integers are those of the x86 instructions: a value out of range gives the least
  integer of the width.
\<close>

datatype fp = FNaN | FInf bool | Fin rat

record format =
  prec :: nat
  emin :: int
  emax :: int

definition float32 :: format where
  "float32 = \<lparr> prec = 24, emin = - 126, emax = 127 \<rparr>"

definition float64 :: format where
  "float64 = \<lparr> prec = 53, emin = - 1022, emax = 1023 \<rparr>"

definition pow2 :: "int \<Rightarrow> rat" where
  "pow2 e = (if 0 \<le> e then of_int (2 ^ nat e) else 1 / of_int (2 ^ nat (- e)))"

text \<open>Nearest integer, ties to even: \<open>rint\<close> of the default rounding mode.\<close>

definition rnd_int :: "rat \<Rightarrow> int" where
  "rnd_int r = (let f = \<lfloor>r\<rfloor>; d = r - of_int f in
     if d < 1 / 2 then f else if 1 / 2 < d then f + 1 else if even f then f else f + 1)"

text \<open>Number of binary digits, and the binary exponent of a positive number.\<close>

function bitlen :: "int \<Rightarrow> int" where
  "bitlen n = (if n \<le> 0 then 0 else 1 + bitlen (n div 2))"
  by auto
termination by (relation "measure nat") auto

declare bitlen.simps [simp del]

definition binexp :: "rat \<Rightarrow> int" where
  "binexp r = (case quotient_of r of (n, d) \<Rightarrow>
     let e = bitlen n - bitlen d in if r < pow2 e then e - 1 else e)"

definition round_to :: "format \<Rightarrow> rat \<Rightarrow> fp" where
  "round_to f r = (if r = 0 then Fin 0 else
     let e = max (emin f) (binexp \<bar>r\<bar>); u = pow2 (e - int (prec f) + 1); v = of_int (rnd_int (r / u)) * u in
     if v \<noteq> 0 \<and> emax f < binexp \<bar>v\<bar> then FInf (r < 0) else Fin v)"

fun convert :: "format \<Rightarrow> fp \<Rightarrow> fp" where
  "convert f (Fin r) = round_to f r"
| "convert f x = x"

fun fneg :: "fp \<Rightarrow> fp" where
  "fneg (Fin r) = Fin (- r)"
| "fneg (FInf s) = FInf (\<not> s)"
| "fneg FNaN = FNaN"

fun fadd :: "format \<Rightarrow> fp \<Rightarrow> fp \<Rightarrow> fp" where
  "fadd f (Fin a) (Fin b) = round_to f (a + b)"
| "fadd f (FInf s) (FInf t) = (if s = t then FInf s else FNaN)"
| "fadd f (FInf s) (Fin _) = FInf s"
| "fadd f (Fin _) (FInf s) = FInf s"
| "fadd f FNaN _ = FNaN"
| "fadd f _ FNaN = FNaN"

definition fsub :: "format \<Rightarrow> fp \<Rightarrow> fp \<Rightarrow> fp" where
  "fsub f a b = fadd f a (fneg b)"

fun fmul :: "format \<Rightarrow> fp \<Rightarrow> fp \<Rightarrow> fp" where
  "fmul f (Fin a) (Fin b) = round_to f (a * b)"
| "fmul f (FInf s) (FInf t) = FInf (s \<noteq> t)"
| "fmul f (FInf s) (Fin r) = (if r = 0 then FNaN else FInf (s \<noteq> (r < 0)))"
| "fmul f (Fin r) (FInf s) = (if r = 0 then FNaN else FInf (s \<noteq> (r < 0)))"
| "fmul f FNaN _ = FNaN"
| "fmul f _ FNaN = FNaN"

text \<open>Division; the quotient by zero of a non-zero number is given the sign of the dividend.\<close>

fun fdiv :: "format \<Rightarrow> fp \<Rightarrow> fp \<Rightarrow> fp" where
  "fdiv f (Fin a) (Fin b) = (if b = 0 then (if a = 0 then FNaN else FInf (a < 0)) else round_to f (a / b))"
| "fdiv f (FInf s) (FInf t) = FNaN"
| "fdiv f (FInf s) (Fin r) = FInf (s \<noteq> (r < 0))"
| "fdiv f (Fin _) (FInf _) = Fin 0"
| "fdiv f FNaN _ = FNaN"
| "fdiv f _ FNaN = FNaN"

fun fless :: "fp \<Rightarrow> fp \<Rightarrow> bool" where
  "fless (Fin a) (Fin b) = (a < b)"
| "fless (FInf s) (FInf t) = (s \<and> \<not> t)"
| "fless (FInf s) (Fin _) = s"
| "fless (Fin _) (FInf s) = (\<not> s)"
| "fless FNaN _ = False"
| "fless _ FNaN = False"

definition feq :: "fp \<Rightarrow> fp \<Rightarrow> bool" where
  "feq a b \<longleftrightarrow> a = b \<and> a \<noteq> FNaN"

definition fle :: "fp \<Rightarrow> fp \<Rightarrow> bool" where
  "fle a b \<longleftrightarrow> fless a b \<or> feq a b"

text \<open>\<open>rint\<close>, \<open>floor\<close> and \<open>fmod(x, 1.0)\<close> are exact on numbers of the format.\<close>

fun frint :: "fp \<Rightarrow> fp" where
  "frint (Fin r) = Fin (of_int (rnd_int r))"
| "frint x = x"

fun ffloor :: "fp \<Rightarrow> fp" where
  "ffloor (Fin r) = Fin (of_int \<lfloor>r\<rfloor>)"
| "ffloor x = x"

definition trunc_rat :: "rat \<Rightarrow> int" where
  "trunc_rat r = (if r < 0 then - \<lfloor>- r\<rfloor> else \<lfloor>r\<rfloor>)"

fun fmod1 :: "fp \<Rightarrow> fp" where
  "fmod1 (Fin r) = Fin (r - of_int (trunc_rat r))"
| "fmod1 _ = FNaN"

text \<open>Conversion to \<open>int\<close>: truncation, and \<open>INT_MIN\<close> for anything that does not fit. Narrower
  types take the low bits of it.\<close>

fun to_int32 :: "fp \<Rightarrow> 32 word" where
  "to_int32 (Fin r) = (let t = trunc_rat r in
     if - (2 ^ 31) \<le> t \<and> t < 2 ^ 31 then word_of_int t else word_of_int (- (2 ^ 31)))"
| "to_int32 _ = word_of_int (- (2 ^ 31))"

definition to_short :: "fp \<Rightarrow> short" where
  "to_short x = ucast (to_int32 x)"

definition to_uchar :: "fp \<Rightarrow> 8 word" where
  "to_uchar x = ucast (to_int32 x)"

definition of_int_fp :: "format \<Rightarrow> int \<Rightarrow> fp" where
  "of_int_fp f n = round_to f (of_int n)"

subsection \<open>Powers of two\<close>

lemma pow2_eq_powi: "pow2 e = 2 powi e"
  by (simp add: pow2_def power_int_def power_inverse inverse_eq_divide power_one_over)

lemma pow2_pos [simp]: "0 < pow2 e"
  by (simp add: pow2_eq_powi)

lemma pow2_add: "pow2 (a + b) = pow2 a * pow2 b"
  by (simp add: pow2_eq_powi power_int_add)

lemma pow2_0 [simp]: "pow2 0 = 1"
  by (simp add: pow2_def)

lemma pow2_1 [simp]: "pow2 1 = 2"
  by (simp add: pow2_def)

lemma pow2_diff: "pow2 (a - b) = pow2 a / pow2 b"
  by (simp add: pow2_eq_powi power_int_diff)

lemma pow2_strict: "a < b \<Longrightarrow> pow2 a < pow2 b"
  by (simp add: pow2_eq_powi power_int_strict_increasing)

lemma pow2_less_iff [simp]: "pow2 a < pow2 b \<longleftrightarrow> a < b"
  using pow2_strict [of a b] pow2_strict [of b a] by (cases a b rule: linorder_cases) auto

lemma pow2_mono_iff [simp]: "pow2 a \<le> pow2 b \<longleftrightarrow> a \<le> b"
  by (metis pow2_less_iff linorder_not_le)

lemma pow2_int: "0 \<le> e \<Longrightarrow> \<exists>k. pow2 e = of_int k"
  by (auto simp: pow2_def)

lemma bitlen_nonneg: "0 \<le> bitlen n"
proof (induction n rule: bitlen.induct)
  case (1 n)
  then show ?case by (subst bitlen.simps) auto
qed

lemma bitlen_bounds:
  assumes "0 < n"
  shows "pow2 (bitlen n - 1) \<le> of_int n" and "of_int n < pow2 (bitlen n)"
proof -
  have "pow2 (bitlen n - 1) \<le> of_int n \<and> of_int n < pow2 (bitlen n)"
    using assms
  proof (induction n rule: bitlen.induct)
    case (1 n)
    show ?case
    proof (cases "n = 1")
      case True
      then show ?thesis by (simp add: bitlen.simps)
    next
      case False
      with "1.prems" have h: "0 < n div 2" by auto
      have len: "bitlen n = 1 + bitlen (n div 2)"
        using "1.prems" by (subst bitlen.simps) simp
      let ?h = "of_int (n div 2) :: rat"
      have "2 * (n div 2) \<le> n" "n < 2 * (n div 2) + 2" by presburger+
      then have "(of_int (2 * (n div 2)) :: rat) \<le> of_int n"
        "(of_int n :: rat) < of_int (2 * (n div 2) + 2)"
        by (simp_all only: of_int_le_iff of_int_less_iff)
      then have n: "2 * ?h \<le> of_int n" "(of_int n :: rat) < 2 * ?h + 2" by simp_all
      have IH: "pow2 (bitlen (n div 2) - 1) \<le> ?h" "?h < pow2 (bitlen (n div 2))"
        using "1.IH" "1.prems" h by auto
      have "0 \<le> bitlen (n div 2)" by (rule bitlen_nonneg)
      then obtain k where k: "pow2 (bitlen (n div 2)) = of_int k" using pow2_int by blast
      have "n div 2 + 1 \<le> k" using IH(2) k by simp
      then have "(of_int (n div 2 + 1) :: rat) \<le> of_int k" by (simp only: of_int_le_iff)
      then have "?h + 1 \<le> pow2 (bitlen (n div 2))" by (simp add: k)
      then have "of_int n < pow2 (bitlen n)" using n(2) by (simp add: len pow2_add)
      moreover have "pow2 (bitlen n - 1) = 2 * pow2 (bitlen (n div 2) - 1)"
        using pow2_add [of 1 "bitlen (n div 2) - 1"] by (simp add: len)
      ultimately show ?thesis using IH(1) n(1) by linarith
    qed
  qed
  then show "pow2 (bitlen n - 1) \<le> of_int n" and "of_int n < pow2 (bitlen n)" by auto
qed

lemma binexp_bounds:
  assumes "0 < r"
  shows "pow2 (binexp r) \<le> r" and "r < pow2 (binexp r + 1)"
proof -
  obtain n d where q: "quotient_of r = (n, d)" by fastforce
  have d: "0 < d" using quotient_of_denom_pos [OF q] .
  have r: "r = of_int n / of_int d" using quotient_of_div [OF q] .
  with assms d have n: "0 < n" by (simp add: zero_less_divide_iff)
  let ?e = "bitlen n - bitlen d"
  note bn = bitlen_bounds [OF n] and bd = bitlen_bounds [OF d]
  have "r < pow2 (bitlen n) / pow2 (bitlen d - 1)"
    unfolding r using bn bd d n by (intro frac_less) (simp_all, (metis of_int_0_le_iff order_less_imp_le)?)
  then have up: "r < pow2 (?e + 1)"
    by (simp flip: pow2_diff add: algebra_simps)
  have "pow2 (bitlen n - 1) / pow2 (bitlen d) \<le> r"
    unfolding r using bn bd d n by (intro frac_le) simp_all
  then have lo: "pow2 (?e - 1) \<le> r"
    by (simp flip: pow2_diff add: algebra_simps)
  show "pow2 (binexp r) \<le> r" "r < pow2 (binexp r + 1)"
    using up lo by (auto simp: binexp_def q Let_def)
qed

subsection \<open>Rounding\<close>

lemma rnd_int_of_int [simp]: "rnd_int (of_int k) = k"
  by (simp add: rnd_int_def)

lemma rnd_int_error: "\<bar>of_int (rnd_int x) - x\<bar> \<le> 1 / 2"
  using floor_correct [of x] by (auto simp: rnd_int_def Let_def)

lemma rnd_int_near: "\<bar>x - of_int k\<bar> < 1 / 2 \<Longrightarrow> rnd_int x = k"
proof -
  assume "\<bar>x - of_int k\<bar> < 1 / 2"
  with rnd_int_error [of x] have "\<bar>of_int (rnd_int x) - (of_int k :: rat)\<bar> < 1" by linarith
  then have "\<bar>rnd_int x - k\<bar> < 1" by (metis of_int_abs of_int_diff of_int_less_1_iff)
  then show ?thesis by simp
qed

text \<open>The unit in the last place the rounding uses.\<close>

definition ulp_at :: "format \<Rightarrow> rat \<Rightarrow> rat" where
  "ulp_at f r = pow2 (max (emin f) (binexp \<bar>r\<bar>) - int (prec f) + 1)"

lemma ulp_at_pos [simp]: "0 < ulp_at f r"
  by (simp add: ulp_at_def)

lemma round_to_nonzero:
  assumes "r \<noteq> 0"
  shows "round_to f r = (let v = of_int (rnd_int (r / ulp_at f r)) * ulp_at f r in
     if v \<noteq> 0 \<and> emax f < binexp \<bar>v\<bar> then FInf (r < 0) else Fin v)"
  using assms by (simp add: round_to_def ulp_at_def Let_def)

lemma round_to_error:
  assumes "round_to f r = Fin v"
  shows "\<bar>v - r\<bar> \<le> ulp_at f r / 2"
proof (cases "r = 0")
  case True
  then show ?thesis using assms by (simp add: round_to_def order_less_imp_le)
next
  case False
  then have v: "v = of_int (rnd_int (r / ulp_at f r)) * ulp_at f r"
    using assms by (simp add: round_to_nonzero Let_def split: if_splits)
  have "ulp_at f r \<noteq> 0" using ulp_at_pos [of f r] by linarith
  then have "v - r = (of_int (rnd_int (r / ulp_at f r)) - r / ulp_at f r) * ulp_at f r"
    by (simp add: v left_diff_distrib)
  then have "\<bar>v - r\<bar> = \<bar>of_int (rnd_int (r / ulp_at f r)) - r / ulp_at f r\<bar> * ulp_at f r"
    by (simp add: abs_mult abs_of_pos)
  also have "\<dots> \<le> 1 / 2 * ulp_at f r"
    using rnd_int_error by (intro mult_right_mono) (simp_all add: order_less_imp_le)
  finally show ?thesis by simp
qed

lemma binexp_le:
  assumes "0 < r" "r < pow2 (e + 1)"
  shows "binexp r \<le> e"
proof -
  have "pow2 (binexp r) < pow2 (e + 1)" using binexp_bounds(1) [OF assms(1)] assms(2) by linarith
  then show ?thesis by simp
qed

lemma ulp_at_le:
  assumes "0 < \<bar>r\<bar>" "\<bar>r\<bar> < pow2 (e + 1)" "emin f \<le> e"
  shows "ulp_at f r \<le> pow2 (e - int (prec f) + 1)"
  using binexp_le [OF assms(1,2)] assms(3) by (simp add: ulp_at_def)

text \<open>A multiple of the unit in the last place that is in range is kept.\<close>

lemma round_to_exact:
  assumes "r = of_int k * ulp_at f r" "r = 0 \<or> binexp \<bar>r\<bar> \<le> emax f"
  shows "round_to f r = Fin r"
proof (cases "r = 0")
  case False
  have "r / ulp_at f r = of_int k"
    using assms(1) ulp_at_pos [of f r] by (metis less_irrefl nonzero_mult_div_cancel_right)
  then have "of_int (rnd_int (r / ulp_at f r)) * ulp_at f r = r"
    using assms(1) by simp
  then show ?thesis using assms(2) False by (simp add: round_to_nonzero Let_def)
qed (simp add: round_to_def)

lemma ulp_at_divides_int:
  assumes "\<bar>of_int n :: rat\<bar> < pow2 (int (prec f))" "emin f \<le> int (prec f) - 1" "n \<noteq> 0"
  shows "\<exists>k. of_int n = of_int k * ulp_at f (of_int n)"
proof -
  let ?e = "max (emin f) (binexp \<bar>of_int n\<bar>) - int (prec f) + 1"
  have "binexp \<bar>of_int n\<bar> \<le> int (prec f) - 1"
    using assms(1,3) by (intro binexp_le) simp_all
  then have "0 \<le> - ?e" using assms(2) by simp
  then obtain k where k: "pow2 (- ?e) = of_int k" using pow2_int by blast
  have "pow2 (- ?e) * pow2 ?e = 1" by (simp flip: pow2_add)
  then have "of_int n = of_int (n * k) * ulp_at f (of_int n)"
    by (simp add: ulp_at_def flip: k)
  then show ?thesis by blast
qed

lemma round_to_of_int:
  assumes "\<bar>of_int n :: rat\<bar> < pow2 (int (prec f))" "emin f \<le> int (prec f) - 1" "int (prec f) - 1 \<le> emax f"
  shows "round_to f (of_int n) = Fin (of_int n)"
proof (cases "n = 0")
  case True
  then show ?thesis by (simp add: round_to_def)
next
  case False
  obtain k where "of_int n = of_int k * ulp_at f (of_int n)"
    using ulp_at_divides_int [OF assms(1,2) False] by blast
  moreover have "binexp \<bar>of_int n\<bar> \<le> emax f"
    using binexp_le [of "\<bar>of_int n\<bar>" "int (prec f) - 1"] assms(1,3) False by simp
  ultimately show ?thesis by (intro round_to_exact) auto
qed

lemma float32_int [simp]: "\<bar>n\<bar> < 2 ^ 24 \<Longrightarrow> round_to float32 (of_int n) = Fin (of_int n)"
  by (rule round_to_of_int) (simp_all add: float32_def pow2_def flip: of_int_abs)

lemma float64_int [simp]: "\<bar>n\<bar> < 2 ^ 53 \<Longrightarrow> round_to float64 (of_int n) = Fin (of_int n)"
  by (rule round_to_of_int) (simp_all add: float64_def pow2_def flip: of_int_abs)

lemma round_to_0 [simp]: "round_to f 0 = Fin 0"
  by (simp add: round_to_def)

lemma trunc_rat_of_int [simp]: "trunc_rat (of_int k) = k"
  by (simp add: trunc_rat_def)

lemma to_int32_of_int: "int_range k \<Longrightarrow> to_int32 (Fin (of_int k)) = word_of_int k"
  by (simp add: int_range_def Let_def)

lemma rnd_int_nonneg: "0 \<le> x \<Longrightarrow> 0 \<le> rnd_int x"
  by (simp add: rnd_int_def Let_def)

lemma round_to_nonneg: "round_to f r = Fin v \<Longrightarrow> 0 \<le> r \<Longrightarrow> 0 \<le> v"
  by (cases "r = 0")
    (auto simp: round_to_nonzero Let_def order_less_imp_le rnd_int_nonneg split: if_splits)

text \<open>A number below a power of two in range does not round to an infinity.\<close>

lemma round_to_finite:
  assumes "\<bar>r\<bar> < pow2 (e + 1)" "emin f \<le> e" "e < emax f" "0 < prec f"
  obtains v where "round_to f r = Fin v" "\<bar>v - r\<bar> \<le> pow2 (e - int (prec f) + 1) / 2"
proof (cases "r = 0")
  case True
  then show thesis using that [of 0] pow2_pos [of "e - int (prec f) + 1"]
    by (simp add: order_less_imp_le)
next
  case False
  let ?u = "ulp_at f r"
  define v where "v = of_int (rnd_int (r / ?u)) * ?u"
  have u: "?u \<le> pow2 (e - int (prec f) + 1)" using assms False by (intro ulp_at_le) simp_all
  have ue: "pow2 (e - int (prec f) + 1) \<le> pow2 (e + 1)" using assms(4) by simp
  have "\<bar>of_int (rnd_int (r / ?u)) - r / ?u\<bar> * ?u \<le> 1 / 2 * ?u"
    using rnd_int_error by (intro mult_right_mono) (simp_all add: order_less_imp_le)
  moreover have "(of_int (rnd_int (r / ?u)) - r / ?u) * ?u = v - r"
    using less_imp_neq [OF ulp_at_pos [of f r]] by (simp add: v_def left_diff_distrib)
  then have "\<bar>of_int (rnd_int (r / ?u)) - r / ?u\<bar> * ?u = \<bar>v - r\<bar>"
    by (metis abs_mult abs_of_pos ulp_at_pos)
  ultimately have err: "\<bar>v - r\<bar> \<le> ?u / 2" by simp
  then have "\<bar>v\<bar> < pow2 (e + 1) + pow2 (e + 1)" using assms(1) u ue pow2_pos [of "e + 1"] by linarith
  also have "\<dots> = pow2 (e + 1 + 1)" using pow2_add [of "e + 1" 1] by simp
  finally have "v \<noteq> 0 \<Longrightarrow> binexp \<bar>v\<bar> \<le> e + 1" by (intro binexp_le) simp_all
  then have "round_to f r = Fin v"
    using False assms(3) unfolding round_to_nonzero [OF False] Let_def v_def [symmetric] by auto
  then show thesis using that err u by (meson divide_right_mono order_trans zero_le_numeral)
qed

lemma rnd_int_of_nat [simp]: "rnd_int (of_nat n) = int n"
  using rnd_int_of_int [of "int n"] by simp

lemma unat_to_narrow:
  assumes "0 \<le> k" "k < 2 ^ LENGTH('a)" "k < 2 ^ 31"
  shows "unat (ucast (to_int32 (Fin (of_int k))) :: 'a :: len word) = nat k"
proof -
  have "to_int32 (Fin (of_int k)) = word_of_int k"
    using assms by (intro to_int32_of_int) (simp add: int_range_def)
  moreover have "uint (word_of_int k :: 32 word) = k"
    using assms by (intro uint_word_of_int_eq) simp_all
  ultimately have "uint (ucast (to_int32 (Fin (of_int k))) :: 'a word) = take_bit LENGTH('a) k"
    by (simp only: unsigned_ucast_eq)
  then have "uint (ucast (to_int32 (Fin (of_int k))) :: 'a word) = k"
    using assms by (simp only: take_bit_int_eq_self)
  then show ?thesis by (metis nat_int uint_nat)
qed

end
