(* ===== verification/Szb_Search.thy ===== *)
theory Szb_Search
  imports Save_Param Ieee
begin

text \<open>
  Searching a parameter's data, \<open>szbase/szbsearch.cc\<close>: the loops over the ten-minute probes go from
  block to block (one block per month) and jump over the parts of a block that hold no data. The
  function that fetches the block of a month is an argument, as are the months at which it reports
  an error or the search times out. The result is a time, or -1. A loop that does not end or runs
  into a failed assertion is \<open>None\<close>.
\<close>

record dblock =
  bl_data :: "fp list"
  first_data_probe_index :: int
  last_data_probe_index :: int
  max_probes :: int

type_synonym fetch = "int \<Rightarrow> int \<Rightarrow> dblock option"

record search_env =
  se_get :: fetch
  se_stop :: "int \<Rightarrow> int \<Rightarrow> bool"
  se_cond :: "fp \<Rightarrow> bool"

definition adjust_search_boundaries ::
  "time_t \<Rightarrow> time_t \<Rightarrow> time_t \<Rightarrow> time_t \<Rightarrow> int \<Rightarrow> (time_t \<times> time_t) option" where
  "adjust_search_boundaries start fin first_date last_date direction =
     (if first_date = - 1 \<and> last_date = - 1 then None
      else if direction \<le> 0 \<and> start < first_date then None
      else if direction \<ge> 0 \<and> start > last_date then None
      else
        let start = (if direction > 0 \<and> start < first_date then first_date else start);
            start = (if direction < 0 \<and> start > last_date then last_date else start);
            fin = (if fin = - 1 then (if direction < 0 then first_date else last_date)
                   else
                     let fin = (if direction < 0 \<and> fin < first_date then first_date else fin) in
                     if direction > 0 \<and> fin > last_date then last_date else fin)
        in Some (start, fin))"

text \<open>The variables of the loops: the block, and the month it was fetched for.\<close>

record cursor =
  cu_block :: "dblock option"
  cu_year :: int
  cu_month :: int

definition cursor_init :: cursor where
  "cursor_init = \<lparr>cu_block = None, cu_year = - 1, cu_month = - 1\<rparr>"

definition needs_block :: "cursor \<Rightarrow> int \<Rightarrow> int \<Rightarrow> bool" where
  "needs_block cu y m \<longleftrightarrow> cu_block cu = None \<or> m \<noteq> cu_month cu \<or> y \<noteq> cu_year cu"

datatype visit = V_stop | V_found | V_jump time_t cursor | V_next cursor

text \<open>The assertions on the ends of the data of a block.\<close>

definition ends_ok :: "dblock \<Rightarrow> bool" where
  "ends_ok b \<longleftrightarrow>
     (case c_index (bl_data b) (first_data_probe_index b) of None \<Rightarrow> False | Some v \<Rightarrow> v \<noteq> FNaN) \<and>
     (case c_index (bl_data b) (last_data_probe_index b) of None \<Rightarrow> False | Some v \<Rightarrow> v \<noteq> FNaN)"

text \<open>The body of the loop to the right at time \<open>t\<close>.\<close>

definition visit_right :: "search_env \<Rightarrow> time_t \<Rightarrow> cursor \<Rightarrow> visit option" where
  "visit_right env t cu =
     (case time2my t of Inl _ \<Rightarrow> None
      | Inr (y, m) \<Rightarrow>
        let fetch = needs_block cu y m; bl = (if fetch then se_get env y m else cu_block cu);
            cu = (if fetch then cu\<lparr>cu_block := bl\<rparr> else cu) in
        if fetch \<and> se_stop env y m then Some V_stop
        else if fetch \<and> (case bl of None \<Rightarrow> True | Some b \<Rightarrow> first_data_probe_index b < 0) then
          (case szb_probecnt y m of None \<Rightarrow> None
           | Some n \<Rightarrow> Some (V_jump (probe2time (n - 1) y m) cu))
        else
          let cu = (if fetch then cu\<lparr>cu_year := y, cu_month := m\<rparr> else cu); b = the bl in
          (case szb_probeind t 600 of None \<Rightarrow> None
           | Some n \<Rightarrow>
             if n < 0 \<or> \<not> ends_ok b then None
             else if n > last_data_probe_index b then Some (V_jump (probe2time (max_probes b - 1) y m) cu)
             else if n < first_data_probe_index b then
               Some (V_jump (probe2time (first_data_probe_index b - 1) y m) cu)
             else (case c_index (bl_data b) n of None \<Rightarrow> None
                   | Some v \<Rightarrow> Some (if se_cond env v then V_found else V_next cu))))"

partial_function (option) search_right_loop :: "search_env \<Rightarrow> time_t \<Rightarrow> time_t \<Rightarrow> cursor \<Rightarrow> time_t option" where
  "search_right_loop env fin t cu =
     (if t \<le> fin then
        (case visit_right env t cu of
           None \<Rightarrow> None
         | Some V_stop \<Rightarrow> Some (- 1)
         | Some V_found \<Rightarrow> Some t
         | Some (V_jump t' cu') \<Rightarrow> search_right_loop env fin (t' + SZBASE_DATA_SPAN) cu'
         | Some (V_next cu') \<Rightarrow> search_right_loop env fin (t + SZBASE_DATA_SPAN) cu')
      else Some (- 1))"

definition search_in_data_right :: "search_env \<Rightarrow> time_t \<Rightarrow> time_t \<Rightarrow> time_t option" where
  "search_in_data_right env start fin = search_right_loop env fin start cursor_init"

text \<open>The body of the loop to the left.\<close>

definition visit_left :: "search_env \<Rightarrow> time_t \<Rightarrow> cursor \<Rightarrow> visit option" where
  "visit_left env t cu =
     (case time2my t of Inl _ \<Rightarrow> None
      | Inr (y, m) \<Rightarrow>
        let fetch = needs_block cu y m; bl = (if fetch then se_get env y m else cu_block cu);
            cu = (if fetch then cu\<lparr>cu_block := bl\<rparr> else cu) in
        if fetch \<and> se_stop env y m then Some V_stop
        else if fetch \<and> (case bl of None \<Rightarrow> True | Some b \<Rightarrow> first_data_probe_index b < 0) then
          Some (V_jump (probe2time 0 y m) cu)
        else
          let cu = (if fetch then cu\<lparr>cu_year := y, cu_month := m\<rparr> else cu); b = the bl in
          (case szb_probeind t 600 of None \<Rightarrow> None
           | Some n \<Rightarrow>
             if \<not> ends_ok b then None
             else if n > last_data_probe_index b then
               Some (V_jump (probe2time (last_data_probe_index b + 1) y m) cu)
             else if n < first_data_probe_index b then Some (V_jump (probe2time 0 y m) cu)
             else (case c_index (bl_data b) n of None \<Rightarrow> None
                   | Some v \<Rightarrow> Some (if se_cond env v then V_found else V_next cu))))"

partial_function (option) search_left_loop :: "search_env \<Rightarrow> time_t \<Rightarrow> time_t \<Rightarrow> cursor \<Rightarrow> time_t option" where
  "search_left_loop env fin t cu =
     (if t \<ge> fin then
        (case visit_left env t cu of
           None \<Rightarrow> None
         | Some V_stop \<Rightarrow> Some (- 1)
         | Some V_found \<Rightarrow> Some t
         | Some (V_jump t' cu') \<Rightarrow> search_left_loop env fin (t' - SZBASE_DATA_SPAN) cu'
         | Some (V_next cu') \<Rightarrow> search_left_loop env fin (t - SZBASE_DATA_SPAN) cu')
      else Some (- 1))"

definition search_in_data_left :: "search_env \<Rightarrow> time_t \<Rightarrow> time_t \<Rightarrow> time_t option" where
  "search_in_data_left env start fin = search_left_loop env fin start cursor_init"

text \<open>The probe at one time, \<open>szb_get_probe\<close> for ten minutes, is an argument of the case of no
  direction.\<close>

definition search_in_data_range :: "search_env \<Rightarrow> (time_t \<Rightarrow> fp) \<Rightarrow> time_t \<Rightarrow> time_t \<Rightarrow> int \<Rightarrow> time_t option" where
  "search_in_data_range env probe_val start fin direction =
     (if direction = 0 then Some (if se_cond env (probe_val start) then start else - 1)
      else if direction = - 1 then search_in_data_left env start fin
      else if direction = 1 then search_in_data_right env start fin
      else None)"

text \<open>The search of a parameter of any kind, given the dates of its first and last data.\<close>

definition szb_search_data ::
  "search_env \<Rightarrow> (time_t \<Rightarrow> fp) \<Rightarrow> time_t \<Rightarrow> time_t \<Rightarrow> time_t \<Rightarrow> time_t \<Rightarrow> int \<Rightarrow> time_t option" where
  "szb_search_data env probe_val first_date last_date start fin direction =
     (case adjust_search_boundaries start fin first_date last_date direction of
        None \<Rightarrow> Some (- 1)
      | Some (start, fin) \<Rightarrow> search_in_data_range env probe_val start fin direction)"

subsection \<open>Months as ranges of slots\<close>

definition month_end :: "int \<Rightarrow> int \<Rightarrow> time_t" where
  "month_end y m = month_start y m + the (szb_probecnt y m) * 600"

lemma slot_time:
  assumes "month_ok y m" "szb_probecnt y m = Some n" "0 \<le> p" "p \<le> n"
  shows "probe2time p y m = month_start y m + p * 600"
proof -
  have "n \<le> 4464" using szb_probecnt_bounds [OF assms(1)] assms(2) by auto
  then have "int_range (p * 600)" using assms(3,4) by (simp add: int_range_def)
  then show ?thesis using probe2time_eq [OF assms(1)] by simp
qed

lemma aligned_slot:
  assumes "ok_time t" "t mod 600 = 0"
  obtains y m n p where "time2my t = Inr (y, m)" "month_ok y m" "szb_probecnt y m = Some n" "szb_probeind t 600 = Some p"
    "0 \<le> p" "p < n" "t = month_start y m + p * 600" "month_start y m \<le> t" "t < month_end y m" "month_end y m = month_start y m + n * 600"
proof -
  obtain y m where ym: "time2my t = Inr (y, m)" "0 \<le> y" "y \<le> 9999"
    using assms(1) by (auto simp: ok_time_def split: sum.splits prod.splits)
  have ok: "month_ok y m" using time2my_eq [OF ym] by blast
  obtain p n where p: "szb_probeind t SZBASE_DATA_SPAN = Some p" "szb_probecnt y m = Some n" "0 \<le> p" "p < n"
    "probe2time p y m = t - t mod 600"
    using probe_floor [OF ym] by blast
  have t: "t = month_start y m + p * 600" using slot_time [OF ok p(2,3)] p(4,5) assms(2) by simp
  show thesis
    using that [OF ym(1) ok p(2) _ p(3,4) t] p t by (simp add: SZBASE_DATA_SPAN_def month_end_def)
qed

lemma month_slots:
  assumes "month_ok y m" "szb_probecnt y m = Some n" "0 \<le> i" "i < n"
  shows "time2my (month_start y m + i * 600) = Inr (y, m)" "szb_probeind (month_start y m + i * 600) 600 = Some i"
  using probe_roundtrip [OF assms] slot_time [OF assms(1-3)] assms(4) by (simp_all add: SZBASE_DATA_SPAN_def)

subsection \<open>Reference: looking at every slot\<close>

definition holds :: "search_env \<Rightarrow> time_t \<Rightarrow> bool" where
  "holds env t = (case time2my t of Inl _ \<Rightarrow> False
     | Inr (y, m) \<Rightarrow> (case se_get env y m of None \<Rightarrow> False
       | Some b \<Rightarrow> se_cond env (bl_data b ! nat (the (szb_probeind t 600)))))"

function linear_right :: "(time_t \<Rightarrow> bool) \<Rightarrow> time_t \<Rightarrow> time_t \<Rightarrow> time_t" where
  "linear_right P fin t = (if t > fin then - 1 else if P t then t else linear_right P fin (t + 600))"
  by auto
termination by (relation "measure (\<lambda>(_, fin, t). nat (fin - t + 1))") auto

function linear_left :: "(time_t \<Rightarrow> bool) \<Rightarrow> time_t \<Rightarrow> time_t \<Rightarrow> time_t" where
  "linear_left P fin t = (if t < fin then - 1 else if P t then t else linear_left P fin (t - 600))"
  by auto
termination by (relation "measure (\<lambda>(_, fin, t). nat (t - fin + 1))") auto

declare linear_right.simps [simp del] linear_left.simps [simp del]

lemma linear_right_skip:
  assumes "\<And>i. i < k \<Longrightarrow> \<not> P (t + int i * 600)"
  shows "linear_right P fin t = linear_right P fin (t + int k * 600)"
  using assms
proof (induction k arbitrary: t)
  case (Suc k)
  have "linear_right P fin t = linear_right P fin (t + 600)"
    using Suc.prems [of 0] by (auto simp: linear_right.simps [of P fin t] linear_right.simps [of P fin "t + 600"])
  also have "\<dots> = linear_right P fin (t + 600 + int k * 600)"
    using Suc.prems [of "Suc _"] by (intro Suc.IH) (simp add: algebra_simps)
  finally show ?case by (simp add: algebra_simps)
qed simp

lemma linear_left_skip:
  assumes "\<And>i. i < k \<Longrightarrow> \<not> P (t - int i * 600)"
  shows "linear_left P fin t = linear_left P fin (t - int k * 600)"
  using assms
proof (induction k arbitrary: t)
  case (Suc k)
  have "linear_left P fin t = linear_left P fin (t - 600)"
    using Suc.prems [of 0] by (auto simp: linear_left.simps [of P fin t] linear_left.simps [of P fin "t - 600"])
  also have "\<dots> = linear_left P fin (t - 600 - int k * 600)"
    using Suc.prems [of "Suc _"] by (intro Suc.IH) (simp add: algebra_simps)
  finally show ?case by (simp add: algebra_simps)
qed simp

subsection \<open>Well-formed blocks\<close>

definition block_ok :: "int \<Rightarrow> int \<Rightarrow> dblock \<Rightarrow> bool" where
  "block_ok y m b \<longleftrightarrow> szb_probecnt y m = Some (max_probes b) \<and> int (length (bl_data b)) = max_probes b \<and>
     (if first_data_probe_index b < 0 then \<forall>v \<in> set (bl_data b). v = FNaN
      else first_data_probe_index b \<le> last_data_probe_index b \<and> last_data_probe_index b < max_probes b \<and>
        bl_data b ! nat (first_data_probe_index b) \<noteq> FNaN \<and> bl_data b ! nat (last_data_probe_index b) \<noteq> FNaN \<and>
        (\<forall>i < length (bl_data b). int i < first_data_probe_index b \<or> last_data_probe_index b < int i \<longrightarrow> bl_data b ! i = FNaN))"

text \<open>No error and no timeout, blocks that are well-formed, and a condition that no data does not
  meet.\<close>

definition search_ok :: "search_env \<Rightarrow> bool" where
  "search_ok env \<longleftrightarrow> (\<forall>y m. \<not> se_stop env y m) \<and> \<not> se_cond env FNaN \<and>
     (\<forall>y m b. month_ok y m \<and> se_get env y m = Some b \<longrightarrow> block_ok y m b)"

definition barren :: "search_env \<Rightarrow> int \<Rightarrow> int \<Rightarrow> int \<Rightarrow> bool" where
  "barren env y m i \<longleftrightarrow> (case se_get env y m of None \<Rightarrow> True | Some b \<Rightarrow> \<not> se_cond env (bl_data b ! nat i))"

lemma holds_slot:
  assumes "month_ok y m" "szb_probecnt y m = Some n" "0 \<le> i" "i < n"
  shows "holds env (month_start y m + i * 600) \<longleftrightarrow> \<not> barren env y m i"
  using month_slots [OF assms] by (simp add: holds_def barren_def split: option.splits)

lemma barren_outside:
  assumes "search_ok env" "month_ok y m" "szb_probecnt y m = Some n" "0 \<le> i" "i < n"
    and "\<And>b. se_get env y m = Some b \<Longrightarrow> first_data_probe_index b < 0 \<or> i < first_data_probe_index b \<or> last_data_probe_index b < i"
  shows "barren env y m i"
proof (cases "se_get env y m")
  case (Some b)
  then have ok: "block_ok y m b" using assms(1,2) by (simp add: search_ok_def)
  then have l: "nat i < length (bl_data b)" using assms(3-5) by (auto simp: block_ok_def)
  have "bl_data b ! nat i = FNaN"
    using assms(6) [OF Some] ok l assms(4) nth_mem [OF l] by (auto simp: block_ok_def split: if_splits)
  then show ?thesis using Some assms(1) by (simp add: barren_def search_ok_def)
qed (simp add: barren_def)

lemma ends_ok_block:
  assumes "block_ok y m b" "0 \<le> first_data_probe_index b"
  shows "ends_ok b"
  using assms by (auto simp: block_ok_def ends_ok_def c_index_def)

lemma next_right:
  assumes "month_ok y m" "szb_probecnt y m = Some n" "month_start y m \<le> t" "t mod 600 = 0" "t < month_end y m"
  shows "time2my t = Inr (y, m)"
proof -
  have al: "month_start y m mod 600 = 0" using month_start_aligned by (simp add: mod_eq_0_iff_dvd)
  define i where "i = (t - month_start y m) div 600"
  have "(t - month_start y m) mod 600 = 0" using assms(4) al by (simp add: mod_diff_eq [symmetric])
  then have t: "t = month_start y m + i * 600" unfolding i_def by (metis add.commute add_0 diff_add_cancel div_mult_mod_eq add.right_neutral)
  then have "0 \<le> i" "i < n" using assms(3,5) assms(2) by (simp_all add: month_end_def)
  then show ?thesis using month_slots(1) [OF assms(1,2)] t by simp
qed

subsection \<open>A visit of a slot\<close>

text \<open>The cursor's month, if any, has been left behind or its block is the one of the month.\<close>

definition good_block :: "search_env \<Rightarrow> cursor \<Rightarrow> bool" where
  "good_block env cu \<longleftrightarrow> se_get env (cu_year cu) (cu_month cu) = cu_block cu \<and>
     (\<exists>b. cu_block cu = Some b \<and> 0 \<le> first_data_probe_index b)"

definition cursor_right :: "search_env \<Rightarrow> time_t \<Rightarrow> cursor \<Rightarrow> bool" where
  "cursor_right env t cu \<longleftrightarrow> cu_year cu = - 1 \<or> month_ok (cu_year cu) (cu_month cu) \<and>
     (month_end (cu_year cu) (cu_month cu) \<le> t \<or> month_start (cu_year cu) (cu_month cu) \<le> t \<and> good_block env cu)"

definition cursor_left :: "search_env \<Rightarrow> time_t \<Rightarrow> cursor \<Rightarrow> bool" where
  "cursor_left env t cu \<longleftrightarrow> cu_year cu = - 1 \<or> month_ok (cu_year cu) (cu_month cu) \<and>
     (t < month_start (cu_year cu) (cu_month cu) \<or> t < month_end (cu_year cu) (cu_month cu) \<and> good_block env cu)"

text \<open>The common part of both visits: the block that is looked at, and the two ways to go on.\<close>

definition looked_at :: "search_env \<Rightarrow> int \<Rightarrow> int \<Rightarrow> cursor \<Rightarrow> dblock option" where
  "looked_at env y m cu = (if needs_block cu y m then se_get env y m else cu_block cu)"

definition refetched :: "search_env \<Rightarrow> int \<Rightarrow> int \<Rightarrow> cursor \<Rightarrow> cursor" where
  "refetched env y m cu = (if needs_block cu y m then cu\<lparr>cu_block := se_get env y m\<rparr> else cu)"

definition settled :: "search_env \<Rightarrow> int \<Rightarrow> int \<Rightarrow> cursor \<Rightarrow> cursor" where
  "settled env y m cu = (if needs_block cu y m then cu\<lparr>cu_block := se_get env y m, cu_year := y, cu_month := m\<rparr> else cu)"

lemma looked_at_right:
  assumes "cursor_right env t cu" "month_ok y m" "t < month_end y m"
  shows "looked_at env y m cu = se_get env y m" "\<not> needs_block cu y m \<Longrightarrow> good_block env cu"
  using assms by (auto simp: looked_at_def needs_block_def cursor_right_def good_block_def month_ok_def)

lemma looked_at_left:
  assumes "cursor_left env t cu" "month_ok y m" "month_start y m \<le> t"
  shows "looked_at env y m cu = se_get env y m" "\<not> needs_block cu y m \<Longrightarrow> good_block env cu"
  using assms by (auto simp: looked_at_def needs_block_def cursor_left_def good_block_def month_ok_def)

lemma settled_good:
  assumes "se_get env y m = Some b" "0 \<le> first_data_probe_index b" "\<not> needs_block cu y m \<Longrightarrow> good_block env cu"
  shows "cu_year (settled env y m cu) = y" "cu_month (settled env y m cu) = m" "good_block env (settled env y m cu)"
  using assms by (auto simp: settled_def good_block_def needs_block_def)

text \<open>Leaving a month to the right or to the left.\<close>

lemma left_behind_right:
  assumes "cursor_right env t cu" "month_ok y m" "time2my t = Inr (y, m)" "t mod 600 = 0" "needs_block cu y m" "cu_block cu \<noteq> None"
  shows "cu_year cu = - 1 \<or> month_ok (cu_year cu) (cu_month cu) \<and> month_end (cu_year cu) (cu_month cu) \<le> t"
proof (rule ccontr)
  assume *: "\<not> ?thesis"
  then have a: "month_ok (cu_year cu) (cu_month cu)" "month_start (cu_year cu) (cu_month cu) \<le> t" "t < month_end (cu_year cu) (cu_month cu)"
    using assms(1) by (auto simp: cursor_right_def)
  obtain n where "szb_probecnt (cu_year cu) (cu_month cu) = Some n" using szb_probecnt_bounds [OF a(1)] by blast
  from next_right [OF a(1) this a(2) assms(4) a(3)] show False using assms(3,5,6) by (auto simp: needs_block_def)
qed

lemma left_behind_left:
  assumes "cursor_left env t cu" "month_ok y m" "time2my t = Inr (y, m)" "t mod 600 = 0" "needs_block cu y m" "cu_block cu \<noteq> None"
  shows "cu_year cu = - 1 \<or> month_ok (cu_year cu) (cu_month cu) \<and> t < month_start (cu_year cu) (cu_month cu)"
proof (rule ccontr)
  assume *: "\<not> ?thesis"
  then have a: "month_ok (cu_year cu) (cu_month cu)" "month_start (cu_year cu) (cu_month cu) \<le> t" "t < month_end (cu_year cu) (cu_month cu)"
    using assms(1) by (auto simp: cursor_left_def)
  obtain n where "szb_probecnt (cu_year cu) (cu_month cu) = Some n" using szb_probecnt_bounds [OF a(1)] by blast
  from next_right [OF a(1) this a(2) assms(4) a(3)] show False using assms(3,5,6) by (auto simp: needs_block_def)
qed

lemma refetched_right:
  assumes "cursor_right env t cu" "month_ok y m" "time2my t = Inr (y, m)" "t mod 600 = 0" "needs_block cu y m" "t \<le> t'"
  shows "cursor_right env t' (refetched env y m cu)"
proof (cases "cu_block cu")
  case None
  then show ?thesis using assms(1,6) by (auto simp: refetched_def cursor_right_def good_block_def needs_block_def)
next
  case (Some b)
  then show ?thesis using left_behind_right [OF assms(1-5)] assms(5,6) by (auto simp: refetched_def cursor_right_def)
qed

lemma refetched_left:
  assumes "cursor_left env t cu" "month_ok y m" "time2my t = Inr (y, m)" "t mod 600 = 0" "needs_block cu y m" "t' \<le> t"
  shows "cursor_left env t' (refetched env y m cu)"
proof (cases "cu_block cu")
  case None
  then show ?thesis using assms(1,6) by (auto simp: refetched_def cursor_left_def good_block_def needs_block_def)
next
  case (Some b)
  then show ?thesis using left_behind_left [OF assms(1-5)] assms(5,6) by (auto simp: refetched_def cursor_left_def)
qed

definition right_result :: "search_env \<Rightarrow> time_t \<Rightarrow> visit \<Rightarrow> bool" where
  "right_result env t r = (case r of V_stop \<Rightarrow> False | V_found \<Rightarrow> holds env t
     | V_next cu' \<Rightarrow> \<not> holds env t \<and> cursor_right env (t + 600) cu'
     | V_jump t' cu' \<Rightarrow> (\<exists>k :: nat. t' + 600 = t + int k * 600 \<and> 0 < k \<and>
         (\<forall>i < k. \<not> holds env (t + int i * 600)) \<and> cursor_right env (t' + 600) cu'))"

lemma jump_right:
  assumes "month_ok y m" "szb_probecnt y m = Some n" "t = month_start y m + p * 600" "0 \<le> p" "p < q" "q \<le> n"
    and "\<And>i. p \<le> i \<Longrightarrow> i < q \<Longrightarrow> barren env y m i" "cursor_right env (month_start y m + q * 600) cu'"
  shows "right_result env t (V_jump (probe2time (q - 1) y m) cu')"
proof -
  have pt: "probe2time (q - 1) y m + 600 = month_start y m + q * 600"
    using slot_time [OF assms(1,2), of "q - 1"] assms(4-6) by (simp add: algebra_simps)
  have "\<not> holds env (t + int i * 600)" if "i < nat (q - p)" for i
  proof -
    have i: "p + int i < q" "0 \<le> p + int i" using that assms(4) by linarith+
    have "t + int i * 600 = month_start y m + (p + int i) * 600" using assms(3) by (simp add: algebra_simps)
    moreover have "\<not> holds env (month_start y m + (p + int i) * 600)"
      using holds_slot [OF assms(1,2) i(2)] i assms(6,7) by simp
    ultimately show ?thesis by (simp only: not_False_eq_True)
  qed
  moreover have "month_start y m + q * 600 = t + int (nat (q - p)) * 600"
    using assms(3,5) by (simp add: algebra_simps)
  ultimately show ?thesis unfolding right_result_def visit.case pt using assms(5,8) by (intro exI [of _ "nat (q - p)"]) simp
qed

lemma visit_right_result:
  assumes "search_ok env" "ok_time t" "t mod 600 = 0" "cursor_right env t cu"
  shows "\<exists>r. visit_right env t cu = Some r \<and> right_result env t r"
proof -
  obtain y m n p where s: "time2my t = Inr (y, m)" "month_ok y m" "szb_probecnt y m = Some n" "szb_probeind t 600 = Some p"
    "0 \<le> p" "p < n" "t = month_start y m + p * 600" "month_start y m \<le> t" "t < month_end y m" "month_end y m = month_start y m + n * 600"
    using aligned_slot [OF assms(2,3)] .
  note look = looked_at_right [OF assms(4) s(2,9)]
  have ns: "\<not> se_stop env y m" using assms(1) by (simp add: search_ok_def)
  have eq: "visit_right env t cu = (if needs_block cu y m \<and> (case se_get env y m of None \<Rightarrow> True | Some b \<Rightarrow> first_data_probe_index b < 0)
      then Some (V_jump (probe2time (n - 1) y m) (refetched env y m cu))
      else let b = the (se_get env y m) in
        if \<not> ends_ok b then None
        else if p > last_data_probe_index b then Some (V_jump (probe2time (max_probes b - 1) y m) (settled env y m cu))
        else if p < first_data_probe_index b then Some (V_jump (probe2time (first_data_probe_index b - 1) y m) (settled env y m cu))
        else (case c_index (bl_data b) p of None \<Rightarrow> None
           | Some v \<Rightarrow> Some (if se_cond env v then V_found else V_next (settled env y m cu))))"
    using s(1-6) ns look(1) by (cases "needs_block cu y m")
      (simp_all add: visit_right_def looked_at_def refetched_def settled_def Let_def split: option.splits)
  show ?thesis
  proof (cases "case se_get env y m of None \<Rightarrow> True | Some b \<Rightarrow> first_data_probe_index b < 0")
    case True
    have need: "needs_block cu y m"
      using look True by (auto simp: good_block_def needs_block_def looked_at_def split: option.splits)
    have "barren env y m i" if "p \<le> i" "i < n" for i
      using barren_outside [OF assms(1) s(2,3), of i] True that s(5) by (auto split: option.splits)
    moreover have "cursor_right env (month_start y m + n * 600) (refetched env y m cu)"
      using refetched_right [OF assms(4) s(2,1) assms(3) need] s(9,10) by simp
    ultimately have "right_result env t (V_jump (probe2time (n - 1) y m) (refetched env y m cu))"
      using jump_right [OF s(2,3,7,5,6)] by simp
    then show ?thesis using eq True need by simp
  next
    case False
    then obtain b where b: "se_get env y m = Some b" "0 \<le> first_data_probe_index b" by (auto split: option.splits)
    have ok: "block_ok y m b" using assms(1) b(1) s(2) by (simp add: search_ok_def)
    have mx: "max_probes b = n" "int (length (bl_data b)) = n" using ok s(3) by (simp_all add: block_ok_def)
    have cur: "cursor_right env (month_start y m + q * 600) (settled env y m cu)" if "0 \<le> q" for q
      using settled_good [OF b look(2)] s(2) that by (simp add: cursor_right_def)
    have v: "c_index (bl_data b) p = Some (bl_data b ! nat p)" using mx s(5,6) by (simp add: c_index_def)
    have h: "holds env t \<longleftrightarrow> se_cond env (bl_data b ! nat p)" using holds_slot [OF s(2,3,5,6)] s(7) b(1) by (simp add: barren_def)
    have out: "barren env y m i" if "p \<le> i" "i < n" "i < first_data_probe_index b \<or> last_data_probe_index b < i" for i
      using barren_outside [OF assms(1) s(2,3), of i] that s(5) b(1) by auto
    consider (after) "p > last_data_probe_index b" | (bef) "p \<le> last_data_probe_index b" "p < first_data_probe_index b"
      | (inside) "p \<le> last_data_probe_index b" "first_data_probe_index b \<le> p" by linarith
    then show ?thesis
    proof cases
      case after
      then have "right_result env t (V_jump (probe2time (n - 1) y m) (settled env y m cu))"
        using jump_right [OF s(2,3,7,5,6) order_refl out cur] s(5,6) by simp
      then show ?thesis using eq b ends_ok_block [OF ok b(2)] after mx(1) by simp
    next
      case bef
      have "first_data_probe_index b \<le> n" using ok b(2) mx(1) by (simp add: block_ok_def)
      then have "right_result env t (V_jump (probe2time (first_data_probe_index b - 1) y m) (settled env y m cu))"
        using jump_right [OF s(2,3,7,5) bef(2) _ out cur] b(2) by simp
      then show ?thesis using eq b ends_ok_block [OF ok b(2)] bef by simp
    next
      case inside
      have "cursor_right env (t + 600) (settled env y m cu)" using cur [of "p + 1"] s(5,7) by (simp add: algebra_simps)
      then show ?thesis using eq b ends_ok_block [OF ok b(2)] inside v h by (simp add: right_result_def)
    qed
  qed
qed

definition left_result :: "search_env \<Rightarrow> time_t \<Rightarrow> visit \<Rightarrow> bool" where
  "left_result env t r = (case r of V_stop \<Rightarrow> False | V_found \<Rightarrow> holds env t
     | V_next cu' \<Rightarrow> \<not> holds env t \<and> cursor_left env (t - 600) cu'
     | V_jump t' cu' \<Rightarrow> (\<exists>k :: nat. t' - 600 = t - int k * 600 \<and> 0 < k \<and>
         (\<forall>i < k. \<not> holds env (t - int i * 600)) \<and> cursor_left env (t' - 600) cu'))"

lemma jump_left:
  assumes "month_ok y m" "szb_probecnt y m = Some n" "t = month_start y m + p * 600" "p < n" "- 1 \<le> q" "q < p"
    and "\<And>i. q < i \<Longrightarrow> i \<le> p \<Longrightarrow> barren env y m i" "cursor_left env (month_start y m + q * 600) cu'"
  shows "left_result env t (V_jump (probe2time (q + 1) y m) cu')"
proof -
  have pt: "probe2time (q + 1) y m - 600 = month_start y m + q * 600"
    using slot_time [OF assms(1,2), of "q + 1"] assms(4-6) by (simp add: algebra_simps)
  have "\<not> holds env (t - int i * 600)" if "i < nat (p - q)" for i
  proof -
    have i: "q < p - int i" "0 \<le> p - int i" "p - int i < n" using that assms(4,5) by linarith+
    have "t - int i * 600 = month_start y m + (p - int i) * 600" using assms(3) by (simp add: algebra_simps)
    moreover have "\<not> holds env (month_start y m + (p - int i) * 600)"
      using holds_slot [OF assms(1,2) i(2,3)] i assms(7) by simp
    ultimately show ?thesis by (simp only: not_False_eq_True)
  qed
  moreover have "month_start y m + q * 600 = t - int (nat (p - q)) * 600"
    using assms(3,6) by (simp add: algebra_simps)
  ultimately show ?thesis unfolding left_result_def visit.case pt using assms(6,8) by (intro exI [of _ "nat (p - q)"]) simp
qed

lemma visit_left_result:
  assumes "search_ok env" "ok_time t" "t mod 600 = 0" "cursor_left env t cu"
  shows "\<exists>r. visit_left env t cu = Some r \<and> left_result env t r"
proof -
  obtain y m n p where s: "time2my t = Inr (y, m)" "month_ok y m" "szb_probecnt y m = Some n" "szb_probeind t 600 = Some p"
    "0 \<le> p" "p < n" "t = month_start y m + p * 600" "month_start y m \<le> t" "t < month_end y m" "month_end y m = month_start y m + n * 600"
    using aligned_slot [OF assms(2,3)] .
  note look = looked_at_left [OF assms(4) s(2,8)]
  have ns: "\<not> se_stop env y m" using assms(1) by (simp add: search_ok_def)
  have eq: "visit_left env t cu = (if needs_block cu y m \<and> (case se_get env y m of None \<Rightarrow> True | Some b \<Rightarrow> first_data_probe_index b < 0)
      then Some (V_jump (probe2time (- 1 + 1) y m) (refetched env y m cu))
      else let b = the (se_get env y m) in
        if \<not> ends_ok b then None
        else if p > last_data_probe_index b then Some (V_jump (probe2time (last_data_probe_index b + 1) y m) (settled env y m cu))
        else if p < first_data_probe_index b then Some (V_jump (probe2time (- 1 + 1) y m) (settled env y m cu))
        else (case c_index (bl_data b) p of None \<Rightarrow> None
           | Some v \<Rightarrow> Some (if se_cond env v then V_found else V_next (settled env y m cu))))"
    using s(1-6) ns look(1) by (cases "needs_block cu y m")
      (simp_all add: visit_left_def looked_at_def refetched_def settled_def Let_def split: option.splits)
  show ?thesis
  proof (cases "case se_get env y m of None \<Rightarrow> True | Some b \<Rightarrow> first_data_probe_index b < 0")
    case True
    have need: "needs_block cu y m"
      using look True by (auto simp: good_block_def needs_block_def looked_at_def split: option.splits)
    have "barren env y m i" if "- 1 < i" "i \<le> p" for i
      using barren_outside [OF assms(1) s(2,3), of i] True that s(6) by (auto split: option.splits)
    moreover have "cursor_left env (month_start y m + - 1 * 600) (refetched env y m cu)"
      using refetched_left [OF assms(4) s(2,1) assms(3) need] s(8) by simp
    ultimately have "left_result env t (V_jump (probe2time (- 1 + 1) y m) (refetched env y m cu))"
      using jump_left [OF s(2,3,7,6), of "- 1"] s(5) by simp
    then show ?thesis using eq True need by simp
  next
    case False
    then obtain b where b: "se_get env y m = Some b" "0 \<le> first_data_probe_index b" by (auto split: option.splits)
    have ok: "block_ok y m b" using assms(1) b(1) s(2) by (simp add: search_ok_def)
    have mx: "max_probes b = n" "int (length (bl_data b)) = n" using ok s(3) by (simp_all add: block_ok_def)
    have cur: "cursor_left env (month_start y m + q * 600) (settled env y m cu)" if "q < n" for q
      using settled_good [OF b look(2)] s(2,10) that by (simp add: cursor_left_def)
    have v: "c_index (bl_data b) p = Some (bl_data b ! nat p)" using mx s(5,6) by (simp add: c_index_def)
    have h: "holds env t \<longleftrightarrow> se_cond env (bl_data b ! nat p)" using holds_slot [OF s(2,3,5,6)] s(7) b(1) by (simp add: barren_def)
    have out: "barren env y m i" if "- 1 < i" "i \<le> p" "i < first_data_probe_index b \<or> last_data_probe_index b < i" for i
      using barren_outside [OF assms(1) s(2,3), of i] that s(6) b(1) by auto
    consider (after) "p > last_data_probe_index b" | (bef) "p \<le> last_data_probe_index b" "p < first_data_probe_index b"
      | (inside) "p \<le> last_data_probe_index b" "first_data_probe_index b \<le> p" by linarith
    then show ?thesis
    proof cases
      case after
      have "0 \<le> last_data_probe_index b" using ok b(2) by (simp add: block_ok_def)
      then have "left_result env t (V_jump (probe2time (last_data_probe_index b + 1) y m) (settled env y m cu))"
        using jump_left [OF s(2,3,7,6) _ after, of env "settled env y m cu"] out cur after s(6) by simp
      then show ?thesis using eq b ends_ok_block [OF ok b(2)] after by simp
    next
      case bef
      then have "left_result env t (V_jump (probe2time (- 1 + 1) y m) (settled env y m cu))"
        using jump_left [OF s(2,3,7,6), of "- 1" env "settled env y m cu"] out cur [of "- 1"] s(5,6) by simp
      then show ?thesis using eq b ends_ok_block [OF ok b(2)] bef by simp
    next
      case inside
      have "cursor_left env (t - 600) (settled env y m cu)" using cur [of "p - 1"] s(6,7) by (simp add: algebra_simps)
      then show ?thesis using eq b ends_ok_block [OF ok b(2)] inside v h by (simp add: left_result_def)
    qed
  qed
qed

subsection \<open>The loops\<close>

lemma mod_600_shift: "(t + int k * 600) mod 600 = t mod 600" "(t - int k * 600) mod 600 = t mod 600"
  using mod_mult_self1 [of t "int k" 600] mod_mult_self1 [of t "- int k" 600] by simp_all

lemma search_right_loop_linear:
  assumes "search_ok env" "t mod 600 = 0" "\<And>s. t \<le> s \<Longrightarrow> s \<le> fin \<Longrightarrow> ok_time s" "cursor_right env t cu"
  shows "search_right_loop env fin t cu = Some (linear_right (holds env) fin t)"
  using assms(2-4)
proof (induction "nat (fin - t + 600)" arbitrary: t cu rule: less_induct)
  case less
  show ?case
  proof (cases "t \<le> fin")
    case False
    then show ?thesis by (simp add: search_right_loop.simps linear_right.simps [of _ fin t])
  next
    case True
    obtain r where r: "visit_right env t cu = Some r" "right_result env t r"
      using visit_right_result [OF assms(1) less.prems(2) [OF order_refl True] less.prems(1,3)] by blast
    have go: "search_right_loop env fin (t + int k * 600) cu' = Some (linear_right (holds env) fin (t + int k * 600))"
      if "0 < k" "cursor_right env (t + int k * 600) cu'" for k cu'
      using less.hyps [of "t + int k * 600" cu'] less.prems True that by (simp add: mod_600_shift)
    show ?thesis
    proof (cases r)
      case V_stop
      then show ?thesis using r(2) by (simp add: right_result_def)
    next
      case V_found
      then show ?thesis using r True by (simp add: search_right_loop.simps [of env fin t] linear_right.simps [of _ fin t] right_result_def)
    next
      case (V_next cu')
      then have "\<not> holds env t" "cursor_right env (t + 600) cu'" using r(2) by (simp_all add: right_result_def)
      then show ?thesis
        using r(1) V_next True go [of 1 cu'] linear_right_skip [of 1 "holds env" t fin]
        by (simp add: search_right_loop.simps [of env fin t] SZBASE_DATA_SPAN_def)
    next
      case (V_jump t' cu')
      then obtain k :: nat where k: "t' + 600 = t + int k * 600" "0 < k" "\<forall>i < k. \<not> holds env (t + int i * 600)" "cursor_right env (t' + 600) cu'"
        using r(2) by (auto simp: right_result_def)
      then show ?thesis
        using r(1) V_jump True go [of k cu'] linear_right_skip [of k "holds env" t fin]
        by (simp add: search_right_loop.simps [of env fin t] SZBASE_DATA_SPAN_def)
    qed
  qed
qed

lemma search_left_loop_linear:
  assumes "search_ok env" "t mod 600 = 0" "\<And>s. fin \<le> s \<Longrightarrow> s \<le> t \<Longrightarrow> ok_time s" "cursor_left env t cu"
  shows "search_left_loop env fin t cu = Some (linear_left (holds env) fin t)"
  using assms(2-4)
proof (induction "nat (t - fin + 600)" arbitrary: t cu rule: less_induct)
  case less
  show ?case
  proof (cases "fin \<le> t")
    case False
    then show ?thesis by (simp add: search_left_loop.simps linear_left.simps [of _ fin t])
  next
    case True
    obtain r where r: "visit_left env t cu = Some r" "left_result env t r"
      using visit_left_result [OF assms(1) less.prems(2) [OF True order_refl] less.prems(1,3)] by blast
    have go: "search_left_loop env fin (t - int k * 600) cu' = Some (linear_left (holds env) fin (t - int k * 600))"
      if "0 < k" "cursor_left env (t - int k * 600) cu'" for k cu'
      using less.hyps [of "t - int k * 600" cu'] less.prems True that by (simp add: mod_600_shift)
    show ?thesis
    proof (cases r)
      case V_stop
      then show ?thesis using r(2) by (simp add: left_result_def)
    next
      case V_found
      then show ?thesis using r True by (simp add: search_left_loop.simps [of env fin t] linear_left.simps [of _ fin t] left_result_def)
    next
      case (V_next cu')
      then have "\<not> holds env t" "cursor_left env (t - 600) cu'" using r(2) by (simp_all add: left_result_def)
      then show ?thesis
        using r(1) V_next True go [of 1 cu'] linear_left_skip [of 1 "holds env" t fin]
        by (simp add: search_left_loop.simps [of env fin t] SZBASE_DATA_SPAN_def)
    next
      case (V_jump t' cu')
      then obtain k :: nat where k: "t' - 600 = t - int k * 600" "0 < k" "\<forall>i < k. \<not> holds env (t - int i * 600)" "cursor_left env (t' - 600) cu'"
        using r(2) by (auto simp: left_result_def)
      then show ?thesis
        using r(1) V_jump True go [of k cu'] linear_left_skip [of k "holds env" t fin]
        by (simp add: search_left_loop.simps [of env fin t] SZBASE_DATA_SPAN_def)
    qed
  qed
qed

lemma search_range_linear:
  assumes "search_ok env" "start mod 600 = 0" "\<forall>t. min start fin \<le> t \<and> t \<le> max start fin \<longrightarrow> ok_time t"
  shows "search_in_data_range env val start fin 1 = Some (linear_right (holds env) fin start) \<and>
    search_in_data_range env val start fin (- 1) = Some (linear_left (holds env) fin start)"
proof
  have "cursor_right env start cursor_init" "cursor_left env start cursor_init"
    by (simp_all add: cursor_right_def cursor_left_def cursor_init_def)
  then show "search_in_data_range env val start fin 1 = Some (linear_right (holds env) fin start)"
    and "search_in_data_range env val start fin (- 1) = Some (linear_left (holds env) fin start)"
    using search_right_loop_linear [OF assms(1,2), of fin cursor_init] search_left_loop_linear [OF assms(1,2), of fin cursor_init] assms(3)
    by (simp_all add: search_in_data_range_def search_in_data_right_def search_in_data_left_def)
qed

text \<open>C6. The search by jumps finds what looking at every slot finds. From a full ten minutes on, with
  well-formed blocks of data, no error and no timeout, and a condition that no data does not meet,
  the searches to the right and to the left end and return the first time, in their direction, whose
  probe meets the condition, and -1 if there is none up to the end.\<close>

theorem search_finds_first:
  assumes "search_ok env" "start mod 600 = 0" "\<forall>t. min start fin \<le> t \<and> t \<le> max start fin \<longrightarrow> ok_time t"
  shows "search_in_data_range env val start fin 1 = Some (linear_right (holds env) fin start) \<and>
    search_in_data_range env val start fin (- 1) = Some (linear_left (holds env) fin start)"
  using assms by (rule search_range_linear)

text \<open>No block but that of September 2001, with one probe of data.\<close>

definition demo_block :: dblock where
  "demo_block = \<lparr>bl_data = replicate 2000 FNaN @ Fin 5 # replicate 2319 FNaN, first_data_probe_index = 2000,
     last_data_probe_index = 2000, max_probes = 4320\<rparr>"

definition demo_search :: search_env where
  "demo_search = \<lparr>se_get = (\<lambda>y m. if y = 2001 \<and> m = 9 then Some demo_block else None), se_stop = (\<lambda>_ _. False),
     se_cond = (\<lambda>v. v \<noteq> FNaN)\<rparr>"

theorem search_finds_first_witness:
  "search_in_data_range demo_search (\<lambda>_. FNaN) 1000502400 1000502400 1 = Some 1000502400"
proof -
  have "ok_time 1000502400" by code_simp
  then have *: "\<forall>t. min 1000502400 1000502400 \<le> t \<and> t \<le> max 1000502400 1000502400 \<longrightarrow> ok_time t" by auto
  have "szb_probecnt 2001 9 = Some 4320" by code_simp
  then have "block_ok 2001 9 demo_block" by (auto simp: block_ok_def demo_block_def nth_append nth_Cons')
  then have "search_ok demo_search" by (simp add: search_ok_def demo_search_def)
  from search_finds_first [OF this _ *, of "\<lambda>_. FNaN"]
  have "search_in_data_range demo_search (\<lambda>_. FNaN) 1000502400 1000502400 1 = Some (linear_right (holds demo_search) 1000502400 1000502400)"
    by simp
  moreover have "holds demo_search 1000502400"
  proof -
    have "time2my 1000502400 = Inr (2001, 9)" "szb_probeind 1000502400 600 = Some 2000" by code_simp+
    then show ?thesis by (simp add: holds_def demo_search_def demo_block_def nth_append)
  qed
  ultimately show ?thesis by (simp add: linear_right.simps)
qed

end
