(* ===== verification/Parcook_Avg.thy ===== *)
theory Parcook_Avg
  imports Prelude
begin

text \<open>
  The averaging tables of \<open>parcook/parcook.cc\<close>. For every parameter the daemon keeps the last six
  probes, ten minute averages and six ten-minute averages, with a running sum and a running count
  for each of the three windows, and computes the averages from these. \<open>update_value\<close> replaces
  one entry of a window, \<open>calculate_average\<close> reads the average off.

  A parameter is either single (a \<open>short\<close>) or one half of a combined parameter, a 32-bit value
  whose most significant word carries the sum and count for both. Sums are \<open>long long\<close>
  (\<open>64 word\<close>), counts \<open>unsigned char\<close> (\<open>8 word\<close>), exactly as in the source, so the window
  invariant is an equation between wrapping words; that the signed reading does not overflow is
  proved from the window lengths.
\<close>

unbundle bit_operations_syntax

subsection \<open>Tables\<close>

record param_info =
  pi_combined :: bool
  pi_msw :: bool
  pi_other :: nat

type_synonym sum_table = "64 word list list"
type_synonym cnt_table = "8 word list list"
type_synonym history = "short list list"

definition get2 :: "'a list list \<Rightarrow> nat \<Rightarrow> nat \<Rightarrow> 'a" where
  "get2 t i j = t ! i ! j"

definition upd2 :: "'a list list \<Rightarrow> nat \<Rightarrow> nat \<Rightarrow> 'a \<Rightarrow> 'a list list" where
  "upd2 t i j v = t[i := (t ! i)[j := v]]"

text \<open>The 32-bit value of a pair of words, \<open>(int)(msw << 16) | lsw\<close> of unsigned halves.\<close>

definition combine :: "short \<Rightarrow> short \<Rightarrow> 32 word" where
  "combine msw lsw = push_bit 16 (ucast msw) OR ucast lsw"

subsection \<open>update\_value\<close>

definition update_value ::
  "param_info list \<Rightarrow> nat \<Rightarrow> nat \<Rightarrow> short list \<Rightarrow> nat \<Rightarrow> sum_table \<times> cnt_table \<times> history
     \<Rightarrow> sum_table \<times> cnt_table \<times> history" where
  "update_value ParsInfo param_no probe_type ivt abuf st =
     (case st of (Sums, Cnts, ovt) \<Rightarrow>
      let i = ParsInfo ! param_no; s = get2 Sums param_no probe_type;
          c = get2 Cnts param_no probe_type in
      if \<not> pi_combined i then
        let old = get2 ovt param_no abuf;
            (s1, c1) = (if old \<noteq> SZARP_NO_DATA then (s - scast old, c - 1) else (s, c));
            ovt1 = upd2 ovt param_no abuf (ivt ! param_no);
            new = get2 ovt1 param_no abuf;
            (s2, c2) = (if new \<noteq> SZARP_NO_DATA then (s1 + scast (ivt ! param_no), c1 + 1) else (s1, c1))
        in (upd2 Sums param_no probe_type s2, upd2 Cnts param_no probe_type c2, ovt1)
      else if \<not> pi_msw i then (Sums, Cnts, ovt)
      else
        let other = pi_other i;
            prev_val = combine (get2 ovt param_no abuf) (get2 ovt other abuf);
            (s1, c1) = (if get2 ovt param_no abuf \<noteq> SZARP_NO_DATA
                        then (s - scast prev_val, c - 1) else (s, c));
            ovt1 = upd2 ovt param_no abuf (ivt ! param_no);
            ovt2 = upd2 ovt1 other abuf (ivt ! other);
            val = combine (get2 ovt2 param_no abuf) (get2 ovt2 other abuf);
            (s2, c2) = (if get2 ovt2 param_no abuf \<noteq> SZARP_NO_DATA
                        then (s1 + scast val, c1 + 1) else (s1, c1))
        in (upd2 Sums param_no probe_type s2, upd2 Cnts param_no probe_type c2, ovt2))"

subsection \<open>calculate\_average\<close>

definition calculate_average ::
  "param_info list \<Rightarrow> sum_table \<Rightarrow> cnt_table \<Rightarrow> nat \<Rightarrow> nat \<Rightarrow> short list \<Rightarrow> short list" where
  "calculate_average ParsInfo Sums Cnts param_no probe_type probes =
     (let i = ParsInfo ! param_no; s = get2 Sums param_no probe_type;
          c = get2 Cnts param_no probe_type in
      if \<not> pi_combined i then
        (if c \<noteq> 0 then probes[param_no := word_of_int (sint s sdiv uint c)]
         else probes[param_no := SZARP_NO_DATA])
      else if \<not> pi_msw i then probes
      else if c = 0 then probes[param_no := SZARP_NO_DATA]
      else
        let v = (word_of_int (sint s sdiv uint c) :: 32 word)
        in probes[param_no := ucast (drop_bit 16 v), pi_other i := ucast (v AND 0xFFFF)])"

subsection \<open>Set-up\<close>

text \<open>\<open>AllocProbesMemory\<close> after its loops: all sum_table and counts 0, all windows no data.\<close>

definition alloc_sums :: "nat \<Rightarrow> sum_table" where
  "alloc_sums VTlen = replicate VTlen (replicate 3 0)"

definition alloc_cnts :: "nat \<Rightarrow> cnt_table" where
  "alloc_cnts VTlen = replicate VTlen (replicate 3 0)"

definition alloc_history :: "nat \<Rightarrow> nat \<Rightarrow> history" where
  "alloc_history VTlen n = replicate VTlen (replicate n SZARP_NO_DATA)"

text \<open>\<open>configure_pars_infos\<close>: the IPC indices of the two words of each combined parameter, in
  the order of the configuration; a later pair overwrites an earlier one.\<close>

definition single_info :: param_info where
  "single_info = \<lparr> pi_combined = False, pi_msw = False, pi_other = 0 \<rparr>"

definition configure_pars_infos :: "nat \<Rightarrow> (nat \<times> nat) list \<Rightarrow> param_info list" where
  "configure_pars_infos VTlen combined =
     foldl (\<lambda>t (msw, lsw).
         t[msw := \<lparr> pi_combined = True, pi_msw = True, pi_other = lsw \<rparr>,
           lsw := \<lparr> pi_combined = True, pi_msw = False, pi_other = msw \<rparr>])
       (replicate VTlen single_info) combined"

text \<open>The loops of \<open>MainLoop\<close> over all parameters.\<close>

definition update_values ::
  "param_info list \<Rightarrow> nat \<Rightarrow> nat \<Rightarrow> short list \<Rightarrow> nat \<Rightarrow> sum_table \<times> cnt_table \<times> history
     \<Rightarrow> sum_table \<times> cnt_table \<times> history" where
  "update_values ParsInfo VTlen probe_type ivt abuf st =
     foldl (\<lambda>st ii. update_value ParsInfo ii probe_type ivt abuf st) st [0..<VTlen]"

definition calculate_averages ::
  "param_info list \<Rightarrow> nat \<Rightarrow> sum_table \<Rightarrow> cnt_table \<Rightarrow> nat \<Rightarrow> short list \<Rightarrow> short list" where
  "calculate_averages ParsInfo VTlen Sums Cnts probe_type probes =
     foldl (\<lambda>t ii. calculate_average ParsInfo Sums Cnts ii probe_type t) probes [0..<VTlen]"

subsection \<open>Well-formed parameter tables\<close>

text \<open>Halves of combined parameters come in pairs that point at each other.\<close>

definition wf_infos :: "nat \<Rightarrow> param_info list \<Rightarrow> bool" where
  "wf_infos VTlen infos \<longleftrightarrow> length infos = VTlen \<and>
     (\<forall>p<VTlen. pi_combined (infos ! p) \<longrightarrow>
        (let q = pi_other (infos ! p) in q < VTlen \<and> pi_combined (infos ! q) \<and>
           pi_other (infos ! q) = p \<and> pi_msw (infos ! q) \<noteq> pi_msw (infos ! p)))"

lemma wf_infosD:
  assumes "wf_infos VTlen infos" "p < VTlen" "pi_combined (infos ! p)"
  shows "pi_other (infos ! p) < VTlen" "pi_combined (infos ! pi_other (infos ! p))"
    "pi_other (infos ! pi_other (infos ! p)) = p"
    "pi_msw (infos ! pi_other (infos ! p)) \<longleftrightarrow> \<not> pi_msw (infos ! p)"
    "pi_other (infos ! p) \<noteq> p"
proof -
  show *: "pi_other (infos ! p) < VTlen" "pi_combined (infos ! pi_other (infos ! p))"
    "pi_other (infos ! pi_other (infos ! p)) = p"
    "pi_msw (infos ! pi_other (infos ! p)) \<longleftrightarrow> \<not> pi_msw (infos ! p)"
    using assms by (auto simp: wf_infos_def Let_def)
  show "pi_other (infos ! p) \<noteq> p" using *(4) by metis
qed

lemma length_configure [simp]: "length (configure_pars_infos VTlen cs) = VTlen"
proof -
  have "length (foldl (\<lambda>t (msw, lsw).
         t[msw := \<lparr> pi_combined = True, pi_msw = True, pi_other = lsw \<rparr>,
           lsw := \<lparr> pi_combined = True, pi_msw = False, pi_other = msw \<rparr>]) t cs) = length t" for t
    by (induction cs arbitrary: t) auto
  then show ?thesis by (simp add: configure_pars_infos_def)
qed

lemma configure_snoc:
  "configure_pars_infos VTlen (cs @ [(m, l)]) = (configure_pars_infos VTlen cs)
     [m := \<lparr> pi_combined = True, pi_msw = True, pi_other = l \<rparr>,
      l := \<lparr> pi_combined = True, pi_msw = False, pi_other = m \<rparr>]"
  by (simp add: configure_pars_infos_def)

definition pair_indices :: "(nat \<times> nat) list \<Rightarrow> nat list" where
  "pair_indices cs = concat (map (\<lambda>(m, l). [m, l]) cs)"

lemma configure_untouched:
  "p < VTlen \<Longrightarrow> p \<notin> set (pair_indices cs) \<Longrightarrow> configure_pars_infos VTlen cs ! p = single_info"
proof (induction cs rule: rev_induct)
  case Nil
  then show ?case by (simp add: configure_pars_infos_def)
next
  case (snoc c cs)
  then show ?case by (cases c) (auto simp: configure_snoc pair_indices_def)
qed

lemma configure_combined_in:
  assumes "p < VTlen" "pi_combined (configure_pars_infos VTlen cs ! p)"
  shows "p \<in> set (pair_indices cs)"
  using configure_untouched [OF assms(1), of cs] assms(2)
  by (metis param_info.select_convs(1) single_info_def)

lemma configure_wf:
  assumes "distinct (pair_indices cs)" "\<forall>i\<in>set (pair_indices cs). i < VTlen"
  shows "wf_infos VTlen (configure_pars_infos VTlen cs)"
  using assms
proof (induction cs rule: rev_induct)
  case Nil
  then show ?case
    by (simp add: wf_infos_def configure_pars_infos_def single_info_def)
next
  case (snoc c cs)
  obtain m l where c: "c = (m, l)" by fastforce
  have pi: "pair_indices (cs @ [c]) = pair_indices cs @ [m, l]"
    by (simp add: pair_indices_def c)
  have wf: "wf_infos VTlen (configure_pars_infos VTlen cs)" and ml: "m \<noteq> l" "m < VTlen" "l < VTlen"
    and fresh: "m \<notin> set (pair_indices cs)" "l \<notin> set (pair_indices cs)"
    using snoc by (auto simp: pi)
  let ?t = "configure_pars_infos VTlen cs"
  have other: "pi_other (?t ! p) \<noteq> m \<and> pi_other (?t ! p) \<noteq> l"
    if "p < VTlen" "pi_combined (?t ! p)" for p
    using wf_infosD [OF wf that] configure_combined_in [of _ VTlen cs] fresh by blast
  show ?case
    using wf ml other unfolding wf_infos_def Let_def c configure_snoc
    by (auto simp: nth_list_update)
qed

subsection \<open>Windows\<close>

text \<open>The value a window holds at a place, if it holds data: the sample, or the 32-bit number
  of a pair, which has data when its most significant word is not the marker.\<close>

definition entry :: "param_info list \<Rightarrow> history \<Rightarrow> nat \<Rightarrow> nat \<Rightarrow> int option" where
  "entry infos ovt p k =
     (if get2 ovt p k = SZARP_NO_DATA then None
      else if pi_combined (infos ! p)
        then Some (sint (combine (get2 ovt p k) (get2 ovt (pi_other (infos ! p)) k)))
      else Some (sint (get2 ovt p k)))"

definition entry_val :: "int option \<Rightarrow> int" where
  "entry_val e = (case e of None \<Rightarrow> 0 | Some v \<Rightarrow> v)"

definition entry_cnt :: "int option \<Rightarrow> int" where
  "entry_cnt e = (case e of None \<Rightarrow> 0 | Some _ \<Rightarrow> 1)"

definition window_sum :: "param_info list \<Rightarrow> history \<Rightarrow> nat \<Rightarrow> nat \<Rightarrow> int" where
  "window_sum infos ovt n p = (\<Sum>k<n. entry_val (entry infos ovt p k))"

definition window_cnt :: "param_info list \<Rightarrow> history \<Rightarrow> nat \<Rightarrow> nat \<Rightarrow> int" where
  "window_cnt infos ovt n p = (\<Sum>k<n. entry_cnt (entry infos ovt p k))"

text \<open>A parameter that keeps sum_table of its own: single, or the most significant half of a pair.\<close>

definition carries :: "param_info list \<Rightarrow> nat \<Rightarrow> bool" where
  "carries infos p \<longleftrightarrow> pi_combined (infos ! p) \<longrightarrow> pi_msw (infos ! p)"

definition window_inv ::
  "param_info list \<Rightarrow> nat \<Rightarrow> nat \<Rightarrow> nat \<Rightarrow> sum_table \<times> cnt_table \<times> history \<Rightarrow> bool" where
  "window_inv infos VTlen n probe_type st = (case st of (Sums, Cnts, ovt) \<Rightarrow>
     length Sums = VTlen \<and> length Cnts = VTlen \<and> length ovt = VTlen \<and> probe_type < 3 \<and>
     (\<forall>p<VTlen. length (Sums ! p) = 3 \<and> length (Cnts ! p) = 3 \<and> length (ovt ! p) = n) \<and>
     (\<forall>p<VTlen. carries infos p \<longrightarrow>
        get2 Sums p probe_type = word_of_int (window_sum infos ovt n p) \<and>
        get2 Cnts p probe_type = word_of_int (window_cnt infos ovt n p)))"

lemma get2_upd2:
  "i < length t \<Longrightarrow> j < length (t ! i) \<Longrightarrow>
     get2 (upd2 t i j v) a b = (if a = i \<and> b = j then v else get2 t a b)"
  by (auto simp: get2_def upd2_def nth_list_update)

lemma length_upd2 [simp]: "length (upd2 t i j v) = length t"
  by (simp add: upd2_def)

lemma length_upd2_row [simp]: "length (upd2 t i j v ! a) = length (t ! a)"
  by (cases "i < length t"; cases "a = i") (simp_all add: upd2_def list_update_beyond)

subsection \<open>One update\<close>

text \<open>What \<open>update_value\<close> does to the histories, and its effect on sum and count in terms of
  the window entry before and after.\<close>

definition store :: "param_info list \<Rightarrow> short list \<Rightarrow> nat \<Rightarrow> nat \<Rightarrow> history \<Rightarrow> history" where
  "store infos ivt p k ovt =
     (if pi_combined (infos ! p)
      then upd2 (upd2 ovt p k (ivt ! p)) (pi_other (infos ! p)) k (ivt ! pi_other (infos ! p))
      else upd2 ovt p k (ivt ! p))"

lemma update_value_lsw:
  "\<not> carries infos p \<Longrightarrow> update_value infos p pt ivt k st = st"
  by (simp add: update_value_def carries_def Let_def split: prod.splits)

lemma get2_store:
  assumes "p < length ovt" "k < length (ovt ! p)"
    and "pi_combined (infos ! p) \<Longrightarrow> pi_other (infos ! p) < length ovt"
    and "pi_combined (infos ! p) \<Longrightarrow> k < length (ovt ! pi_other (infos ! p))"
  shows "get2 (store infos ivt p k ovt) a b =
    (if b = k \<and> (a = p \<or> pi_combined (infos ! p) \<and> a = pi_other (infos ! p)) then ivt ! a
     else get2 ovt a b)"
proof (cases "pi_combined (infos ! p)")
  case True
  then show ?thesis using assms(1,2) assms(3) [OF True] assms(4) [OF True]
    by (simp add: store_def get2_upd2)
next
  case False
  then show ?thesis using assms(1,2) by (simp add: store_def get2_upd2)
qed

lemma entry_simps [simp]:
  "entry_val None = 0" "entry_val (Some v) = v" "entry_cnt None = 0" "entry_cnt (Some v) = 1"
  by (simp_all add: entry_val_def entry_cnt_def)

lemma update_value_single:
  assumes "\<not> pi_combined (infos ! p)" and "p < length ovt" "k < length (ovt ! p)"
  shows "update_value infos p pt ivt k (Sums, Cnts, ovt) =
     (let ovt' = store infos ivt p k ovt; e = entry infos ovt p k; e' = entry infos ovt' p k in
      (upd2 Sums p pt (get2 Sums p pt + word_of_int (entry_val e' - entry_val e)),
       upd2 Cnts p pt (get2 Cnts p pt + word_of_int (entry_cnt e' - entry_cnt e)), ovt'))"
proof -
  define ovt' where "ovt' = store infos ivt p k ovt"
  have *: "upd2 ovt p k (ivt ! p) = ovt'" using assms by (simp add: ovt'_def store_def)
  have new: "scast (ivt ! p) = (scast (get2 ovt' p k) :: 64 word)"
    using assms by (simp add: get2_upd2 * [symmetric])
  show ?thesis
    unfolding ovt'_def [symmetric]
    using assms(1)
    by (cases "get2 ovt p k = SZARP_NO_DATA"; cases "get2 ovt' p k = SZARP_NO_DATA")
      (simp_all add: update_value_def Let_def entry_def * new add_diff_eq diff_add_eq)
qed

lemma update_value_msw:
  assumes "pi_combined (infos ! p)" "pi_msw (infos ! p)"
  shows "update_value infos p pt ivt k (Sums, Cnts, ovt) =
     (let ovt' = store infos ivt p k ovt; e = entry infos ovt p k; e' = entry infos ovt' p k in
      (upd2 Sums p pt (get2 Sums p pt + word_of_int (entry_val e' - entry_val e)),
       upd2 Cnts p pt (get2 Cnts p pt + word_of_int (entry_cnt e' - entry_cnt e)), ovt'))"
proof -
  define ovt' where "ovt' = store infos ivt p k ovt"
  have *: "upd2 (upd2 ovt p k (ivt ! p)) (pi_other (infos ! p)) k (ivt ! pi_other (infos ! p)) = ovt'"
    using assms by (simp add: ovt'_def store_def)
  show ?thesis
    unfolding ovt'_def [symmetric]
    using assms
    by (cases "get2 ovt p k = SZARP_NO_DATA"; cases "get2 ovt' p k = SZARP_NO_DATA")
      (simp_all add: update_value_def Let_def entry_def * add_diff_eq diff_add_eq)
qed

lemma length_store [simp]:
  "length (store infos ivt p k ovt) = length ovt" "length (store infos ivt p k ovt ! a) = length (ovt ! a)"
  by (simp_all add: store_def)

lemma sum_point_update:
  fixes f g :: "nat \<Rightarrow> int"
  assumes "k < n" "\<And>j. j \<noteq> k \<Longrightarrow> g j = f j"
  shows "(\<Sum>j<n. g j) = (\<Sum>j<n. f j) + (g k - f k)"
proof -
  have "(\<Sum>j<n. h j) = h k + (\<Sum>j\<in>{..<n} - {k}. h j)" for h :: "nat \<Rightarrow> int"
    using assms(1) by (simp add: sum.remove)
  moreover have "(\<Sum>j\<in>{..<n} - {k}. g j) = (\<Sum>j\<in>{..<n} - {k}. f j)"
    by (intro sum.cong) (auto simp: assms(2))
  ultimately show ?thesis by simp
qed

text \<open>The shape of the tables, apart from what they hold.\<close>

definition shaped :: "nat \<Rightarrow> nat \<Rightarrow> history \<Rightarrow> bool" where
  "shaped VTlen n ovt \<longleftrightarrow> length ovt = VTlen \<and> (\<forall>p<VTlen. length (ovt ! p) = n)"

lemma get2_store_shaped:
  assumes "wf_infos VTlen infos" "shaped VTlen n ovt" "p < VTlen" "k < n"
  shows "get2 (store infos ivt p k ovt) a b =
    (if b = k \<and> (a = p \<or> pi_combined (infos ! p) \<and> a = pi_other (infos ! p)) then ivt ! a
     else get2 ovt a b)"
  using assms wf_infosD(1) [OF assms(1,3)] by (intro get2_store) (auto simp: shaped_def)

lemma shaped_store: "shaped VTlen n ovt \<Longrightarrow> shaped VTlen n (store infos ivt p k ovt)"
  by (simp add: shaped_def)

text \<open>Two parameters that carry sum_table have disjoint halves.\<close>

lemma carries_disjoint:
  assumes "wf_infos VTlen infos" "p < VTlen" "q < VTlen" "carries infos p" "carries infos q" "p \<noteq> q"
  shows "pi_combined (infos ! p) \<Longrightarrow> q \<noteq> pi_other (infos ! p)"
    and "pi_combined (infos ! p) \<Longrightarrow> pi_combined (infos ! q) \<Longrightarrow>
           pi_other (infos ! q) \<noteq> pi_other (infos ! p)"
proof -
  show "q \<noteq> pi_other (infos ! p)" if "pi_combined (infos ! p)"
    using wf_infosD(2,4) [OF assms(1,2) that] assms(4,5) that by (auto simp: carries_def)
  show "pi_other (infos ! q) \<noteq> pi_other (infos ! p)"
    if "pi_combined (infos ! p)" "pi_combined (infos ! q)"
    using wf_infosD(3) [OF assms(1,2) that(1)] wf_infosD(3) [OF assms(1,3) that(2)] assms(6) by metis
qed

lemma entry_store_other:
  assumes "wf_infos VTlen infos" "shaped VTlen n ovt" "p < VTlen" "k < n" "q < VTlen"
    "carries infos p" "carries infos q" "p \<noteq> q"
  shows "entry infos (store infos ivt p k ovt) q j = entry infos ovt q j"
proof -
  note dis = carries_disjoint [OF assms(1,3,5-8)]
  have "q \<noteq> p" "pi_combined (infos ! p) \<longrightarrow> q \<noteq> pi_other (infos ! p)"
    using assms(8) dis(1) by auto
  moreover have "pi_other (infos ! q) \<noteq> p" if "pi_combined (infos ! q)"
    using carries_disjoint(1) [OF assms(1,5,3,7,6)] assms(8) that by metis
  ultimately show ?thesis
    using dis(2) get2_store_shaped [OF assms(1-4)] by (auto simp: entry_def)
qed

lemma entry_store_elsewhere:
  assumes "wf_infos VTlen infos" "shaped VTlen n ovt" "p < VTlen" "k < n" "j \<noteq> k"
  shows "entry infos (store infos ivt p k ovt) q j = entry infos ovt q j"
  using get2_store_shaped [OF assms(1-4)] assms(5) by (simp add: entry_def)

lemma window_store_self:
  fixes ivt :: "short list"
  assumes "wf_infos VTlen infos" "shaped VTlen n ovt" "p < VTlen" "k < n"
  defines "ovt' \<equiv> store infos ivt p k ovt"
  shows "window_sum infos ovt' n p =
      window_sum infos ovt n p + (entry_val (entry infos ovt' p k) - entry_val (entry infos ovt p k))"
    and "window_cnt infos ovt' n p =
      window_cnt infos ovt n p + (entry_cnt (entry infos ovt' p k) - entry_cnt (entry infos ovt p k))"
  using entry_store_elsewhere [OF assms(1-4)] assms(4) unfolding window_sum_def window_cnt_def ovt'_def
  by (auto intro!: sum_point_update)

lemma window_inv_shaped: "window_inv infos VTlen n pt (Sums, Cnts, ovt) \<Longrightarrow> shaped VTlen n ovt"
  by (simp add: window_inv_def shaped_def)

lemma update_value_carries:
  assumes "carries infos p" "shaped VTlen n ovt" "p < VTlen" "k < n"
  shows "update_value infos p pt ivt k (Sums, Cnts, ovt) =
     (let ovt' = store infos ivt p k ovt; e = entry infos ovt p k; e' = entry infos ovt' p k in
      (upd2 Sums p pt (get2 Sums p pt + word_of_int (entry_val e' - entry_val e)),
       upd2 Cnts p pt (get2 Cnts p pt + word_of_int (entry_cnt e' - entry_cnt e)), ovt'))"
  using assms update_value_single [of infos p ovt k] update_value_msw [of infos p]
  by (cases "pi_combined (infos ! p)") (auto simp: carries_def shaped_def)

lemma update_value_inv:
  assumes "wf_infos VTlen infos" "window_inv infos VTlen n pt (Sums, Cnts, ovt)" "p < VTlen" "k < n"
  shows "window_inv infos VTlen n pt (update_value infos p pt ivt k (Sums, Cnts, ovt))"
proof (cases "carries infos p")
  case True
  define ovt' where "ovt' = store infos ivt p k ovt"
  note sh = window_inv_shaped [OF assms(2)]
  have other: "window_sum infos ovt' n q = window_sum infos ovt n q \<and>
      window_cnt infos ovt' n q = window_cnt infos ovt n q"
    if "q < VTlen" "carries infos q" "q \<noteq> p" for q
    using entry_store_other [OF assms(1) sh assms(3,4) that(1) True that(2)] that(3)
    by (simp add: window_sum_def window_cnt_def ovt'_def)
  show ?thesis
    using assms(2,3) other window_store_self [OF assms(1) sh assms(3,4), of ivt]
    unfolding update_value_carries [OF True sh assms(3,4)] Let_def ovt'_def [symmetric]
    by (auto simp: window_inv_def get2_upd2 ovt'_def)
next
  case False
  then show ?thesis using assms(2) by (simp add: update_value_lsw)
qed

subsection \<open>All parameters\<close>

lemma update_value_frame:
  assumes "update_value infos p pt ivt k (Sums, Cnts, ovt) = (Sums', Cnts', ovt')"
  shows "\<exists>s c. (Sums' = Sums \<or> Sums' = upd2 Sums p pt s) \<and> (Cnts' = Cnts \<or> Cnts' = upd2 Cnts p pt c)"
  using assms by (auto simp: update_value_def Let_def split: if_splits prod.splits)

lemma get2_upd2_column: "pt2 \<noteq> pt \<Longrightarrow> get2 (upd2 t i pt v) a pt2 = get2 t a pt2"
  by (cases "i < length t"; cases "a = i") (auto simp: get2_def upd2_def list_update_beyond)

lemma window_inv_other:
  assumes "window_inv infos VTlen m pt2 (Sums, Cnts, ovt2)" "pt2 \<noteq> pt"
    and "(Sums' = Sums \<or> Sums' = upd2 Sums p pt s) \<and> (Cnts' = Cnts \<or> Cnts' = upd2 Cnts p pt c)"
  shows "window_inv infos VTlen m pt2 (Sums', Cnts', ovt2)"
  using assms by (auto simp: window_inv_def get2_upd2_column)

text \<open>The column an update writes holds the new samples, every other column is kept.\<close>

definition column_written :: "nat \<Rightarrow> short list \<Rightarrow> nat \<Rightarrow> nat set \<Rightarrow> history \<Rightarrow> history \<Rightarrow> bool" where
  "column_written VTlen ivt k P ovt ovt' \<longleftrightarrow>
     (\<forall>a<VTlen. \<forall>b. get2 ovt' a b = (if b = k \<and> a \<in> P then ivt ! a else get2 ovt a b))"

definition stored_by :: "param_info list \<Rightarrow> nat \<Rightarrow> nat set" where
  "stored_by infos p = (if \<not> carries infos p then {}
     else if pi_combined (infos ! p) then {p, pi_other (infos ! p)} else {p})"

lemma update_value_column:
  assumes "wf_infos VTlen infos" "shaped VTlen n ovt" "p < VTlen" "k < n"
    and "update_value infos p pt ivt k (Sums, Cnts, ovt) = (Sums', Cnts', ovt')"
  shows "column_written VTlen ivt k (stored_by infos p) ovt ovt'" and "shaped VTlen n ovt'"
proof -
  have "column_written VTlen ivt k (stored_by infos p) ovt ovt' \<and> shaped VTlen n ovt'"
  proof (cases "carries infos p")
    case True
    then have "ovt' = store infos ivt p k ovt"
      using assms(5) update_value_carries [OF True assms(2-4)] by (simp add: Let_def)
    then show ?thesis
      using get2_store_shaped [OF assms(1-4)] shaped_store [OF assms(2)] True
      by (auto simp: column_written_def stored_by_def)
  next
    case False
    then show ?thesis using assms(2,5)
      by (simp add: update_value_lsw column_written_def stored_by_def)
  qed
  then show "column_written VTlen ivt k (stored_by infos p) ovt ovt'" and "shaped VTlen n ovt'" by auto
qed

lemma column_written_trans:
  "column_written VTlen ivt k P a b \<Longrightarrow> column_written VTlen ivt k Q b c \<Longrightarrow>
     column_written VTlen ivt k (P \<union> Q) a c"
  by (auto simp: column_written_def)

lemma stored_by_all:
  assumes "wf_infos VTlen infos" "a < VTlen"
  shows "\<exists>p<VTlen. a \<in> stored_by infos p"
proof (cases "carries infos a")
  case True
  then show ?thesis using assms by (intro exI [of _ a]) (auto simp: stored_by_def)
next
  case False
  then have c: "pi_combined (infos ! a)" "\<not> pi_msw (infos ! a)" by (auto simp: carries_def)
  show ?thesis
    using wf_infosD [OF assms c(1)] c(2)
    by (intro exI [of _ "pi_other (infos ! a)"]) (auto simp: stored_by_def carries_def)
qed

lemma update_prefix:
  assumes "wf_infos VTlen infos" "window_inv infos VTlen n pt (Sums, Cnts, ovt)" "k < n" "m \<le> VTlen"
    "foldl (\<lambda>st ii. update_value infos ii pt ivt k st) (Sums, Cnts, ovt) [0..<m] = (Sums', Cnts', ovt')"
  shows "window_inv infos VTlen n pt (Sums', Cnts', ovt') \<and>
    column_written VTlen ivt k (\<Union>p<m. stored_by infos p) ovt ovt' \<and>
    (\<forall>pt2 n2 ovt2. pt2 \<noteq> pt \<longrightarrow> window_inv infos VTlen n2 pt2 (Sums, Cnts, ovt2) \<longrightarrow>
       window_inv infos VTlen n2 pt2 (Sums', Cnts', ovt2))"
  using assms(4,5)
proof (induction m arbitrary: Sums' Cnts' ovt')
  case 0
  then show ?case using assms(2) by (simp add: column_written_def)
next
  case (Suc m)
  obtain S1 C1 o1 where st: "foldl (\<lambda>st ii. update_value infos ii pt ivt k st) (Sums, Cnts, ovt) [0..<m]
      = (S1, C1, o1)"
    by (metis prod_cases3)
  note IH = Suc.IH [OF _ st]
  have up: "update_value infos m pt ivt k (S1, C1, o1) = (Sums', Cnts', ovt')"
    using Suc.prems(2) st by simp
  have inv1: "window_inv infos VTlen n pt (S1, C1, o1)" using IH Suc.prems by simp
  have "window_inv infos VTlen n pt (Sums', Cnts', ovt')"
    using update_value_inv [OF assms(1) inv1, of m k ivt] up assms(3) Suc.prems by simp
  moreover have "column_written VTlen ivt k (\<Union>p<Suc m. stored_by infos p) ovt ovt'"
    using column_written_trans [of VTlen ivt k "\<Union>p<m. stored_by infos p" ovt o1 "stored_by infos m" ovt']
      update_value_column(1) [OF assms(1) window_inv_shaped [OF inv1] _ assms(3) up] IH Suc.prems
    by (simp add: lessThan_Suc Un_commute)
  moreover have "window_inv infos VTlen n2 pt2 (Sums', Cnts', ovt2)"
    if "pt2 \<noteq> pt" "window_inv infos VTlen n2 pt2 (S1, C1, ovt2)" for pt2 n2 ovt2
    using update_value_frame [OF up] window_inv_other [OF that(2,1)] by blast
  ultimately show ?case using IH Suc.prems by auto
qed

lemma update_values_correct:
  assumes "wf_infos VTlen infos" "window_inv infos VTlen n pt (Sums, Cnts, ovt)" "k < n"
    "update_values infos VTlen pt ivt k (Sums, Cnts, ovt) = (Sums', Cnts', ovt')"
  shows "window_inv infos VTlen n pt (Sums', Cnts', ovt')"
    and "\<And>a b. a < VTlen \<Longrightarrow> get2 ovt' a b = (if b = k then ivt ! a else get2 ovt a b)"
    and "\<And>pt2 n2 ovt2. pt2 \<noteq> pt \<Longrightarrow> window_inv infos VTlen n2 pt2 (Sums, Cnts, ovt2) \<Longrightarrow>
       window_inv infos VTlen n2 pt2 (Sums', Cnts', ovt2)"
proof -
  note * = update_prefix [OF assms(1-3) order.refl assms(4) [unfolded update_values_def]]
  show "window_inv infos VTlen n pt (Sums', Cnts', ovt')" using * by simp
  show "get2 ovt' a b = (if b = k then ivt ! a else get2 ovt a b)" if "a < VTlen" for a b
    using * stored_by_all [OF assms(1) that] that by (auto simp: column_written_def)
  show "window_inv infos VTlen n2 pt2 (Sums', Cnts', ovt2)"
    if "pt2 \<noteq> pt" "window_inv infos VTlen n2 pt2 (Sums, Cnts, ovt2)" for pt2 n2 ovt2
    using * that by blast
qed

subsection \<open>Averages\<close>

text \<open>What the loop over \<open>calculate_average\<close> leaves in the segment.\<close>

definition average_at :: "param_info list \<Rightarrow> sum_table \<Rightarrow> cnt_table \<Rightarrow> nat \<Rightarrow> short list \<Rightarrow> nat \<Rightarrow> short" where
  "average_at infos Sums Cnts pt old q =
     (let i = infos ! q; p = (if carries infos q then q else pi_other i);
          s = get2 Sums p pt; c = get2 Cnts p pt; a = sint s sdiv uint c in
      if c = 0 then (if carries infos q then SZARP_NO_DATA else old ! q)
      else if \<not> pi_combined i then word_of_int a
      else if pi_msw i then ucast (drop_bit 16 (word_of_int a :: 32 word))
      else ucast ((word_of_int a :: 32 word) AND 0xFFFF))"

lemma length_calculate_average [simp]:
  "length (calculate_average infos Sums Cnts p pt probes) = length probes"
  by (simp add: calculate_average_def Let_def)

lemma calculate_average_nth:
  assumes "wf_infos VTlen infos" "length probes = VTlen" "p < VTlen" "q < VTlen"
  shows "calculate_average infos Sums Cnts p pt probes ! q =
    (if q \<in> stored_by infos p then average_at infos Sums Cnts pt probes q else probes ! q)"
proof (cases "pi_combined (infos ! p)")
  case True
  note D = wf_infosD [OF assms(1,3) True]
  show ?thesis
    using True D assms(2-4)
    by (auto simp: calculate_average_def Let_def stored_by_def carries_def average_at_def
        nth_list_update)
next
  case False
  then show ?thesis using assms(2-4)
    by (auto simp: calculate_average_def Let_def stored_by_def carries_def average_at_def)
qed

lemma stored_by_unique:
  assumes "wf_infos VTlen infos" "p < VTlen" "p' < VTlen" "q \<in> stored_by infos p" "q \<in> stored_by infos p'"
  shows "p = p'"
proof (rule ccontr)
  assume "p \<noteq> p'"
  then show False
    using assms(4,5) carries_disjoint [OF assms(1,2,3)] carries_disjoint [OF assms(1,3,2)]
    by (auto simp: stored_by_def split: if_splits)
qed

lemma average_at_cong:
  "probes ! q = probes' ! q \<Longrightarrow> average_at infos Sums Cnts pt probes q = average_at infos Sums Cnts pt probes' q"
  by (simp add: average_at_def Let_def)

lemma averages_prefix:
  assumes "wf_infos VTlen infos" "length probes = VTlen" "q < VTlen" "m \<le> VTlen"
  shows "length (foldl (\<lambda>t ii. calculate_average infos Sums Cnts ii pt t) probes [0..<m]) = VTlen \<and>
    foldl (\<lambda>t ii. calculate_average infos Sums Cnts ii pt t) probes [0..<m] ! q =
      (if \<exists>p<m. q \<in> stored_by infos p then average_at infos Sums Cnts pt probes q else probes ! q)"
  using assms(4)
proof (induction m)
  case 0
  then show ?case using assms(2) by simp
next
  case (Suc m)
  let ?t = "foldl (\<lambda>t ii. calculate_average infos Sums Cnts ii pt t) probes [0..<m]"
  have IH: "length ?t = VTlen" "?t ! q = (if \<exists>p<m. q \<in> stored_by infos p
      then average_at infos Sums Cnts pt probes q else probes ! q)"
    using Suc by auto
  have step: "calculate_average infos Sums Cnts m pt ?t ! q =
      (if q \<in> stored_by infos m then average_at infos Sums Cnts pt ?t q else ?t ! q)"
    using calculate_average_nth [OF assms(1) IH(1) _ assms(3), of m] Suc.prems by simp
  show ?case
  proof (cases "q \<in> stored_by infos m")
    case True
    have none: "\<not> (\<exists>p<m. q \<in> stored_by infos p)"
    proof
      assume "\<exists>p<m. q \<in> stored_by infos p"
      then obtain p where "p < m" "q \<in> stored_by infos p" by blast
      then show False using stored_by_unique [OF assms(1) _ _ _ True, of p] Suc.prems by simp
    qed
    then have "?t ! q = probes ! q" using IH(2) by (simp only: if_False)
    then have "average_at infos Sums Cnts pt ?t q = average_at infos Sums Cnts pt probes q"
      by (rule average_at_cong)
    then show ?thesis using True step IH(1) less_Suc_eq by auto
  next
    case False
    then have "(\<exists>p<Suc m. q \<in> stored_by infos p) \<longleftrightarrow> (\<exists>p<m. q \<in> stored_by infos p)"
      by (auto simp: less_Suc_eq)
    then show ?thesis using False step IH by simp
  qed
qed

lemma calculate_averages_nth:
  assumes "wf_infos VTlen infos" "length probes = VTlen" "q < VTlen"
  shows "calculate_averages infos VTlen Sums Cnts pt probes ! q = average_at infos Sums Cnts pt probes q"
    and "length (calculate_averages infos VTlen Sums Cnts pt probes) = VTlen"
  using averages_prefix [OF assms order.refl] stored_by_all [OF assms(1,3)]
  by (auto simp: calculate_averages_def)

subsection \<open>No overflow\<close>

lemma entry_cnt_range: "0 \<le> entry_cnt e" "entry_cnt e \<le> 1"
  by (cases e; simp)+

lemma window_cnt_bounds: "0 \<le> window_cnt infos ovt n p" "window_cnt infos ovt n p \<le> int n"
  using sum_bounded_above [of "{..<n}" "\<lambda>k. entry_cnt (entry infos ovt p k)" 1] entry_cnt_range
  by (auto simp: window_cnt_def intro: sum_nonneg)

lemma window_sum_bounds:
  assumes "\<And>k v. k < n \<Longrightarrow> entry infos ovt p k = Some v \<Longrightarrow> lo \<le> v \<and> v \<le> hi"
  shows "window_cnt infos ovt n p * lo \<le> window_sum infos ovt n p"
    and "window_sum infos ovt n p \<le> window_cnt infos ovt n p * hi"
proof -
  have e: "entry_cnt (entry infos ovt p k) * lo \<le> entry_val (entry infos ovt p k) \<and>
      entry_val (entry infos ovt p k) \<le> entry_cnt (entry infos ovt p k) * hi" if "k < n" for k
    using assms [OF that] by (cases "entry infos ovt p k") simp_all
  show "window_cnt infos ovt n p * lo \<le> window_sum infos ovt n p"
    "window_sum infos ovt n p \<le> window_cnt infos ovt n p * hi"
    unfolding window_cnt_def window_sum_def sum_distrib_right
    by (intro sum_mono; simp add: e)+
qed

lemma sdiv_between:
  assumes "0 < (c :: int)" "c * lo \<le> s" "s \<le> c * hi"
  shows "lo \<le> s sdiv c" and "s sdiv c \<le> hi"
proof -
  show "lo \<le> s sdiv c"
  proof (cases "0 \<le> s")
    case True
    have "lo \<le> s div c" using assms zdiv_mono1 [of "c * lo" s c] by simp
    then show ?thesis using True assms(1) by (simp add: sdiv_nonneg)
  next
    case False
    then have "s sdiv c = - ((- s) div c)" using assms(1) by (simp add: signed_divide_int_def)
    moreover have "(- s) div c \<le> - lo"
      using assms(1,2) zdiv_mono1 [of "- s" "c * - lo" c] nonzero_mult_div_cancel_left [of c "- lo"]
      by (simp only: mult_minus_right neg_le_iff_le)
    ultimately show ?thesis by simp
  qed
  show "s sdiv c \<le> hi"
  proof (cases "0 \<le> s")
    case True
    then show ?thesis using assms zdiv_mono1 [of s "c * hi" c] by (simp add: sdiv_nonneg)
  next
    case False
    then have "s sdiv c = - ((- s) div c)" using assms(1) by (simp add: signed_divide_int_def)
    moreover have "- hi \<le> (- s) div c"
      using assms(1,3) zdiv_mono1 [of "c * - hi" "- s" c] nonzero_mult_div_cancel_left [of c "- hi"]
      by (simp only: mult_minus_right neg_le_iff_le)
    ultimately show ?thesis by simp
  qed
qed

lemma combine_split: "combine (ucast (drop_bit 16 v)) (ucast (v AND 0xFFFF)) = v"
  for v :: "32 word"
proof (rule bit_word_eqI)
  fix n :: nat
  assume "n < LENGTH(32)"
  then show "bit (combine (ucast (drop_bit 16 v)) (ucast (v AND 0xFFFF))) n = bit v n"
    by (auto simp: combine_def bit_simps mask16)
qed

lemma sint_combine: "sint (combine m l) = sint m * 65536 + uint l"
proof -
  have "push_bit 16 (ucast m :: 32 word) AND ucast l = 0"
    by (rule bit_word_eqI) (auto simp: bit_simps dest: bit_imp_le_length)
  then have "combine m l = push_bit 16 (ucast m) + ucast l"
    unfolding combine_def by (rule disjunctive_add_eq_or [symmetric])
  also have "push_bit 16 (ucast m :: 32 word) = push_bit 16 (scast m)"
    by (rule bit_word_eqI) (auto simp: bit_simps)
  also have "push_bit 16 (scast m :: 32 word) + ucast l = word_of_int (sint m * 65536 + uint l)"
    by (simp add: push_bit_eq_mult)
  finally have "combine m l = word_of_int (sint m * 65536 + uint l)" .
  moreover have "uint l < 65536" "0 \<le> uint l" using uint_lt2p [of l] by simp_all
  then have "- 2147483648 \<le> sint m * 65536 + uint l" "sint m * 65536 + uint l < 2147483648"
    using sint_short_bounds [of m] by linarith+
  ultimately show ?thesis
    by (simp only:) (intro sint_word_of_int_eq; simp)
qed

text \<open>Every entry of a window is in the range of its parameter, and never so low that the
  average could be read as no data.\<close>

definition entry_lo :: "param_info list \<Rightarrow> nat \<Rightarrow> int" where
  "entry_lo infos p = (if pi_combined (infos ! p) then - 32767 * 65536 else - 32767)"

definition entry_hi :: "param_info list \<Rightarrow> nat \<Rightarrow> int" where
  "entry_hi infos p = (if pi_combined (infos ! p) then 2 ^ 31 - 1 else 32767)"

lemma entry_bounds:
  assumes "entry infos ovt p k = Some v"
  shows "entry_lo infos p \<le> v \<and> v \<le> entry_hi infos p"
proof -
  have nd: "get2 ovt p k \<noteq> SZARP_NO_DATA" using assms by (auto simp: entry_def)
  have lo: "- 32767 \<le> sint (get2 ovt p k)" "sint (get2 ovt p k) \<le> 32767"
    using sint_data_bound [OF nd] sint_short_bounds by auto
  show ?thesis
  proof (cases "pi_combined (infos ! p)")
    case True
    let ?l = "get2 ovt (pi_other (infos ! p)) k"
    have "0 \<le> uint ?l" "uint ?l < 65536" using uint_lt2p [of ?l] by simp_all
    moreover have "v = sint (get2 ovt p k) * 65536 + uint ?l"
      using True assms nd by (simp add: entry_def sint_combine)
    ultimately have "- 32767 * 65536 \<le> v \<and> v \<le> 2147483647" using lo by linarith
    then show ?thesis using True by (simp add: entry_lo_def entry_hi_def)
  next
    case False
    then show ?thesis using assms lo nd by (auto simp: entry_def entry_lo_def entry_hi_def)
  qed
qed

lemma window_sum_range:
  shows "window_cnt infos ovt n p * entry_lo infos p \<le> window_sum infos ovt n p"
    and "window_sum infos ovt n p \<le> window_cnt infos ovt n p * entry_hi infos p"
  using window_sum_bounds [of n infos ovt p "entry_lo infos p" "entry_hi infos p"]
    entry_bounds [of infos ovt p] by blast+

text \<open>Reading sum and count back from the wrapping words.\<close>

lemma window_inv_read:
  assumes "window_inv infos VTlen n pt (Sums, Cnts, ovt)" "n \<le> 255" "p < VTlen" "carries infos p"
  shows "sint (get2 Sums p pt) = window_sum infos ovt n p"
    and "uint (get2 Cnts p pt) = window_cnt infos ovt n p"
    and "get2 Cnts p pt = 0 \<longleftrightarrow> window_cnt infos ovt n p = 0"
proof -
  let ?c = "window_cnt infos ovt n p" and ?s = "window_sum infos ovt n p"
  have c: "0 \<le> ?c" "?c \<le> 255" using window_cnt_bounds [of infos ovt n p] assms(2) by auto
  have "- (255 * 2 ^ 31) \<le> ?c * entry_lo infos p"
    using c by (simp add: entry_lo_def)
  moreover have "?c * entry_hi infos p \<le> 255 * 2 ^ 31"
    using c by (simp add: entry_hi_def)
  ultimately have s: "- (2 ^ 63) \<le> ?s" "?s < 2 ^ 63"
    using window_sum_range [of infos ovt n p] by auto
  have eqs: "get2 Sums p pt = word_of_int ?s" "get2 Cnts p pt = word_of_int ?c"
    using assms by (auto simp: window_inv_def)
  show "sint (get2 Sums p pt) = ?s" unfolding eqs(1) using s by (intro sint_word_of_int_eq) simp_all
  show u: "uint (get2 Cnts p pt) = ?c" unfolding eqs(2) using c by (intro uint_word_of_int_eq) simp_all
  show "get2 Cnts p pt = 0 \<longleftrightarrow> ?c = 0" using u by (metis uint_0_iff)
qed

text \<open>The value a segment holds for a parameter.\<close>

definition segment_value :: "param_info list \<Rightarrow> short list \<Rightarrow> nat \<Rightarrow> int" where
  "segment_value infos seg p =
     (if pi_combined (infos ! p) then sint (combine (seg ! p) (seg ! pi_other (infos ! p)))
      else sint (seg ! p))"

lemma averages_correct:
  fixes seg :: "short list"
  assumes "wf_infos VTlen infos" "window_inv infos VTlen n pt (Sums, Cnts, ovt)" "n \<le> 255"
    "length seg = VTlen" "p < VTlen" "carries infos p"
  defines "res \<equiv> calculate_averages infos VTlen Sums Cnts pt seg"
  shows "window_cnt infos ovt n p = 0 \<Longrightarrow> res ! p = SZARP_NO_DATA"
    and "window_cnt infos ovt n p > 0 \<Longrightarrow>
      segment_value infos res p = window_sum infos ovt n p sdiv window_cnt infos ovt n p \<and>
      res ! p \<noteq> SZARP_NO_DATA"
proof -
  let ?c = "window_cnt infos ovt n p" and ?s = "window_sum infos ovt n p"
  note rd = window_inv_read [OF assms(2,3,5,6)]
  have at: "res ! q = average_at infos Sums Cnts pt seg q" if "q < VTlen" for q
    unfolding res_def by (rule calculate_averages_nth(1) [OF assms(1,4) that])
  show "res ! p = SZARP_NO_DATA" if "?c = 0"
    using at [OF assms(5)] rd(3) that assms(6) by (simp add: average_at_def Let_def)
  assume c: "?c > 0"
  let ?a = "?s sdiv ?c"
  have b: "entry_lo infos p \<le> ?a" "?a \<le> entry_hi infos p"
    using sdiv_between [OF c window_sum_range] by auto
  show "segment_value infos res p = ?a \<and> res ! p \<noteq> SZARP_NO_DATA"
  proof (cases "pi_combined (infos ! p)")
    case True
    let ?q = "pi_other (infos ! p)" and ?v = "word_of_int ?a :: 32 word"
    note D = wf_infosD [OF assms(1,5) True]
    have m: "pi_msw (infos ! p)" using assms(6) True by (simp add: carries_def)
    have p: "res ! p = ucast (drop_bit 16 ?v)"
      using at [OF assms(5)] rd c True m assms(6) by (simp add: average_at_def Let_def)
    have "\<not> carries infos ?q" using D m by (simp add: carries_def)
    then have q: "res ! ?q = ucast (?v AND 0xFFFF)"
      using at [OF D(1)] rd c D m by (simp add: average_at_def Let_def)
    have v: "combine (res ! p) (res ! ?q) = ?v" unfolding p q by (rule combine_split)
    have sv: "sint ?v = ?a"
      using b True by (intro sint_word_of_int_eq) (simp_all add: entry_lo_def entry_hi_def)
    moreover have "res ! p \<noteq> SZARP_NO_DATA"
    proof
      assume "res ! p = SZARP_NO_DATA"
      then have "?a = - 32768 * 65536 + uint (res ! ?q)"
        using sint_combine [of "res ! p" "res ! ?q"] v sv by (simp add: sint_no_data)
      moreover have "uint (res ! ?q) < 65536" using uint_lt2p [of "res ! ?q"] by simp
      ultimately show False using b(1) True by (simp add: entry_lo_def)
    qed
    ultimately show ?thesis using True v by (simp add: segment_value_def)
  next
    case False
    have p: "res ! p = word_of_int ?a"
      using at [OF assms(5)] rd c False assms(6) by (simp add: average_at_def Let_def)
    have sv: "sint (res ! p) = ?a"
      unfolding p using b False
      by (intro sint_word_of_int_eq) (simp_all add: entry_lo_def entry_hi_def)
    moreover have "res ! p \<noteq> SZARP_NO_DATA"
      using sv b(1) False by (auto simp: entry_lo_def sint_no_data)
    ultimately show ?thesis using False by (simp add: segment_value_def)
  qed
qed

end
