(* ===== verification/Szb_Block.thy ===== *)
theory Szb_Block
  imports Szb_Search Parcook_Avg "HOL-Library.Monad_Syntax"
begin

text \<open>
  The blocks of data of the data base library, one per parameter and month: \<open>szbdatablock.cc\<close> (the
  base class), \<open>realdatablock.cc\<close> (a block read from the file of a parameter, and its refreshing when
  the file has grown) and \<open>combineddatablock.cc\<close> (a block of 32-bit values from the files of two
  parameters).

  The array of a block is a list of cells; a cell that was never written is \<open>None\<close>, an array that is
  not allocated is \<open>None\<close>. The contents of the file, the time of the last data of the base, \<open>pow\<close> and
  the outcomes of the system calls are arguments. A read may return less than asked for; it ends at
  a probe boundary. \<open>None\<close> as a result is a failed assertion, an access outside of an array or the
  use of memory that was not written.
\<close>

unbundle bit_operations_syntax

subsection \<open>The base class\<close>

record datablock =
  db_year :: int
  db_month :: int
  db_start :: time_t
  db_end :: time_t
  db_max :: int
  db_fixed :: int
  db_initialized :: bool
  db_data :: "fp option list option"
  db_first :: int
  db_last :: int
  db_updated :: time_t
  db_from_file :: int
  db_err :: int

definition SZBE_SYSERR :: int where "SZBE_SYSERR = - 1"
definition MAX_PROBES :: nat where "MAX_PROBES = 4500"

definition szb_datablock :: "int \<Rightarrow> int \<Rightarrow> datablock option" where
  "szb_datablock y m = do {
     n \<leftarrow> szb_probecnt y m;
     if m > 0 \<and> y > 0 \<and> n > 0
     then Some \<lparr>db_year = y, db_month = m, db_start = probe2time 0 y m, db_end = probe2time (n - 1) y m, db_max = n,
       db_fixed = 0, db_initialized = True, db_data = None, db_first = - 1, db_last = - 1, db_updated = - 1,
       db_from_file = 0, db_err = 0\<rparr>
     else None }"

definition AllocateDataMemory :: "datablock \<Rightarrow> datablock option" where
  "AllocateDataMemory b = (if db_data b = None then Some (b\<lparr>db_data := Some (replicate (nat (db_max b)) None)\<rparr>) else None)"

text \<open>The operator \<open>/\<close> of paths is an argument.\<close>

definition GetBlockRelativePath :: "(wstring \<Rightarrow> wstring \<Rightarrow> wstring) \<Rightarrow> wstring \<Rightarrow> int \<Rightarrow> int \<Rightarrow> wstring" where
  "GetBlockRelativePath join name year month =
     (if month < 1 \<or> month > 12 then []
      else if year < SZBASE_MIN_YEAR \<or> year > SZBASE_MAX_YEAR then []
      else join name (digits_of 4 year @ digits_of 2 month @ suffix_szb))"

definition GetBlockFullPath :: "(wstring \<Rightarrow> wstring \<Rightarrow> wstring) \<Rightarrow> wstring \<Rightarrow> wstring \<Rightarrow> int \<Rightarrow> int \<Rightarrow> wstring" where
  "GetBlockFullPath join rootdir name year month =
     (let rp = GetBlockRelativePath join name year month in if rp = [] then [] else join rootdir rp)"

subsection \<open>Cells\<close>

definition store_cell :: "int \<Rightarrow> fp \<Rightarrow> datablock \<Rightarrow> datablock option" where
  "store_cell i v b = (case db_data b of None \<Rightarrow> None
     | Some d \<Rightarrow> if 0 \<le> i \<and> i < int (length d) then Some (b\<lparr>db_data := Some (d[nat i := Some v])\<rparr>) else None)"

text \<open>The conversion loops: \<open>None\<close> is a probe without data. The flag says whether the loop keeps the
  index of the first data.\<close>

fun store_cells :: "bool \<Rightarrow> int \<Rightarrow> fp option list \<Rightarrow> datablock \<Rightarrow> datablock option" where
  "store_cells upd i [] b = Some b"
| "store_cells upd i (None # cs) b = do { b \<leftarrow> store_cell i FNaN b; store_cells upd (i + 1) cs b }"
| "store_cells upd i (Some v # cs) b = do {
     let b = (if upd \<and> db_first b < 0 then b\<lparr>db_first := i\<rparr> else b);
     b \<leftarrow> store_cell i v b;
     store_cells upd (i + 1) cs (b\<lparr>db_last := i\<rparr>) }"

function fill_nodata :: "int \<Rightarrow> datablock \<Rightarrow> datablock option" where
  "fill_nodata i b =
     (if i < db_max b then (case store_cell i FNaN b of None \<Rightarrow> None | Some b' \<Rightarrow> fill_nodata (i + 1) b') else Some b)"
  by auto
termination
  by (relation "measure (\<lambda>(i, b). nat (db_max b - i))") (auto simp: store_cell_def split: option.splits if_splits)

declare fill_nodata.simps [simp del]

subsection \<open>Reading files\<close>

datatype read_result = Rd_some nat | Rd_intr | Rd_err

text \<open>What a \<open>read\<close> of at most \<open>n\<close> probes at a position returns.\<close>

definition read_chunk :: "read_result list \<Rightarrow> nat \<Rightarrow> nat \<Rightarrow> short list \<Rightarrow> short list" where
  "read_chunk rs pos n f = take (case rs of Rd_some k # _ \<Rightarrow> min k n | _ \<Rightarrow> n) (drop pos f)"

text \<open>The loop of \<open>LoadFromFile\<close> and \<open>szb_load_data\<close>: after a read that returned less than asked for, the
  position is set to what this read returned.\<close>

function load_loop :: "short list \<Rightarrow> nat \<Rightarrow> nat \<Rightarrow> read_result list \<Rightarrow> short list \<Rightarrow> short list option" where
  "load_loop f pos to_read rs buf =
     (if to_read = 0 then Some buf
      else if rs \<noteq> [] \<and> hd rs = Rd_intr then load_loop f pos to_read (tl rs) buf
      else if rs \<noteq> [] \<and> hd rs = Rd_err then None
      else
        let got = read_chunk rs pos to_read f; i = length got in
        if i = 0 then Some buf
        else load_loop f (if i < to_read then i else pos + i) (to_read - i) (tl rs) (buf @ got))"
  by auto
termination
  by (relation "measure (\<lambda>(f, pos, to_read, rs, buf). to_read + length rs)") (auto simp: neq_Nil_conv)

text \<open>The loop of \<open>Refresh\<close>: what was read, and whether there was no error.\<close>

function read_loop :: "short list \<Rightarrow> nat \<Rightarrow> nat \<Rightarrow> read_result list \<Rightarrow> short list \<Rightarrow> bool \<times> short list" where
  "read_loop f pos r rs buf =
     (if r = 0 then (True, buf)
      else if rs \<noteq> [] \<and> hd rs = Rd_intr then read_loop f pos r (tl rs) buf
      else if rs \<noteq> [] \<and> hd rs = Rd_err then (False, buf)
      else
        let got = read_chunk rs pos r f; i = length got in
        if i = 0 then (True, buf)
        else read_loop f (pos + i) (r - i) (tl rs) (buf @ got))"
  by auto
termination
  by (relation "measure (\<lambda>(f, pos, r, rs, buf). r + length rs)") (auto simp: neq_Nil_conv)

declare load_loop.simps [simp del] read_loop.simps [simp del]

subsection \<open>Blocks of one file\<close>

record block_env =
  be_zone :: zone
  be_meaner :: time_t
  be_join :: "wstring \<Rightarrow> wstring \<Rightarrow> wstring"
  be_root :: wstring
  be_name :: wstring
  be_files :: files
  be_last :: time_t
  be_pw :: fp
  be_open :: bool
  be_reads :: "read_result list"

definition block_file :: "block_env \<Rightarrow> int \<Rightarrow> int \<Rightarrow> short list option" where
  "block_file env y m = be_files env (GetBlockFullPath (be_join env) (be_root env) (be_name env) y m)"

definition real_cell :: "fp \<Rightarrow> short \<Rightarrow> fp option" where
  "real_cell pw v = (if v = SZARP_NO_DATA then None else Some (fdiv float64 (of_int_fp float64 (sint v)) pw))"

definition LoadFromFile :: "block_env \<Rightarrow> short list \<Rightarrow> datablock \<Rightarrow> (bool \<times> datablock) option" where
  "LoadFromFile env f b =
     (if \<not> be_open env then Some (False, b\<lparr>db_err := SZBE_SYSERR\<rparr>)
      else case load_loop f 0 (nat (db_max b)) (be_reads env) [] of
        None \<Rightarrow> Some (False, b\<lparr>db_err := SZBE_SYSERR\<rparr>)
      | Some buf \<Rightarrow> do {
          let b = b\<lparr>db_from_file := int (length buf), db_fixed := int (length buf)\<rparr>;
          b \<leftarrow> AllocateDataMemory b;
          b \<leftarrow> store_cells True 0 (map (real_cell (be_pw env)) buf) b;
          b \<leftarrow> fill_nodata (int (length buf)) b;
          Some (True, b) })"

definition update_time :: "block_env \<Rightarrow> time_t" where
  "update_time env = szb_round_time (be_zone env) (be_meaner env) PT_MIN10 0"

definition RealDatablock :: "block_env \<Rightarrow> int \<Rightarrow> int \<Rightarrow> datablock option" where
  "RealDatablock env y m = do {
     b \<leftarrow> szb_datablock y m;
     let b = b\<lparr>db_updated := update_time env\<rparr>;
     case block_file env y m of
       Some f \<Rightarrow> do { (ok, b) \<leftarrow> LoadFromFile env f b; if ok then Some b else None }
     | None \<Rightarrow> (case time2my (be_last env) of Inl _ \<Rightarrow> None
         | Inr (ly, lm) \<Rightarrow> Some (if y < ly \<or> y = ly \<and> m < lm then b\<lparr>db_fixed := db_max b\<rparr> else b)) }"

text \<open>\<open>Refresh\<close> without the early returns: the new probes are read, converted and counted.\<close>

definition refresh_fixed :: "datablock \<Rightarrow> datablock option" where
  "refresh_fixed b =
     (if db_updated b > db_end b then Some (b\<lparr>db_fixed := db_max b\<rparr>)
      else if db_updated b < db_start b then Some (b\<lparr>db_fixed := db_from_file b\<rparr>)
      else do {
        i \<leftarrow> szb_probeind (db_updated b) 600;
        Some (b\<lparr>db_fixed := (if db_from_file b < i + 1 then db_from_file b else i + 1)\<rparr>) })"

definition refresh_load :: "block_env \<Rightarrow> short list \<Rightarrow> bool \<Rightarrow> datablock \<Rightarrow> datablock option" where
  "refresh_load env f memallocated b =
     (let prev = db_from_file b; n = length f - nat prev; (ok, buf) = read_loop f (nat prev) n (be_reads env) [];
          b = b\<lparr>db_from_file := prev + int (length buf)\<rparr> in
      if \<not> ok then Some (b\<lparr>db_err := SZBE_SYSERR\<rparr>)
      else if length buf < n then None
      else do {
        b \<leftarrow> store_cells False prev (map (real_cell (be_pw env)) buf) b;
        b \<leftarrow> refresh_fixed b;
        if memallocated then fill_nodata (db_fixed b) b else Some b })"

definition Refresh :: "block_env \<Rightarrow> datablock \<Rightarrow> datablock option" where
  "Refresh env b =
     (if db_fixed b = db_max b then Some b
      else if db_updated b = update_time env then Some b
      else
        let b = b\<lparr>db_updated := update_time env\<rparr> in
        case block_file env (db_year b) (db_month b) of
          None \<Rightarrow>
            if db_first b < 0 then
              if db_updated b > db_end b then Some (b\<lparr>db_fixed := db_max b\<rparr>)
              else if db_updated b \<ge> db_start b then map_option (\<lambda>i. b\<lparr>db_fixed := i\<rparr>) (szb_probeind (db_updated b) 600)
              else Some b
            else Some b
        | Some f \<Rightarrow> do {
            let memallocated = (db_data b = None);
            b \<leftarrow> (if memallocated then AllocateDataMemory b else Some b);
            if int (length f) < db_from_file b then None
            else if int (length f) \<le> db_from_file b then Some b
            else if \<not> be_open env then Some (b\<lparr>db_err := SZBE_SYSERR, db_initialized := False\<rparr>)
            else refresh_load env f memallocated b })"

text \<open>\<open>GetData\<close> without refreshing: the cells, or the shared field of empty cells.\<close>

definition GetData_cells :: "datablock \<Rightarrow> fp option list" where
  "GetData_cells b = (case db_data b of None \<Rightarrow> replicate MAX_PROBES (Some FNaN) | Some d \<Rightarrow> d)"

subsection \<open>Blocks of two files\<close>

record comb_env =
  ce_zone :: zone
  ce_meaner :: time_t
  ce_join :: "wstring \<Rightarrow> wstring \<Rightarrow> wstring"
  ce_root :: wstring
  ce_msw :: wstring
  ce_lsw :: wstring
  ce_files :: files
  ce_pw :: fp
  ce_msw_reads :: "read_result list"
  ce_lsw_reads :: "read_result list"

definition comb_path :: "comb_env \<Rightarrow> wstring \<Rightarrow> int \<Rightarrow> int \<Rightarrow> wstring" where
  "comb_path env name y m = GetBlockFullPath (ce_join env) (ce_root env) name y m"

text \<open>The result -1 is \<open>None\<close>; the file may not exist.\<close>

definition szb_load_data :: "short list option \<Rightarrow> nat \<Rightarrow> nat \<Rightarrow> read_result list \<Rightarrow> short list option" where
  "szb_load_data file start count rs = (case file of None \<Rightarrow> None | Some f \<Rightarrow> load_loop f start count rs [])"

definition combined_cell :: "fp \<Rightarrow> short \<times> short \<Rightarrow> fp option" where
  "combined_cell pw = (\<lambda>(msw, lsw).
     if msw = SZARP_NO_DATA then None
     else
       let v = fdiv float64 (of_int_fp float64 (sint (push_bit 16 (scast msw :: 32 word) OR ucast lsw))) pw in
       if v = FNaN then None else Some v)"

definition comb_update_time :: "comb_env \<Rightarrow> time_t" where
  "comb_update_time env = szb_round_time (ce_zone env) (ce_meaner env) PT_MIN10 0"

definition CombinedDatablock :: "comb_env \<Rightarrow> int \<Rightarrow> int \<Rightarrow> datablock option" where
  "CombinedDatablock env y m = do {
     b \<leftarrow> szb_datablock y m;
     let b = b\<lparr>db_updated := comb_update_time env\<rparr>;
     b \<leftarrow> AllocateDataMemory b;
     if comb_path env (ce_msw env) y m = [] then Some (b\<lparr>db_initialized := False\<rparr>)
     else case szb_load_data (ce_files env (comb_path env (ce_msw env) y m)) 0 (nat (db_max b)) (ce_msw_reads env) of
       None \<Rightarrow> Some (b\<lparr>db_initialized := False\<rparr>)
     | Some msw \<Rightarrow>
       if comb_path env (ce_lsw env) y m = [] then Some (b\<lparr>db_initialized := False\<rparr>)
       else (case szb_load_data (ce_files env (comb_path env (ce_lsw env) y m)) 0 (nat (db_max b)) (ce_lsw_reads env) of
          None \<Rightarrow> Some (b\<lparr>db_initialized := False\<rparr>)
        | Some lsw \<Rightarrow> do {
            let n = min (length msw) (length lsw);
            let b = b\<lparr>db_fixed := int n\<rparr>;
            b \<leftarrow> store_cells True 0 (map (combined_cell (ce_pw env)) (take n (zip msw lsw))) b;
            fill_nodata (int n) b }) }"

definition Combined_Refresh :: "comb_env \<Rightarrow> datablock \<Rightarrow> datablock option" where
  "Combined_Refresh env b =
     (if db_fixed b = db_max b then Some b
      else if db_updated b = comb_update_time env then Some b
      else
        let b = b\<lparr>db_updated := comb_update_time env\<rparr>; position = nat (db_fixed b);
          msw_file = ce_files env (comb_path env (ce_msw env) (db_year b) (db_month b));
          lsw_file = ce_files env (comb_path env (ce_lsw env) (db_year b) (db_month b)) in
        case msw_file of None \<Rightarrow> Some (b\<lparr>db_err := SZBE_SYSERR\<rparr>)
        | Some fm \<Rightarrow>
          if length fm \<le> position then Some b
          else (case lsw_file of None \<Rightarrow> Some (b\<lparr>db_err := SZBE_SYSERR\<rparr>)
            | Some fl \<Rightarrow>
              if length fl \<le> position then Some b
              else
                let nsize = min (length fm) (length fl) - position in
                (case szb_load_data lsw_file position nsize (ce_lsw_reads env) of None \<Rightarrow> Some b
                 | Some lsw \<Rightarrow>
                   (case szb_load_data msw_file position nsize (ce_msw_reads env) of None \<Rightarrow> Some b
                    | Some msw \<Rightarrow>
                      let n = min (length msw) (length lsw); old = db_fixed b in
                      store_cells True old (map (combined_cell (ce_pw env)) (take n (zip msw lsw)))
                        (b\<lparr>db_fixed := old + int n\<rparr>)))))"

subsection \<open>Reading a whole file\<close>

text \<open>Reads that are only interrupted.\<close>

definition plain :: "read_result list \<Rightarrow> bool" where
  "plain rs \<longleftrightarrow> list_all (\<lambda>r. r = Rd_intr) rs"

lemma plain_simps [simp]: "plain []" "plain (r # rs) \<longleftrightarrow> r = Rd_intr \<and> plain rs"
  by (simp_all add: plain_def)

lemma loop_0 [simp]: "load_loop f pos 0 rs buf = Some buf" "read_loop f pos 0 rs buf = (True, buf)"
  by (simp_all add: load_loop.simps [of f pos 0] read_loop.simps [of f pos 0])

lemma load_loop_full:
  assumes "plain rs" "pos + n \<le> length f \<or> pos = 0"
  shows "load_loop f pos n rs buf = Some (buf @ take n (drop pos f))"
  using assms
proof (induction rs arbitrary: buf)
  case Nil
  show ?case
  proof (cases "pos + n \<le> length f")
    case True
    then show ?thesis by (cases "n = 0") (auto simp: load_loop.simps [of f pos n] read_chunk_def Let_def)
  next
    case False
    then have "pos = 0" "length f < n" using Nil by auto
    then show ?thesis
      by (cases "f = []")
        (simp_all add: load_loop.simps [of f 0 n] load_loop.simps [of f "length f"] load_loop.simps [of "[]"] read_chunk_def Let_def)
  qed
next
  case (Cons r rs)
  then show ?case by (cases "n = 0") (simp_all add: load_loop.simps [of f pos n])
qed

text \<open>Reads without errors that return something.\<close>

fun fair_read :: "read_result \<Rightarrow> bool" where
  "fair_read (Rd_some k) \<longleftrightarrow> 0 < k"
| "fair_read Rd_intr \<longleftrightarrow> True"
| "fair_read Rd_err \<longleftrightarrow> False"

lemma read_chunk_fair:
  assumes "list_all fair_read rs" "pos < length f" "0 < n"
  shows "0 < length (read_chunk rs pos n f)"
  using assms by (cases rs; cases "hd rs") (auto simp: read_chunk_def min_def)

lemma read_chunk_take: "\<exists>k \<le> n. read_chunk rs pos n f = take k (drop pos f)"
  unfolding read_chunk_def
  by (intro exI [of _ "case rs of Rd_some k # _ \<Rightarrow> min k n | _ \<Rightarrow> n"] conjI refl) (simp split: list.splits read_result.splits)

lemma read_loop_fair:
  assumes "list_all fair_read rs" "pos + n \<le> length f"
  shows "read_loop f pos n rs buf = (True, buf @ take n (drop pos f))"
  using assms
proof (induction f pos n rs buf rule: read_loop.induct)
  case (1 f pos n rs buf)
  show ?case
  proof (cases "n = 0 \<or> rs \<noteq> [] \<and> \<not> (\<exists>k. hd rs = Rd_some k)")
    case True
    then show ?thesis
    proof (cases rs)
      case (Cons r rs')
      then show ?thesis using 1(1,3,4) True by (cases r; cases "n = 0") (simp_all add: read_loop.simps [of f pos n "Rd_intr # rs'"])
    qed (use True in simp)
  next
    case False
    let ?got = "read_chunk rs pos n f"
    obtain k where k: "k \<le> n" "?got = take k (drop pos f)" using read_chunk_take by blast
    have g: "0 < length ?got" "length ?got = k" using read_chunk_fair [OF 1(3), of pos f n] k 1(4) False by simp_all
    have hd: "\<not> (rs \<noteq> [] \<and> hd rs = Rd_intr)" "\<not> (rs \<noteq> [] \<and> hd rs = Rd_err)" "n \<noteq> 0" using False by auto
    have "list_all fair_read (tl rs)" "pos + k + (n - k) \<le> length f" using 1(3,4) k(1) by (cases rs; simp)+
    then have "read_loop f (pos + k) (n - k) (tl rs) (buf @ ?got) = (True, (buf @ ?got) @ take (n - k) (drop (pos + k) f))"
      using 1(2) [OF hd(3,1,2) refl refl] g by simp
    moreover have "?got @ take (n - k) (drop (pos + k) f) = take n (drop pos f)"
      using take_add [of k "n - k" "drop pos f"] k by (simp add: add.commute)
    ultimately show ?thesis using hd g by (auto simp: read_loop.simps [of f pos n rs] Let_def)
  qed
qed

lemma read_loop_full:
  assumes "plain rs" "pos + n \<le> length f"
  shows "read_loop f pos n rs buf = (True, buf @ take n (drop pos f))"
  using assms by (intro read_loop_fair) (auto simp: plain_def list_all_iff)

subsection \<open>The conversion loops\<close>

fun first_idx :: "int \<Rightarrow> fp option list \<Rightarrow> int \<Rightarrow> int" where
  "first_idx i [] f = f"
| "first_idx i (None # cs) f = first_idx (i + 1) cs f"
| "first_idx i (Some _ # cs) f = first_idx (i + 1) cs (if f < 0 then i else f)"

fun last_idx :: "int \<Rightarrow> fp option list \<Rightarrow> int \<Rightarrow> int" where
  "last_idx i [] l = l"
| "last_idx i (None # cs) l = last_idx (i + 1) cs l"
| "last_idx i (Some _ # cs) l = last_idx (i + 1) cs i"

definition cell_value :: "fp option \<Rightarrow> fp" where
  "cell_value c = (case c of None \<Rightarrow> FNaN | Some v \<Rightarrow> v)"

lemma cell_value_simps [simp]: "cell_value None = FNaN" "cell_value (Some v) = v"
  by (simp_all add: cell_value_def)

lemma store_cell_Some:
  "db_data b = Some d \<Longrightarrow> 0 \<le> i \<Longrightarrow> i < int (length d) \<Longrightarrow> store_cell i v b = Some (b\<lparr>db_data := Some (d[nat i := Some v])\<rparr>)"
  by (simp add: store_cell_def)

lemma take_update_drop:
  "i < length d \<Longrightarrow> take (Suc i) (d[i := x]) @ ys = take i d @ x # ys"
  by (simp add: take_Suc_conv_app_nth)

lemma store_cells_result:
  assumes "db_data b = Some d" "0 \<le> i" "i + int (length cs) \<le> int (length d)"
  shows "store_cells upd i cs b = Some (b\<lparr>
    db_data := Some (take (nat i) d @ map (Some \<circ> cell_value) cs @ drop (nat i + length cs) d),
    db_first := (if upd then first_idx i cs (db_first b) else db_first b), db_last := last_idx i cs (db_last b)\<rparr>)"
  using assms
proof (induction upd i cs b arbitrary: d rule: store_cells.induct)
  case (2 upd i cs b)
  let ?d = "d[nat i := Some FNaN]"
  have st: "store_cell i FNaN b = Some (b\<lparr>db_data := Some ?d\<rparr>)" using 2(2-4) by (intro store_cell_Some) auto
  have n: "nat (i + 1) = Suc (nat i)" "nat i < length d" using 2(3,4) by auto
  show ?case using 2(1) [of "b\<lparr>db_data := Some ?d\<rparr>" ?d] st 2(3,4) n by (simp add: take_update_drop)
next
  case (3 upd i v cs b)
  let ?d = "d[nat i := Some v]" and ?b = "if upd \<and> db_first b < 0 then b\<lparr>db_first := i\<rparr> else b"
  have st: "store_cell i v ?b = Some (?b\<lparr>db_data := Some ?d\<rparr>)" using 3(2-4) by (intro store_cell_Some) auto
  have n: "nat (i + 1) = Suc (nat i)" "nat i < length d" using 3(3,4) by auto
  show ?case using 3(1) [OF refl, of "?b\<lparr>db_data := Some ?d\<rparr>" ?d] st 3(3,4) n
    by (simp add: take_update_drop)
qed simp

lemma fill_nodata_result:
  assumes "db_data b = Some d" "0 \<le> i" "int (length d) = db_max b" "i \<le> db_max b"
  shows "fill_nodata i b = Some (b\<lparr>db_data := Some (take (nat i) d @ replicate (nat (db_max b - i)) (Some FNaN))\<rparr>)"
  using assms
proof (induction i b arbitrary: d rule: fill_nodata.induct)
  case (1 i b)
  show ?case
  proof (cases "i < db_max b")
    case True
    let ?d = "d[nat i := Some FNaN]"
    have st: "store_cell i FNaN b = Some (b\<lparr>db_data := Some ?d\<rparr>)" using 1(2-4) True by (intro store_cell_Some) auto
    have n: "nat (i + 1) = Suc (nat i)" "nat i < length d" "nat (db_max b - i) = Suc (nat (db_max b - (i + 1)))"
      using 1(3,4) True by auto
    show ?thesis
      using 1(1) [OF True st, of ?d] 1(3,4) True n by (simp add: fill_nodata.simps [of i b] st take_update_drop)
  next
    case False
    then show ?thesis using 1(2,4,5) by (cases b) (simp add: fill_nodata.simps)
  qed
qed

lemma first_idx_append: "first_idx i (as @ bs) f = first_idx (i + int (length as)) bs (first_idx i as f)"
  by (induction i as f rule: first_idx.induct) (simp_all add: add.assoc)

lemma last_idx_append: "last_idx i (as @ bs) l = last_idx (i + int (length as)) bs (last_idx i as l)"
  by (induction i as l rule: last_idx.induct) (simp_all add: add.assoc)

lemma first_idx_known: "0 \<le> f \<Longrightarrow> 0 \<le> i \<Longrightarrow> first_idx i cs f = f"
  by (induction i cs f rule: first_idx.induct) auto

subsection \<open>Loaded blocks\<close>

text \<open>What a block holds: the cells \<open>cs\<close>, then no data.\<close>

definition block_holds :: "fp option list \<Rightarrow> datablock \<Rightarrow> bool" where
  "block_holds cs b \<longleftrightarrow> int (length cs) \<le> db_max b \<and>
     db_data b = Some (map (Some \<circ> cell_value) cs @ replicate (nat (db_max b) - length cs) (Some FNaN)) \<and>
     db_first b = first_idx 0 cs (- 1) \<and> db_last b = last_idx 0 cs (- 1)"

lemma store_all:
  assumes "AllocateDataMemory b = Some b'" "int (length cs) \<le> db_max b" "db_first b = - 1" "db_last b = - 1" "0 \<le> db_max b"
  shows "(store_cells True 0 cs b' \<bind> fill_nodata (int (length cs))) = Some (b\<lparr>
    db_data := Some (map (Some \<circ> cell_value) cs @ replicate (nat (db_max b) - length cs) (Some FNaN)),
    db_first := first_idx 0 cs (- 1), db_last := last_idx 0 cs (- 1)\<rparr>)"
proof -
  let ?d = "replicate (nat (db_max b)) None"
  have b': "b' = b\<lparr>db_data := Some ?d\<rparr>" using assms(1) by (auto simp: AllocateDataMemory_def split: if_splits)
  let ?b = "b\<lparr>db_data := Some (map (Some \<circ> cell_value) cs @ drop (length cs) ?d), db_first := first_idx 0 cs (- 1), db_last := last_idx 0 cs (- 1)\<rparr>"
  have "store_cells True 0 cs b' = Some ?b"
    using store_cells_result [of b' ?d 0 cs True] assms(2-5) by (simp add: b')
  moreover have "fill_nodata (int (length cs)) ?b = Some (?b\<lparr>db_data := Some (take (length cs) (map (Some \<circ> cell_value) cs @ drop (length cs) ?d) @
    replicate (nat (db_max b - int (length cs))) (Some FNaN))\<rparr>)"
    using fill_nodata_result [of ?b "map (Some \<circ> cell_value) cs @ drop (length cs) ?d" "int (length cs)"] assms(2,5) by simp
  moreover have "nat (db_max b - int (length cs)) = nat (db_max b) - length cs" using assms(2) by linarith
  ultimately show ?thesis by simp
qed

lemma szb_datablock_Some:
  assumes "month_ok y m" "0 < y"
  obtains n where "szb_probecnt y m = Some n" "0 < n" "n \<le> 4464"
    "szb_datablock y m = Some \<lparr>db_year = y, db_month = m, db_start = probe2time 0 y m, db_end = probe2time (n - 1) y m, db_max = n,
       db_fixed = 0, db_initialized = True, db_data = None, db_first = - 1, db_last = - 1, db_updated = - 1,
       db_from_file = 0, db_err = 0\<rparr>"
proof -
  obtain n where "szb_probecnt y m = Some n" "0 < n" "n \<le> 4464" using szb_probecnt_bounds [OF assms(1)] by auto
  then show thesis using that [of n] assms by (simp add: szb_datablock_def month_ok_def)
qed

lemma RealDatablock_take:
  assumes ok: "month_ok y m" "0 < y" and f: "block_file env y m = Some f" and n: "szb_probecnt y m = Some n"
    and r: "be_open env" "plain (be_reads env)"
  shows "\<exists>b. RealDatablock env y m = Some b \<and> block_holds (map (real_cell (be_pw env)) (take (nat n) f)) b \<and> db_max b = n \<and> db_year b = y \<and>
    db_month b = m \<and> db_start b = probe2time 0 y m \<and> db_end b = probe2time (n - 1) y m \<and> db_initialized b \<and>
    db_fixed b = int (length (take (nat n) f)) \<and> db_from_file b = int (length (take (nat n) f)) \<and> db_updated b = update_time env"
proof -
  define g where "g = take (nat n) f"
  let ?b = "\<lparr>db_year = y, db_month = m, db_start = probe2time 0 y m, db_end = probe2time (n - 1) y m, db_max = n,
    db_fixed = int (length g), db_initialized = True, db_data = None, db_first = - 1, db_last = - 1, db_updated = update_time env,
    db_from_file = int (length g), db_err = 0\<rparr>"
  have b0: "0 < n" "szb_datablock y m = Some \<lparr>db_year = y, db_month = m, db_start = probe2time 0 y m, db_end = probe2time (n - 1) y m, db_max = n,
       db_fixed = 0, db_initialized = True, db_data = None, db_first = - 1, db_last = - 1, db_updated = - 1,
       db_from_file = 0, db_err = 0\<rparr>"
    using szb_datablock_Some [OF ok] n by (metis option.inject)+
  have l: "load_loop f 0 (nat n) (be_reads env) [] = Some g" using load_loop_full [OF r(2), of 0 "nat n" f "[]"] by (simp add: g_def)
  have gn: "int (length g) \<le> n" using b0(1) by (auto simp: g_def)
  have a: "AllocateDataMemory ?b = Some (?b\<lparr>db_data := Some (replicate (nat n) None)\<rparr>)" by (simp add: AllocateDataMemory_def)
  have "RealDatablock env y m = (store_cells True 0 (map (real_cell (be_pw env)) g) (?b\<lparr>db_data := Some (replicate (nat n) None)\<rparr>) \<bind>
    fill_nodata (int (length g)))"
    using b0 f r(1) l by (simp add: RealDatablock_def LoadFromFile_def AllocateDataMemory_def Option.bind_assoc)
  then show ?thesis
    using store_all [OF a, of "map (real_cell (be_pw env)) g"] gn b0(1) unfolding g_def [symmetric] by (simp add: block_holds_def)
qed

lemma RealDatablock_loads:
  assumes "month_ok y m" "0 < y" "block_file env y m = Some f" "szb_probecnt y m = Some n" "int (length f) \<le> n" "be_open env" "plain (be_reads env)"
  shows "\<exists>b. RealDatablock env y m = Some b \<and> block_holds (map (real_cell (be_pw env)) f) b \<and> db_max b = n \<and> db_year b = y \<and>
    db_month b = m \<and> db_start b = probe2time 0 y m \<and> db_end b = probe2time (n - 1) y m \<and> db_initialized b \<and>
    db_fixed b = int (length f) \<and> db_from_file b = int (length f) \<and> db_updated b = update_time env"
proof -
  have "take (nat n) f = f" using assms(5) by simp
  then show ?thesis using RealDatablock_take [OF assms(1-4,6,7)] by simp
qed

subsection \<open>Refreshed blocks\<close>

lemma refresh_fixed_frame:
  assumes "ok_time (db_updated b)"
  obtains k where "refresh_fixed b = Some (b\<lparr>db_fixed := k\<rparr>)"
proof -
  obtain i where "szb_probeind (db_updated b) 600 = Some i" using ok_timeE [OF assms] by metis
  then have "refresh_fixed b = Some (b\<lparr>db_fixed := (if db_updated b > db_end b then db_max b
    else if db_updated b < db_start b then db_from_file b else if db_from_file b < i + 1 then db_from_file b else i + 1)\<rparr>)"
    by (simp add: refresh_fixed_def)
  then show thesis by (rule that)
qed

lemma Refresh_result:
  assumes h: "block_holds cs b" "cs = map (real_cell (be_pw env)) f" "db_from_file b = int (length f)"
    and n: "int (length (f @ g)) \<le> db_max b" and fx: "db_fixed b \<noteq> db_max b \<or> g = []"
    and e: "block_file env (db_year b) (db_month b) = Some (f @ g)" "be_open env" "plain (be_reads env)" "update_time env \<noteq> db_updated b" "ok_time (update_time env)"
  shows "\<exists>b'. Refresh env b = Some b' \<and> db_from_file b' = int (length (f @ g)) \<and> db_first b' = db_first b \<and> db_max b' = db_max b \<and>
    db_data b' = Some (map (Some \<circ> cell_value) (map (real_cell (be_pw env)) (f @ g)) @ replicate (nat (db_max b) - length (f @ g)) (Some FNaN)) \<and>
    db_last b' = last_idx 0 (map (real_cell (be_pw env)) (f @ g)) (- 1)"
proof -
  let ?c = "real_cell (be_pw env)"
  define d where "d = map (Some \<circ> cell_value) cs @ replicate (nat (db_max b) - length cs) (Some FNaN)"
  have d: "db_data b = Some d" "db_last b = last_idx 0 cs (- 1)" using h(1) by (simp_all add: block_holds_def d_def)
  let ?b = "b\<lparr>db_updated := update_time env\<rparr>"
  show ?thesis
  proof (cases "g = []")
    case True
    then have "Refresh env b = Some (if db_fixed b = db_max b then b else ?b)"
      using e(1,4) h(3) d(1) by (simp add: Refresh_def Let_def)
    then show ?thesis using True h(2,3) d by (simp add: d_def del: map_map)
  next
    case False
    then have fx': "db_fixed b \<noteq> db_max b" using fx by simp
    have rl: "read_loop (f @ g) (length f) (length g) (be_reads env) [] = (True, g)"
      using read_loop_full [OF e(3), of "length f" "length g" "f @ g"] by simp
    let ?b1 = "?b\<lparr>db_from_file := int (length (f @ g))\<rparr>"
    let ?b2 = "?b1\<lparr>db_data := Some (take (length f) d @ map (Some \<circ> cell_value) (map ?c g) @ drop (length f + length g) d),
      db_last := last_idx (int (length f)) (map ?c g) (db_last b)\<rparr>"
    have "store_cells False (int (length f)) (map ?c g) ?b1 = Some ?b2"
      using store_cells_result [of ?b1 d "int (length f)" "map ?c g" False] d(1) n h(2) by (simp add: d_def)
    moreover obtain k where "refresh_fixed ?b2 = Some (?b2\<lparr>db_fixed := k\<rparr>)" using refresh_fixed_frame [of ?b2] e(5) by auto
    ultimately have "Refresh env b = Some (?b2\<lparr>db_fixed := k\<rparr>)"
      using fx' e(1,2,4) h(3) d(1) False rl by (simp add: Refresh_def refresh_load_def Let_def)
    moreover have "take (length f) d @ map (Some \<circ> cell_value) (map ?c g) @ drop (length f + length g) d =
      map (Some \<circ> cell_value) (map ?c (f @ g)) @ replicate (nat (db_max b) - length (f @ g)) (Some FNaN)"
      using h(2) n by (simp add: d_def)
    moreover have "last_idx (int (length f)) (map ?c g) (db_last b) = last_idx 0 (map ?c (f @ g)) (- 1)"
      using d(2) h(2) by (simp add: last_idx_append)
    ultimately show ?thesis by (simp del: map_map map_append)
  qed
qed

subsection \<open>Blocks as the searches see them\<close>

text \<open>The cells of the array of a block, as \<open>GetData\<close> returns it.\<close>

definition as_dblock :: "datablock \<Rightarrow> dblock" where
  "as_dblock b = \<lparr>bl_data = map the (take (nat (db_max b)) (GetData_cells b)), first_data_probe_index = db_first b,
     last_data_probe_index = db_last b, max_probes = db_max b\<rparr>"

lemma first_idx_bounds:
  "f < 0 \<Longrightarrow> 0 \<le> i \<Longrightarrow> (list_all (\<lambda>c. c = None) cs \<and> first_idx i cs f = f) \<or>
    (\<exists>k < length cs. first_idx i cs f = i + int k \<and> cs ! k \<noteq> None \<and> (\<forall>j < k. cs ! j = None))"
proof (induction i cs f rule: first_idx.induct)
  case (2 i cs f)
  have "0 \<le> i + 1" using 2(3) by simp
  from 2(1) [OF 2(2) this] show ?case
  proof (elim disjE exE conjE)
    fix k assume k: "k < length cs" "first_idx (i + 1) cs f = i + 1 + int k" "cs ! k \<noteq> None" "\<forall>j<k. cs ! j = None"
    then have "\<exists>k < length (None # cs). first_idx i (None # cs) f = i + int k \<and> (None # cs) ! k \<noteq> None \<and> (\<forall>j < k. (None # cs) ! j = None)"
      by (intro exI [of _ "Suc k"]) (auto simp: nth_Cons')
    then show ?thesis by blast
  qed auto
next
  case (3 i v cs f)
  then have "first_idx i (Some v # cs) f = i" using first_idx_known [of i "i + 1" cs] by simp
  then show ?case by (intro disjI2 exI [of _ 0]) simp
qed auto

lemma last_idx_bounds:
  "(list_all (\<lambda>c. c = None) cs \<and> last_idx i cs l = l) \<or>
    (\<exists>k < length cs. last_idx i cs l = i + int k \<and> cs ! k \<noteq> None \<and> (\<forall>j. k < j \<and> j < length cs \<longrightarrow> cs ! j = None))"
proof (induction cs rule: rev_induct)
  case (snoc c cs)
  show ?case
  proof (cases c)
    case (Some v)
    then show ?thesis by (intro disjI2 exI [of _ "length cs"]) (auto simp: last_idx_append)
  next
    case None
    from snoc show ?thesis
    proof (elim disjE exE conjE)
      fix k assume k: "k < length cs" "last_idx i cs l = i + int k" "cs ! k \<noteq> None" "\<forall>j. k < j \<and> j < length cs \<longrightarrow> cs ! j = None"
      then have "k < length (cs @ [c]) \<and> last_idx i (cs @ [c]) l = i + int k \<and> (cs @ [c]) ! k \<noteq> None \<and>
        (\<forall>j. k < j \<and> j < length (cs @ [c]) \<longrightarrow> (cs @ [c]) ! j = None)"
        using None by (auto simp: last_idx_append nth_append less_Suc_eq)
      then show ?thesis by blast
    qed (use None in \<open>simp add: last_idx_append\<close>)
  qed
qed simp

lemma block_holds_ok:
  assumes h: "block_holds cs b" and n: "szb_probecnt y m = Some (db_max b)" and v: "\<forall>c \<in> set cs. c \<noteq> Some FNaN" and p: "0 < db_max b"
  shows "block_ok y m (as_dblock b)"
    "\<And>i. i < nat (db_max b) \<Longrightarrow> bl_data (as_dblock b) ! i = (if i < length cs then cell_value (cs ! i) else FNaN)"
proof -
  let ?d = "map cell_value cs @ replicate (nat (db_max b) - length cs) FNaN"
  have l: "length cs \<le> nat (db_max b)" using h by (auto simp: block_holds_def)
  have e: "as_dblock b = \<lparr>bl_data = ?d, first_data_probe_index = first_idx 0 cs (- 1), last_data_probe_index = last_idx 0 cs (- 1),
    max_probes = db_max b\<rparr>"
    using h l by (simp add: as_dblock_def GetData_cells_def block_holds_def comp_def)
  show nth: "bl_data (as_dblock b) ! i = (if i < length cs then cell_value (cs ! i) else FNaN)" if "i < nat (db_max b)" for i
    using that unfolding e by (simp add: nth_append)
  have nn: "cell_value (cs ! k) \<noteq> FNaN" if "k < length cs" "cs ! k \<noteq> None" for k
    using that v nth_mem [OF that(1)] by (auto simp: cell_value_def split: option.splits)
  show "block_ok y m (as_dblock b)"
  proof (cases "list_all (\<lambda>c. c = None) cs")
    case True
    then have "first_idx 0 cs (- 1) < 0" using first_idx_bounds [of "- 1" 0 cs] by (auto simp: list_all_length)
    moreover have "\<forall>x \<in> set ?d. x = FNaN" using True by (auto simp: list_all_iff)
    ultimately show ?thesis using n l p unfolding e block_ok_def by (simp add: of_nat_diff)
  next
    case False
    from first_idx_bounds [of "- 1" 0 cs] False obtain f where f: "f < length cs" "first_idx 0 cs (- 1) = int f" "cs ! f \<noteq> None"
      "\<forall>j < f. cs ! j = None" by auto
    from last_idx_bounds [of cs 0 "- 1"] False obtain k where k: "k < length cs" "last_idx 0 cs (- 1) = int k" "cs ! k \<noteq> None"
      "\<forall>j. k < j \<and> j < length cs \<longrightarrow> cs ! j = None" by auto
    have "f \<le> k" using f(3,4) k(1,3) by (metis linorder_not_le)
    moreover have "?d ! f \<noteq> FNaN" "?d ! k \<noteq> FNaN" using nn f k by (simp_all add: nth_append)
    moreover have "?d ! i = FNaN" if "i < length ?d" "i < f \<or> k < i" for i
      using that f(1,4) k(1,4) by (auto simp: nth_append)
    ultimately show ?thesis using n l p f(1,2) k(1,2) unfolding e block_ok_def by (simp add: of_nat_diff)
  qed
qed

lemma real_cell_not_NaN:
  assumes "pw = Fin r" "r \<noteq> 0"
  shows "real_cell pw v \<noteq> Some FNaN"
proof -
  have "round_to f x \<noteq> FNaN" for f x by (simp add: round_to_def Let_def)
  then have "fdiv float64 (of_int_fp float64 k) pw \<noteq> FNaN" for k
    using assms by (cases "of_int_fp float64 k") (simp_all add: of_int_fp_def)
  then show ?thesis by (simp add: real_cell_def)
qed

subsection \<open>Combined values\<close>

lemma joined_words: "push_bit 16 (scast m :: 32 word) OR ucast l = combine m l"
proof -
  have "push_bit 16 (scast m :: 32 word) = push_bit 16 (ucast m)"
    by (rule bit_word_eqI) (auto simp: bit_simps dest: bit_imp_le_length)
  then show ?thesis by (simp add: combine_def)
qed

lemma combined_cell_value:
  "combined_cell pw (m, l) = (if m = SZARP_NO_DATA then None
     else let v = fdiv float64 (of_int_fp float64 (sint m * 65536 + uint l)) pw in if v = FNaN then None else Some v)"
  by (simp add: combined_cell_def joined_words sint_combine)

lemma combined_cell_not_NaN: "combined_cell pw c \<noteq> Some FNaN"
  by (cases c) (auto simp: combined_cell_def Let_def)

lemma zip_shorter: "zip (take (min (length xs) (length ys)) xs) (take (min (length xs) (length ys)) ys) = zip xs ys"
  by (simp flip: take_zip)

lemma CombinedDatablock_loads:
  assumes ok: "month_ok y m" "0 < y" and f: "ce_files env (comb_path env (ce_msw env) y m) = Some fm" "ce_files env (comb_path env (ce_lsw env) y m) = Some fl"
      "comb_path env (ce_msw env) y m \<noteq> []" "comb_path env (ce_lsw env) y m \<noteq> []"
    and n: "szb_probecnt y m = Some n" "int (length fm) \<le> n" "int (length fl) \<le> n"
    and r: "plain (ce_msw_reads env)" "plain (ce_lsw_reads env)"
  shows "\<exists>b. CombinedDatablock env y m = Some b \<and> block_holds (map (combined_cell (ce_pw env)) (zip fm fl)) b \<and> db_max b = n \<and>
    db_initialized b \<and> db_fixed b = int (length (zip fm fl)) \<and> db_updated b = comb_update_time env \<and> db_year b = y \<and> db_month b = m"
proof -
  let ?k = "min (length fm) (length fl)" and ?cs = "map (combined_cell (ce_pw env)) (zip fm fl)"
  let ?b = "\<lparr>db_year = y, db_month = m, db_start = probe2time 0 y m, db_end = probe2time (n - 1) y m, db_max = n,
    db_fixed = int ?k, db_initialized = True, db_data = None, db_first = - 1, db_last = - 1, db_updated = comb_update_time env,
    db_from_file = 0, db_err = 0\<rparr>"
  have b0: "0 < n" "szb_datablock y m = Some \<lparr>db_year = y, db_month = m, db_start = probe2time 0 y m, db_end = probe2time (n - 1) y m, db_max = n,
       db_fixed = 0, db_initialized = True, db_data = None, db_first = - 1, db_last = - 1, db_updated = - 1,
       db_from_file = 0, db_err = 0\<rparr>"
    using szb_datablock_Some [OF ok] n(1) by (metis option.inject)+
  have l: "szb_load_data (ce_files env (comb_path env (ce_msw env) y m)) 0 (nat n) (ce_msw_reads env) = Some fm" "szb_load_data (ce_files env (comb_path env (ce_lsw env) y m)) 0 (nat n) (ce_lsw_reads env) = Some fl"
    using load_loop_full [OF r(1), of 0 "nat n" fm "[]"] load_loop_full [OF r(2), of 0 "nat n" fl "[]"] n(2,3) f
    by (simp_all add: szb_load_data_def)
  have a: "AllocateDataMemory ?b = Some (?b\<lparr>db_data := Some (replicate (nat n) None)\<rparr>)" by (simp add: AllocateDataMemory_def)
  have "CombinedDatablock env y m = (store_cells True 0 ?cs (?b\<lparr>db_data := Some (replicate (nat n) None)\<rparr>) \<bind> fill_nodata (int (length ?cs)))"
    using b0 l f(3,4) by (simp add: CombinedDatablock_def AllocateDataMemory_def Let_def)
  then show ?thesis using store_all [OF a, of ?cs] n(2,3) b0(1) by (simp add: block_holds_def)
qed

lemma Combined_Refresh_result:
  assumes h: "block_holds (map (combined_cell (ce_pw env)) (zip fm fl)) b" "db_fixed b = int (length (zip fm fl))"
    and g: "ce_files env (comb_path env (ce_msw env) (db_year b) (db_month b)) = Some (fm @ gm)"
      "ce_files env (comb_path env (ce_lsw env) (db_year b) (db_month b)) = Some (fl @ gl)" "length fm = length fl"
    and n: "int (min (length (fm @ gm)) (length (fl @ gl))) \<le> db_max b"
    and r: "plain (ce_msw_reads env)" "plain (ce_lsw_reads env)" "comb_update_time env \<noteq> db_updated b"
  shows "\<exists>b'. Combined_Refresh env b = Some b' \<and> block_holds (map (combined_cell (ce_pw env)) (zip (fm @ gm) (fl @ gl))) b' \<and>
    db_fixed b' = int (length (zip (fm @ gm) (fl @ gl))) \<and> db_max b' = db_max b"
proof -
  let ?c = "combined_cell (ce_pw env)" and ?k = "min (length gm) (length gl)"
  let ?b = "b\<lparr>db_updated := comb_update_time env\<rparr>"
  have fx: "db_fixed b = int (length fm)" "length fm = length fl" using h(2) g(3) by simp_all
  show ?thesis
  proof (cases "db_fixed b = db_max b \<or> gm = [] \<or> gl = []")
    case True
    then have z: "zip (fm @ gm) (fl @ gl) = zip fm fl" using fx n by (auto simp: min_def split: if_splits)
    have "Combined_Refresh env b = Some (if db_fixed b = db_max b then b else ?b)"
      using True fx g r(3) by (auto simp: Combined_Refresh_def Let_def)
    then show ?thesis using h z by (simp add: block_holds_def)
  next
    case False
    define d where "d = map (Some \<circ> cell_value) (map ?c (zip fm fl)) @ replicate (nat (db_max b) - length fm) (Some FNaN)"
    have d: "db_data b = Some d" "db_first b = first_idx 0 (map ?c (zip fm fl)) (- 1)" "db_last b = last_idx 0 (map ?c (zip fm fl)) (- 1)"
      using h(1) fx by (simp_all add: block_holds_def d_def)
    have ns: "min (length (fm @ gm)) (length (fl @ gl)) - length fm = ?k" using fx by (simp add: min_def)
    have l: "szb_load_data (Some (fl @ gl)) (length fm) ?k (ce_lsw_reads env) = Some (take ?k gl)"
      "szb_load_data (Some (fm @ gm)) (length fm) ?k (ce_msw_reads env) = Some (take ?k gm)"
      using load_loop_full [OF r(2), of "length fm" ?k "fl @ gl" "[]"] load_loop_full [OF r(1), of "length fm" ?k "fm @ gm" "[]"] g fx
      by (simp_all add: szb_load_data_def)
    let ?cs = "map ?c (zip gm gl)"
    have z: "take ?k (zip (take ?k gm) (take ?k gl)) = zip gm gl"
      by (simp add: take_zip zip_shorter)
    let ?b1 = "?b\<lparr>db_fixed := int (length fm) + int ?k\<rparr>"
    have "store_cells True (int (length fm)) ?cs ?b1 = Some (?b1\<lparr>
      db_data := Some (take (length fm) d @ map (Some \<circ> cell_value) ?cs @ drop (length fm + ?k) d),
      db_first := first_idx (int (length fm)) ?cs (db_first b), db_last := last_idx (int (length fm)) ?cs (db_last b)\<rparr>)"
      using store_cells_result [of ?b1 d "int (length fm)" ?cs True] d(1) n fx by (simp add: d_def min_def split: if_splits)
    moreover have "Combined_Refresh env b = store_cells True (int (length fm)) ?cs ?b1"
      using False fx g r(3) l ns z by (simp add: Combined_Refresh_def Let_def)
    moreover have "take (length fm) d @ map (Some \<circ> cell_value) ?cs @ drop (length fm + ?k) d =
      map (Some \<circ> cell_value) (map ?c (zip (fm @ gm) (fl @ gl))) @ replicate (nat (db_max b) - length (zip (fm @ gm) (fl @ gl))) (Some FNaN)"
      using fx by (simp add: d_def min_def)
    moreover have "first_idx (int (length fm)) ?cs (db_first b) = first_idx 0 (map ?c (zip (fm @ gm) (fl @ gl))) (- 1)"
      "last_idx (int (length fm)) ?cs (db_last b) = last_idx 0 (map ?c (zip (fm @ gm) (fl @ gl))) (- 1)"
      using d(2,3) fx by (simp_all add: first_idx_append last_idx_append)
    ultimately show ?thesis using n fx by (simp add: block_holds_def min_def split: if_splits)
  qed
qed

subsection \<open>What the searches read\<close>

text \<open>Blocks of files for the searches.\<close>

definition file_fetch :: "block_env \<Rightarrow> fetch" where
  "file_fetch env y m = map_option as_dblock (RealDatablock env y m)"

definition dated :: "time_t \<Rightarrow> bool" where
  "dated t \<longleftrightarrow> (case time2my t of Inl _ \<Rightarrow> False | Inr (y, m) \<Rightarrow> 0 < y \<and> y \<le> 9999)"

lemma dated_ok: "dated t \<Longrightarrow> ok_time t"
  by (auto simp: dated_def ok_time_def split: sum.splits)

lemma linear_right_cong: "(\<And>t. start \<le> t \<Longrightarrow> t \<le> fin \<Longrightarrow> P t = Q t) \<Longrightarrow> linear_right P fin start = linear_right Q fin start"
proof (induction P fin start rule: linear_right.induct)
  case (1 P fin t)
  then show ?case by (simp add: linear_right.simps [of P fin t] linear_right.simps [of Q fin t])
qed

lemma linear_left_cong: "(\<And>t. fin \<le> t \<Longrightarrow> t \<le> start \<Longrightarrow> P t = Q t) \<Longrightarrow> linear_left P fin start = linear_left Q fin start"
proof (induction P fin start rule: linear_left.induct)
  case (1 P fin t)
  then show ?case by (simp add: linear_left.simps [of P fin t] linear_left.simps [of Q fin t])
qed

text \<open>The environment of sound reads of the files of a parameter.\<close>

definition reads_well :: "block_env \<Rightarrow> bool" where
  "reads_well env \<longleftrightarrow> be_open env \<and> plain (be_reads env) \<and> (\<exists>r. be_pw env = Fin r \<and> r \<noteq> 0) \<and> (\<exists>d. time2my (be_last env) = Inr d)"

lemma empty_block_ok:
  assumes "month_ok y m" "szb_probecnt y m = Some (db_max b)" "db_data b = None" "db_first b < 0"
  shows "block_ok y m (as_dblock b)" "i < nat (db_max b) \<Longrightarrow> bl_data (as_dblock b) ! i = FNaN"
proof -
  have n: "0 < db_max b" "nat (db_max b) \<le> 4500" using szb_probecnt_bounds [OF assms(1)] assms(2) by auto
  then have e: "bl_data (as_dblock b) = replicate (nat (db_max b)) FNaN"
    using assms(3) by (simp add: as_dblock_def GetData_cells_def MAX_PROBES_def min_def)
  then show "block_ok y m (as_dblock b)" using assms n by (simp add: block_ok_def) (simp add: as_dblock_def)
  show "i < nat (db_max b) \<Longrightarrow> bl_data (as_dblock b) ! i = FNaN" using e by simp
qed

lemma file_fetch_block:
  assumes "reads_well env" "month_ok y m" "0 < y" "szb_probecnt y m = Some n"
  obtains b where "file_fetch env y m = Some b" "block_ok y m b"
    "\<And>i. i < nat n \<Longrightarrow> bl_data b ! i = (case block_file env y m of None \<Rightarrow> FNaN | Some f \<Rightarrow> cell_value (real_cell (be_pw env) (nth_nd f i)))"
proof (cases "block_file env y m")
  case None
  have n: "0 < n" "szb_datablock y m = Some \<lparr>db_year = y, db_month = m, db_start = probe2time 0 y m, db_end = probe2time (n - 1) y m, db_max = n,
       db_fixed = 0, db_initialized = True, db_data = None, db_first = - 1, db_last = - 1, db_updated = - 1,
       db_from_file = 0, db_err = 0\<rparr>"
    using szb_datablock_Some [OF assms(2,3)] assms(4) by (metis option.inject)+
  obtain ly lm where "time2my (be_last env) = Inr (ly, lm)" using assms(1) by (auto simp: reads_well_def)
  then have "\<exists>b. RealDatablock env y m = Some b \<and> db_max b = n \<and> db_data b = None \<and> db_first b < 0"
    using None n by (simp add: RealDatablock_def Let_def)
  then obtain b where b: "RealDatablock env y m = Some b" "db_max b = n" "db_data b = None" "db_first b < 0" by blast
  show thesis using that [of "as_dblock b"] empty_block_ok [OF assms(2), of b] assms(4) b None by (simp add: file_fetch_def)
next
  case (Some f)
  obtain r where r: "be_pw env = Fin r" "r \<noteq> 0" and rw: "be_open env" "plain (be_reads env)" using assms(1) by (auto simp: reads_well_def)
  let ?cs = "map (real_cell (be_pw env)) (take (nat n) f)"
  obtain b where b: "RealDatablock env y m = Some b" "block_holds ?cs b" "db_max b = n"
    using RealDatablock_take [OF assms(2,3) Some assms(4) rw] by blast
  have n: "0 < db_max b" "szb_probecnt y m = Some (db_max b)" using szb_probecnt_bounds [OF assms(2)] assms(4) b(3) by auto
  have v: "\<forall>c \<in> set ?cs. c \<noteq> Some FNaN" using real_cell_not_NaN [OF r] by auto
  note h = block_holds_ok [OF b(2) n(2) v n(1)]
  show thesis
  proof (rule that)
    show "file_fetch env y m = Some (as_dblock b)" using b(1) by (simp add: file_fetch_def)
    show "bl_data (as_dblock b) ! i = (case block_file env y m of None \<Rightarrow> FNaN | Some f \<Rightarrow> cell_value (real_cell (be_pw env) (nth_nd f i)))"
      if "i < nat n" for i
      using h(2) [of i] that b(3) Some by (simp add: nth_nd_def real_cell_def)
  qed (rule h(1))
qed

lemma file_fetch_probe:
  assumes "reads_well env" "dated t" "\<And>y m. month_ok y m \<Longrightarrow> GetBlockFullPath (be_join env) (be_root env) (be_name env) y m = target_path sp dir y m 600"
  shows "holds \<lparr>se_get = file_fetch env, se_stop = st, se_cond = cond\<rparr> t \<longleftrightarrow>
    cond (cell_value (real_cell (be_pw env) (get_probe dir (sp, be_files env) t)))"
proof -
  obtain y m where ym: "time2my t = Inr (y, m)" "0 < y" "y \<le> 9999" using assms(2) by (auto simp: dated_def split: sum.splits)
  obtain p n where p: "szb_probeind t 600 = Some p" "szb_probecnt y m = Some n" "0 \<le> p" "p < n"
    using probe_floor [OF ym(1)] ym(2,3) by (auto simp: SZBASE_DATA_SPAN_def)
  have ok: "month_ok y m" using time2my_eq [OF ym(1) _ ym(3)] ym(2) by auto
  obtain b where b: "file_fetch env y m = Some b"
    "bl_data b ! nat p = (case block_file env y m of None \<Rightarrow> FNaN | Some f \<Rightarrow> cell_value (real_cell (be_pw env) (nth_nd f (nat p))))"
    using file_fetch_block [OF assms(1) ok ym(2) p(2)] p(3,4) by (metis nat_less_eq_zless)
  have "be_files env (target_path sp dir y m 600) = block_file env y m" using assms(3) [OF ok] by (simp add: block_file_def)
  then have "bl_data b ! nat p = cell_value (real_cell (be_pw env) (get_probe dir (sp, be_files env) t))"
    using b(2) ym(1) p(1) by (simp add: get_probe_def probe_at_def nth_nd_def real_cell_def split: option.splits)
  then show ?thesis using b(1) ym(1) p(1) by (simp add: holds_def)
qed

lemma full_path_target:
  assumes "\<And>a b. be_join env a b = a @ [ch_slash] @ b" "be_name env = cname sp" "cname sp \<noteq> []" "month_ok y m"
  shows "GetBlockFullPath (be_join env) (be_root env) (be_name env) y m = target_path sp (be_root env) y m 600"
  using target_path_eq [OF assms(3,4), of "be_root env"] assms
  by (simp add: GetBlockFullPath_def GetBlockRelativePath_def month_ok_def szb_consts)

definition file_search :: "block_env \<Rightarrow> (fp \<Rightarrow> bool) \<Rightarrow> search_env" where
  "file_search env cond = \<lparr>se_get = file_fetch env, se_stop = (\<lambda>_ _. False), se_cond = cond\<rparr>"

definition stored_value :: "block_env \<Rightarrow> save_param \<Rightarrow> time_t \<Rightarrow> fp" where
  "stored_value env sp t = cell_value (real_cell (be_pw env) (get_probe (be_root env) (sp, be_files env) t))"

lemma file_search_ok:
  assumes "reads_well env" "\<not> cond FNaN"
  shows "search_ok (file_search env cond)"
proof -
  have "block_ok y m b" if f: "month_ok y m" "file_fetch env y m = Some b" for y m b
  proof (cases "0 < y")
    case True
    obtain n where "szb_probecnt y m = Some n" using szb_probecnt_bounds [OF f(1)] by auto
    with file_fetch_block [OF assms(1) f(1) True] f(2) show ?thesis by (metis option.inject)
  next
    case False
    then have "szb_datablock y m = None" by (simp add: szb_datablock_def Option.bind_eq_None_conv)
    then show ?thesis using f(2) by (simp add: file_fetch_def RealDatablock_def)
  qed
  then show ?thesis using assms(2) by (simp add: search_ok_def file_search_def)
qed

lemma month_past:
  assumes "month_ok y m" "szb_probecnt y m = Some n" "time2my t = Inr (y, m)"
  shows "t < probe2time (n - 1) y m + 600"
proof -
  have "0 \<le> y" "y \<le> 9999" using assms(1) by (simp_all add: month_ok_def)
  then obtain p where "0 \<le> p" "p < n" "probe2time p y m = t - t mod 600" using probe_floor [OF assms(3)] assms(2) by auto
  moreover from this have "probe2time p y m = month_start y m + p * 600" "probe2time (n - 1) y m = month_start y m + (n - 1) * 600"
    using slot_time [OF assms(1,2), of p] slot_time [OF assms(1,2), of "n - 1"] by simp_all
  moreover define r where "r = t mod 600"
  moreover have "r < 600" by (simp add: r_def)
  ultimately show ?thesis by simp
qed

lemma search_files_linear:
  assumes "reads_well env" "\<And>a b. be_join env a b = a @ [ch_slash] @ b" "be_name env = cname sp" "cname sp \<noteq> []"
    and "\<not> cond FNaN" "start mod 600 = 0" "\<forall>t. min start fin \<le> t \<and> t \<le> max start fin \<longrightarrow> dated t"
  shows "search_in_data_range (file_search env cond) val start fin 1 = Some (linear_right (\<lambda>t. cond (stored_value env sp t)) fin start) \<and>
    search_in_data_range (file_search env cond) val start fin (- 1) = Some (linear_left (\<lambda>t. cond (stored_value env sp t)) fin start)"
proof -
  let ?se = "file_search env cond" and ?meets = "\<lambda>t. cond (stored_value env sp t)"
  have "holds ?se t = ?meets t" if "dated t" for t
    using file_fetch_probe [OF assms(1) that full_path_target [OF assms(2-4)]] by (simp add: file_search_def stored_value_def)
  then have "linear_right (holds ?se) fin start = linear_right ?meets fin start" "linear_left (holds ?se) fin start = linear_left ?meets fin start"
    using assms(7) by (auto intro!: linear_right_cong linear_left_cong)
  moreover have "\<forall>t. min start fin \<le> t \<and> t \<le> max start fin \<longrightarrow> ok_time t" using assms(7) dated_ok by blast
  ultimately show ?thesis using search_range_linear [OF file_search_ok [where cond = cond, OF assms(1,5)] assms(6)] by simp
qed

subsection \<open>Properties\<close>

definition demo_store :: "save_param \<times> files" where
  "demo_store = put_probe [100] 1000502400 5 (TSaveParam [65], \<lambda>_. None)"

definition demo_env :: block_env where
  "demo_env = \<lparr>be_zone = fixed_zone 3600, be_meaner = 1000502400, be_join = (\<lambda>a b. a @ [ch_slash] @ b), be_root = [100],
     be_name = cname (fst demo_store), be_files = snd demo_store, be_last = 1000502400, be_pw = Fin 10, be_open = True, be_reads = [Rd_intr]\<rparr>"

lemma demo_store_holds:
  "store_inv demo_store" "get_probe [100] demo_store 1000502400 = 5"
proof -
  have "store_inv (TSaveParam [65], \<lambda>_. None)" by (simp add: store_inv_def sp_inv_def TSaveParam_def wchar2szb_def)
  moreover have "ok_time 1000502400" by code_simp
  ultimately show "store_inv demo_store" "get_probe [100] demo_store 1000502400 = 5"
    unfolding demo_store_def using get_put_probe by (simp_all add: same_span_def)
qed

lemma refresh_and_load:
  assumes "month_ok y m" "0 < y" "szb_probecnt y m = Some n" "int (length (f @ g)) \<le> n"
    and "block_file env y m = Some f" "be_open env" "plain (be_reads env)"
    and "block_file env' y m = Some (f @ g)" "be_open env'" "plain (be_reads env')" "be_pw env' = be_pw env"
    and "update_time env' \<noteq> update_time env" "ok_time (update_time env')"
  obtains b b' b'' where "RealDatablock env y m = Some b" "Refresh env' b = Some b'" "RealDatablock env' y m = Some b''"
    "bl_data (as_dblock b') = bl_data (as_dblock b'')" "db_last b' = db_last b''" "db_max b' = n" "db_max b'' = n"
    "db_from_file b' = db_from_file b''" "db_first b' = first_idx 0 (map (real_cell (be_pw env)) f) (- 1)"
    "db_first b'' = first_idx (int (length f)) (map (real_cell (be_pw env)) g) (db_first b')"
proof -
  let ?c = "real_cell (be_pw env)"
  obtain b where b: "RealDatablock env y m = Some b" "block_holds (map ?c f) b" "db_max b = n" "db_year b = y" "db_month b = m"
    "db_fixed b = int (length f)" "db_from_file b = int (length f)" "db_updated b = update_time env"
    using RealDatablock_loads [OF assms(1,2,5,3) _ assms(6,7)] assms(4) by auto
  obtain b'' where b'': "RealDatablock env' y m = Some b''" "block_holds (map ?c (f @ g)) b''" "db_max b'' = n" "db_from_file b'' = int (length (f @ g))"
    using RealDatablock_loads [OF assms(1,2,8,3,4,9,10)] assms(11) by auto
  have "block_file env' (db_year b) (db_month b) = Some (f @ g)" "db_fixed b \<noteq> db_max b \<or> g = []" using assms(4,8) b by auto
  from Refresh_result [of "map ?c f" b env' f g, OF b(2) _ b(7) _ this(2,1) assms(9,10) _ assms(13)]
  obtain b' where b': "Refresh env' b = Some b'" "db_from_file b' = int (length (f @ g))" "db_first b' = db_first b" "db_max b' = n"
    "db_data b' = Some (map (Some \<circ> cell_value) (map ?c (f @ g)) @ replicate (nat n - length (f @ g)) (Some FNaN))"
    "db_last b' = last_idx 0 (map ?c (f @ g)) (- 1)"
    using assms(4,11,12) b(3,8) by auto
  show thesis
    using that [OF b(1) b'(1) b''(1)] b b' b'' by (simp add: as_dblock_def GetData_cells_def block_holds_def first_idx_append)
qed


text \<open>One probe in September 2001, then two, ten minutes later.\<close>

definition grown :: "short list \<Rightarrow> time_t \<Rightarrow> block_env" where
  "grown f t = \<lparr>be_zone = fixed_zone 3600, be_meaner = t, be_join = (\<lambda>a b. a @ [ch_slash] @ b), be_root = [100],
     be_name = [65], be_files = (\<lambda>_. Some f), be_last = t, be_pw = Fin 10, be_open = True, be_reads = []\<rparr>"

lemma grown_facts:
  "block_file (grown f t) y m = Some f" "be_open (grown f t)" "plain (be_reads (grown f t))" "be_pw (grown f t) = Fin 10"
  "0 < t \<Longrightarrow> update_time (grown f t) = t - t mod 600"
  by (simp_all add: grown_def block_file_def update_time_def szb_round_time_def smod_nonneg)


text \<open>C36. A refreshed block hides its first data from the searches. Refreshing never sets the index of the
  first data: a block that was loaded when the file held no data and refreshed after data was
  written has the same probes and the same last data as a block loaded again, which knows its first
  data, but it keeps -1 for the first data, and a search to the right that starts at any
  time of the month finds nothing there.\<close>

theorem refresh_misses_data:
  assumes "month_ok y m" "0 < y" "szb_probecnt y m = Some n" "int (length (f @ g)) \<le> n"
    and "block_file env y m = Some f" "be_open env" "plain (be_reads env)"
    and "block_file env' y m = Some (f @ g)" "be_open env'" "plain (be_reads env')" "be_pw env' = be_pw env"
    and "update_time env' \<noteq> update_time env" "ok_time (update_time env')"
    and "\<forall>v \<in> set f. v = SZARP_NO_DATA" "\<exists>v \<in> set g. v \<noteq> SZARP_NO_DATA"
  shows "\<exists>b b' b''. RealDatablock env y m = Some b \<and> Refresh env' b = Some b' \<and> RealDatablock env' y m = Some b'' \<and>
    bl_data (as_dblock b') = bl_data (as_dblock b'') \<and> db_last b' = db_last b'' \<and> 0 \<le> db_first b'' \<and> db_first b' = - 1 \<and>
    (\<forall>t cond val. time2my t = Inr (y, m) \<longrightarrow>
       search_in_data_range \<lparr>se_get = (\<lambda>_ _. Some (as_dblock b')), se_stop = (\<lambda>_ _. False), se_cond = cond\<rparr> val t t 1 = Some (- 1))"
proof -
  let ?c = "real_cell (be_pw env)"
  obtain b b' b'' where b: "RealDatablock env y m = Some b" "Refresh env' b = Some b'" "RealDatablock env' y m = Some b''"
    "bl_data (as_dblock b') = bl_data (as_dblock b'')" "db_last b' = db_last b''" "db_max b' = n" "db_max b'' = n"
    "db_from_file b' = db_from_file b''" "db_first b' = first_idx 0 (map ?c f) (- 1)"
    "db_first b'' = first_idx (int (length f)) (map ?c g) (db_first b')"
    by (rule refresh_and_load [OF assms(1-13)])
  have "list_all (\<lambda>c. c = None) (map ?c f)" "\<not> list_all (\<lambda>c. c = None) (map ?c g)"
    using assms(14,15) by (auto simp: list_all_iff real_cell_def)
  then have fst: "db_first b' = - 1" "0 \<le> db_first b''"
    using first_idx_bounds [of "- 1" 0 "map ?c f"] first_idx_bounds [of "- 1" "int (length f)" "map ?c g"] b(9,10)
    by (auto simp: list_all_length)
  have "search_in_data_range \<lparr>se_get = (\<lambda>_ _. Some (as_dblock b')), se_stop = (\<lambda>_ _. False), se_cond = cond\<rparr> val t t 1 = Some (- 1)"
    if t: "time2my t = Inr (y, m)" for t cond val
    using t fst(1) assms(3) month_past [OF assms(1,3) t]
    by (simp add: search_in_data_range_def search_in_data_right_def search_right_loop.simps visit_right_def needs_block_def cursor_init_def
        as_dblock_def SZBASE_DATA_SPAN_def)
  then show ?thesis using b(1-5) fst by blast
qed

theorem refresh_misses_data_witness:
  "\<exists>b b' b''. RealDatablock (grown [] 1000502400) 2001 9 = Some b \<and> Refresh (grown [7] 1000503000) b = Some b' \<and>
    RealDatablock (grown [7] 1000503000) 2001 9 = Some b'' \<and> db_first b' = - 1 \<and> 0 \<le> db_first b''"
proof -
  have "month_ok 2001 9" "szb_probecnt 2001 9 = Some 4320" "ok_time 1000503000" by code_simp+
  then show ?thesis
    using refresh_misses_data [of 2001 9 4320 "[]" "[7]" "grown [] 1000502400" "grown [7] 1000503000"]
    by (force simp: grown_facts SZARP_NO_DATA_def)
qed

text \<open>C37. A short read of a file leads \<open>szb_load_data\<close> to the wrong place: after a read that returned k probes, fewer
  than asked for, it goes on at probe k of the file, which is where the read ended only when it
  began at the start of the file; asked for probes from another place, it returns k right ones
  and then those from k on. The loop of \<open>Refresh\<close>, which does not move in the file, returns the right probes
  however often it is interrupted or reads less than it asked for.\<close>

theorem short_reads:
  assumes "0 < k" "k < count" "start + count \<le> length f" "list_all fair_read rs"
  shows "szb_load_data (Some f) start count [Rd_some k] = Some (take k (drop start f) @ take (count - k) (drop k f)) \<and>
    szb_load_data (Some f) 0 count [Rd_some k] = Some (take count f) \<and>
    read_loop f start count rs [] = (True, take count (drop start f))"
proof (intro conjI)
  have go: "load_loop f s count [Rd_some k] [] = Some (take k (drop s f) @ take (count - k) (drop k f))" if "s + count \<le> length f" for s
    using load_loop_full [of "[]" k "count - k" f "take k (drop s f)"] assms(1,2) that
    by (auto simp: load_loop.simps [of f s] read_chunk_def Let_def min_def)
  then show "szb_load_data (Some f) start count [Rd_some k] = Some (take k (drop start f) @ take (count - k) (drop k f))"
    using assms(3) by (simp add: szb_load_data_def)
  have "take k f @ take (count - k) (drop k f) = take count f" using take_add [of k "count - k" f] assms(2) by simp
  then show "szb_load_data (Some f) 0 count [Rd_some k] = Some (take count f)" using go [of 0] assms(3) by (simp add: szb_load_data_def)
  show "read_loop f start count rs [] = (True, take count (drop start f))" using read_loop_fair [OF assms(4,3)] by simp
qed

theorem short_reads_witness:
  "szb_load_data (Some [1, 2, 3, 4]) 2 2 [Rd_some 1] = Some [3, 2] \<and>
   read_loop [1, 2, 3, 4] 2 2 [Rd_some 1] [] = (True, [3, 4])"
  using short_reads [of 1 2 2 "[1, 2, 3, 4]" "[Rd_some 1]"] by (simp add: numeral_2_eq_2)

text \<open>C21. Combined parameters: a block made from the files of the two words of a parameter holds, for every probe that
  is in both files, the 32-bit number with the one as its upper and the other as its lower half,
  divided by the power, and no data where the upper word is no data; it is well-formed, and
  refreshing it after the files have grown, by different amounts, gives the same block as loading it again.\<close>

theorem combined_blocks:
  assumes "month_ok y m" "0 < y" "szb_probecnt y m = Some n" "int (length (fm @ gm)) \<le> n" "int (length (fl @ gl)) \<le> n"
    and "ce_files env (comb_path env (ce_msw env) y m) = Some fm" "ce_files env (comb_path env (ce_lsw env) y m) = Some fl"
    and "comb_path env (ce_msw env) y m \<noteq> []" "comb_path env (ce_lsw env) y m \<noteq> []" "plain (ce_msw_reads env)" "plain (ce_lsw_reads env)"
    and "ce_files env' (comb_path env' (ce_msw env') y m) = Some (fm @ gm)" "ce_files env' (comb_path env' (ce_lsw env') y m) = Some (fl @ gl)"
    and "comb_path env' (ce_msw env') y m \<noteq> []" "comb_path env' (ce_lsw env') y m \<noteq> []" "plain (ce_msw_reads env')" "plain (ce_lsw_reads env')"
    and "ce_pw env' = ce_pw env" "comb_update_time env' \<noteq> comb_update_time env"
  shows "\<exists>b b' b''. CombinedDatablock env y m = Some b \<and> Combined_Refresh env' b = Some b' \<and> CombinedDatablock env' y m = Some b'' \<and>
    as_dblock b' = as_dblock b'' \<and> db_fixed b' = db_fixed b'' \<and> block_ok y m (as_dblock b') \<and>
    (\<forall>i < min (length (fm @ gm)) (length (fl @ gl)). bl_data (as_dblock b') ! i =
       (if (fm @ gm) ! i = SZARP_NO_DATA then FNaN
        else fdiv float64 (of_int_fp float64 (sint ((fm @ gm) ! i) * 65536 + uint ((fl @ gl) ! i))) (ce_pw env)))"
proof -
  let ?c = "combined_cell (ce_pw env)" and ?k = "min (length fm) (length fl)"
  let ?cs = "map ?c (zip (fm @ gm) (fl @ gl))"
  have l: "int (length fm) \<le> n" "int (length fl) \<le> n" using assms(4,5) by simp_all
  obtain b where b: "CombinedDatablock env y m = Some b" "block_holds (map ?c (zip fm fl)) b" "db_max b = n"
    "db_fixed b = int (length (zip fm fl))" "db_updated b = comb_update_time env" "db_year b = y" "db_month b = m"
    using CombinedDatablock_loads [OF assms(1,2,6-9,3) l assms(10,11)] by auto
  obtain b'' where b'': "CombinedDatablock env' y m = Some b''" "block_holds ?cs b''" "db_max b'' = n" "db_fixed b'' = int (length ?cs)"
    using CombinedDatablock_loads [OF assms(1,2,12-15,3-5,16,17)] assms(18) by auto
  have split: "fm @ gm = take ?k fm @ drop ?k fm @ gm" "fl @ gl = take ?k fl @ drop ?k fl @ gl" by simp_all
  have fit: "int (min (length (fm @ gm)) (length (fl @ gl))) \<le> db_max b" using assms(4) b(3) by linarith
  obtain b' where b': "Combined_Refresh env' b = Some b'" "block_holds ?cs b'" "db_max b' = n" "db_fixed b' = int (length ?cs)"
    using Combined_Refresh_result [of env' "take ?k fm" "take ?k fl" b "drop ?k fm @ gm" "drop ?k fl @ gl"] b assms(12,13,16-19) fit
    unfolding split [symmetric] zip_shorter by auto
  have ok: "\<forall>c \<in> set ?cs. c \<noteq> Some FNaN" "szb_probecnt y m = Some (db_max b')" "0 < db_max b'"
    using combined_cell_not_NaN b'(3) assms(3) szb_probecnt_bounds [OF assms(1)] by auto
  note h = block_holds_ok [OF b'(2) ok(2,1,3)]
  have "bl_data (as_dblock b') ! i = (if (fm @ gm) ! i = SZARP_NO_DATA then FNaN
        else fdiv float64 (of_int_fp float64 (sint ((fm @ gm) ! i) * 65536 + uint ((fl @ gl) ! i))) (ce_pw env))"
    if i: "i < min (length (fm @ gm)) (length (fl @ gl))" for i
  proof -
    have "i < nat (db_max b')" using i assms(4) b'(3) by auto
    then have "bl_data (as_dblock b') ! i = cell_value (?c ((fm @ gm) ! i, (fl @ gl) ! i))" using h(2) [of i] i by simp
    then show ?thesis by (simp add: combined_cell_value Let_def)
  qed
  moreover have "as_dblock b' = as_dblock b''"
    using b'(2,3) b''(2,3) by (simp add: as_dblock_def GetData_cells_def block_holds_def)
  ultimately show ?thesis using b(1) b'(1,4) b''(1,4) h(1) by auto
qed

definition demo_comb :: "short list \<Rightarrow> short list \<Rightarrow> time_t \<Rightarrow> comb_env" where
  "demo_comb f g t = \<lparr>ce_zone = fixed_zone 3600, ce_meaner = t, ce_join = (\<lambda>a b. a @ [ch_slash] @ b), ce_root = [100],
     ce_msw = [77], ce_lsw = [76], ce_files = (\<lambda>p. Some (if take 3 p = [100, ch_slash, 77] then f else g)), ce_pw = Fin 10,
     ce_msw_reads = [], ce_lsw_reads = []\<rparr>"

lemma demo_comb_facts:
  "ce_files (demo_comb f g t) (comb_path (demo_comb f g t) (ce_msw (demo_comb f g t)) 2001 9) = Some f"
  "ce_files (demo_comb f g t) (comb_path (demo_comb f g t) (ce_lsw (demo_comb f g t)) 2001 9) = Some g"
  "comb_path (demo_comb f g t) (ce_msw (demo_comb f g t)) 2001 9 \<noteq> []" "comb_path (demo_comb f g t) (ce_lsw (demo_comb f g t)) 2001 9 \<noteq> []"
  "plain (ce_msw_reads (demo_comb f g t))" "plain (ce_lsw_reads (demo_comb f g t))" "ce_pw (demo_comb f g t) = Fin 10"
  "0 < t \<Longrightarrow> comb_update_time (demo_comb f g t) = t - t mod 600"
  by (simp_all add: demo_comb_def comb_path_def GetBlockFullPath_def GetBlockRelativePath_def szb_consts comb_update_time_def
      szb_round_time_def smod_nonneg)

theorem combined_blocks_witness:
  "\<exists>b b' b''. CombinedDatablock (demo_comb [1, 2] [3] 1000502400) 2001 9 = Some b \<and>
    Combined_Refresh (demo_comb [1, 2, 7] [3, 4] 1000503000) b = Some b' \<and>
    CombinedDatablock (demo_comb [1, 2, 7] [3, 4] 1000503000) 2001 9 = Some b'' \<and> as_dblock b' = as_dblock b'' \<and>
    bl_data (as_dblock b') ! 1 = fdiv float64 (of_int_fp float64 131076) (Fin 10)"
proof -
  have "month_ok 2001 9" "szb_probecnt 2001 9 = Some 4320" by code_simp+
  from combined_blocks [OF this(1) _ this(2), of "[1, 2]" "[7]" "[3]" "[4]" "demo_comb [1, 2] [3] 1000502400"
    "demo_comb [1, 2, 7] [3, 4] 1000503000"]
  obtain b b' b'' where b: "CombinedDatablock (demo_comb [1, 2] [3] 1000502400) 2001 9 = Some b"
    "Combined_Refresh (demo_comb [1, 2, 7] [3, 4] 1000503000) b = Some b'"
    "CombinedDatablock (demo_comb [1, 2, 7] [3, 4] 1000503000) 2001 9 = Some b''" "as_dblock b' = as_dblock b''"
    "\<forall>i < 2. bl_data (as_dblock b') ! i = (if [1, 2, 7] ! i = SZARP_NO_DATA then FNaN
        else fdiv float64 (of_int_fp float64 (sint ([1, 2, 7 :: short] ! i) * 65536 + uint ([3, 4 :: short] ! i))) (Fin 10))"
    by (force simp: demo_comb_facts)
  from b(5) have "bl_data (as_dblock b') ! 1 = fdiv float64 (of_int_fp float64 131076) (Fin 10)" by (simp add: SZARP_NO_DATA_def)
  with b show ?thesis by blast
qed

end
