(* ===== verification/Szb_Range.thy ===== *)
theory Szb_Range
  imports Szb_Block
begin

text \<open>
  The dates of the first and the last data of parameters, from the names of the files in their
  directories: \<open>find_one_param_file\<close>, \<open>szb_search_first\<close>, \<open>szb_search_last\<close>, \<open>szb_definable_meaner_last\<close>
  and the first date of a data base in \<open>szb_create_buffer\<close>, all of \<open>szbase/szbbuf.cc\<close>.

  The listing of a directory is a list of names in any order, or \<open>None\<close> when it cannot be read; the sizes
  of files in bytes and \<open>stem\<close> of Boost are arguments. A failed assertion is \<open>None\<close>.
\<close>

subsection \<open>The file of a directory\<close>

text \<open>\<open>operator<\<close> of strings.\<close>

fun wless :: "wstring \<Rightarrow> wstring \<Rightarrow> bool" where
  "wless _ [] = False"
| "wless [] (_ # _) = True"
| "wless (a # as) (b # bs) = (a < b \<or> a = b \<and> wless as bs)"

definition wgreater :: "wstring \<Rightarrow> wstring \<Rightarrow> bool" where
  "wgreater a b = wless b a"

definition pick :: "(wstring \<Rightarrow> wstring \<Rightarrow> bool) \<Rightarrow> wstring \<Rightarrow> wstring \<Rightarrow> wstring" where
  "pick cmp found l =
     (if \<not> is_szb_file_name l then found else if found = [] then l else if cmp l found then l else found)"

definition find_one_param_file :: "(wstring \<Rightarrow> wstring \<Rightarrow> bool) \<Rightarrow> wstring list option \<Rightarrow> wstring" where
  "find_one_param_file cmp dir = (case dir of None \<Rightarrow> [] | Some ls \<Rightarrow> foldl (pick cmp) [] ls)"

subsection \<open>Dates of the first and the last data\<close>

record range_env =
  re_stem :: "wstring \<Rightarrow> wstring"
  re_dir :: "wstring \<Rightarrow> wstring list option"
  re_size :: "wstring \<Rightarrow> wstring \<Rightarrow> int option"
  re_meaner :: time_t

definition szb_search_first :: "range_env \<Rightarrow> wstring \<Rightarrow> time_t" where
  "szb_search_first env name =
     (let first = find_one_param_file wless (re_dir env name) in
      if first = [] then - 1
      else let (year, month) = szb_path2date (re_stem env) first in
        if year \<le> 0 \<or> month \<le> 0 then - 1 else probe2time 0 year month)"

text \<open>The case of a parameter with files of its own.\<close>

definition last_of_files :: "range_env \<Rightarrow> wstring \<Rightarrow> time_t option" where
  "last_of_files env name =
     (let last = find_one_param_file wgreater (re_dir env name) in
      if last = [] then Some (- 1)
      else let (year, month) = szb_path2date (re_stem env) last in
        if year \<le> 0 \<or> month \<le> 0 then None
        else case re_size env name last of None \<Rightarrow> Some (- 1)
          | Some n \<Rightarrow> Some (probe2time (c_int (n div 2 - 1)) year month))"

datatype TParam = P_REAL wstring | P_COMBINED TParam TParam | P_DEFINABLE "TParam list" bool | P_LUA time_t | P_OTHER

text \<open>\<open>szb_get_data\<close> of a combined parameter is an argument.\<close>

fun szb_search_last :: "range_env \<Rightarrow> (TParam \<Rightarrow> time_t \<Rightarrow> fp) \<Rightarrow> TParam \<Rightarrow> time_t option"
  and earliest_last :: "range_env \<Rightarrow> (TParam \<Rightarrow> time_t \<Rightarrow> fp) \<Rightarrow> time_t \<Rightarrow> TParam list \<Rightarrow> time_t option" where
  "szb_search_last env get (P_REAL name) = last_of_files env name"
| "szb_search_last env get (P_COMBINED msw lsw) = do {
     t \<leftarrow> szb_search_last env get msw;
     if t = - 1 then Some (- 1)
     else if get (P_COMBINED msw lsw) t = FNaN then szb_search_last env get lsw
     else Some t }"
| "szb_search_last env get (P_DEFINABLE ps n_used) =
     (if ps = [] \<or> n_used then Some (re_meaner env) else earliest_last env get (re_meaner env) ps)"
| "szb_search_last env get (P_LUA end_offset) = Some (re_meaner env + end_offset)"
| "szb_search_last env get P_OTHER = Some (- 1)"
| "earliest_last env get t [] = Some t"
| "earliest_last env get t (p # ps) = do { l \<leftarrow> szb_search_last env get p; earliest_last env get (min t l) ps }"

text \<open>The date is kept for the queries with the same number.\<close>

record meaner_cache =
  last_query_id :: int
  last_av_date :: time_t

definition szb_definable_meaner_last :: "range_env \<Rightarrow> wstring \<Rightarrow> int \<Rightarrow> meaner_cache \<Rightarrow> time_t \<times> meaner_cache" where
  "szb_definable_meaner_last env meaner3_path query_id c =
     (if last_query_id c = query_id then (last_av_date c, c)
      else
        let last = find_one_param_file wgreater (re_dir env meaner3_path) in
        if last = [] then (- 1, c)
        else let (year, month) = szb_path2date (re_stem env) last in
          if year \<le> 0 \<or> month \<le> 0 then (- 1, c)
          else case re_size env meaner3_path last of None \<Rightarrow> (- 1, c)
            | Some n \<Rightarrow>
              let t = probe2time (c_int (n div 2 - 1)) year month in
              (t, \<lparr>last_query_id = query_id, last_av_date = t\<rparr>))"

text \<open>The first date of a data base, from the first parameter with files and the parameter of the daemon.\<close>

fun first_found :: "range_env \<Rightarrow> time_t \<Rightarrow> wstring list \<Rightarrow> time_t" where
  "first_found env t [] = t"
| "first_found env t (p # ps) = (if t < 0 then first_found env (szb_search_first env p) ps else t)"

definition first_av_date :: "range_env \<Rightarrow> wstring list \<Rightarrow> wstring \<Rightarrow> time_t" where
  "first_av_date env params meaner3 =
     (let t = first_found env (- 1) params; meaner_start = szb_search_first env meaner3 in
      if meaner_start > 0 \<and> meaner_start < t then meaner_start else t)"

subsection \<open>Picking by an order\<close>

lemma not_szb_Nil [simp]: "\<not> is_szb_file_name []"
  by (simp add: is_szb_file_name_def wat_def)

locale picking =
  fixes cmp :: "wstring \<Rightarrow> wstring \<Rightarrow> bool"
  assumes cmp_trans: "cmp a b \<Longrightarrow> cmp b c \<Longrightarrow> cmp a c" and cmp_irrefl: "\<not> cmp a a"
begin

lemma picked_from:
  assumes "is_szb_file_name found" "r = foldl (pick cmp) found ls"
  shows "is_szb_file_name r \<and> r \<in> insert found (set ls) \<and> (r = found \<or> cmp r found) \<and>
    (\<forall>l \<in> set ls. is_szb_file_name l \<longrightarrow> \<not> cmp l r)"
  using assms
proof (induction ls arbitrary: found)
  case (Cons k ls)
  define f where "f = pick cmp found k"
  have ne: "found \<noteq> []" using Cons(2) by auto
  have f: "is_szb_file_name f" "f = found \<or> f = k \<and> cmp k found" "is_szb_file_name k \<Longrightarrow> f = k \<or> f = found \<and> \<not> cmp k found"
    using Cons(2) ne by (auto simp: f_def pick_def)
  have "r = foldl (pick cmp) f ls" using Cons(3) by (simp add: f_def)
  from Cons(1) [OF f(1) this]
  have r: "is_szb_file_name r" "r \<in> insert f (set ls)" "r = f \<or> cmp r f" "\<forall>l \<in> set ls. is_szb_file_name l \<longrightarrow> \<not> cmp l r" by simp_all
  have "r = found \<or> cmp r found" using r(3) f(2) cmp_trans [of r k found] by auto
  moreover have "\<not> cmp k r" if "is_szb_file_name k"
    using r(3) f(3) [OF that] cmp_trans [of k r f] cmp_irrefl [of k] by auto
  ultimately show ?case using r f(2) by auto
qed simp

lemma picked:
  assumes "\<exists>l \<in> set ls. is_szb_file_name l"
  shows "is_szb_file_name (find_one_param_file cmp (Some ls)) \<and> find_one_param_file cmp (Some ls) \<in> set ls \<and>
    (\<forall>l \<in> set ls. is_szb_file_name l \<longrightarrow> \<not> cmp l (find_one_param_file cmp (Some ls)))"
  using assms
proof (induction ls)
  case (Cons k ls)
  show ?case
  proof (cases "is_szb_file_name k")
    case True
    let ?r = "foldl (pick cmp) k ls"
    have "\<not> cmp k ?r" using picked_from [OF True refl, of ls] cmp_trans [of k ?r k] cmp_irrefl by auto
    then show ?thesis using picked_from [OF True refl, of ls] True by (auto simp: find_one_param_file_def pick_def)
  next
    case False
    then show ?thesis using Cons by (auto simp: find_one_param_file_def pick_def)
  qed
qed simp

end

lemma wless_trans: "wless a b \<Longrightarrow> wless b c \<Longrightarrow> wless a c"
proof (induction a b arbitrary: c rule: wless.induct)
  case (2 b bs)
  then show ?case by (cases c) auto
next
  case (3 a as b bs)
  then show ?case by (cases c) auto
qed simp

lemma wless_irrefl: "\<not> wless a a"
  by (induction a) auto

interpretation oldest: picking wless
  by unfold_locales (auto simp: wless_irrefl dest: wless_trans)

interpretation newest: picking wgreater
  by unfold_locales (auto simp: wgreater_def wless_irrefl dest: wless_trans)

subsection \<open>Names of months are ordered by date\<close>

definition month_file :: "int \<Rightarrow> int \<Rightarrow> wstring" where
  "month_file y m = digits_of 4 y @ digits_of 2 m @ suffix_szb"

lemma wless_append: "length a = length c \<Longrightarrow> wless (a @ b) (c @ d) \<longleftrightarrow> wless a c \<or> a = c \<and> wless b d"
  by (induction a c rule: list_induct2) auto

lemma digits_order:
  "0 \<le> n \<Longrightarrow> 0 \<le> n' \<Longrightarrow> n < 10 ^ k \<Longrightarrow> n' < 10 ^ k \<Longrightarrow>
    (wless (digits_of k n) (digits_of k n') \<longleftrightarrow> n < n') \<and> (digits_of k n = digits_of k n' \<longleftrightarrow> n = n')"
proof (induction k arbitrary: n n')
  case (Suc k)
  have d: "n div 10 < 10 ^ k" "n' div 10 < 10 ^ k" using Suc.prems by (simp_all add: div_less_iff_less_mult mult.commute)
  have IH: "wless (digits_of k (n div 10)) (digits_of k (n' div 10)) \<longleftrightarrow> n div 10 < n' div 10"
    "digits_of k (n div 10) = digits_of k (n' div 10) \<longleftrightarrow> n div 10 = n' div 10"
    using Suc.IH [of "n div 10" "n' div 10"] Suc.prems d by (simp_all add: pos_imp_zdiv_nonneg_iff)
  have *: "(a * 10 + c < b * 10 + d) = (a < b \<or> a = b \<and> c < d)" "(a * 10 + c = b * 10 + d) = (a = b \<and> c = d)"
    if "0 \<le> c" "c < 10" "0 \<le> d" "d < 10" for a b c d :: int
    using that by arith+
  have "n < n' \<longleftrightarrow> n div 10 < n' div 10 \<or> n div 10 = n' div 10 \<and> n mod 10 < n' mod 10" "n = n' \<longleftrightarrow> n div 10 = n' div 10 \<and> n mod 10 = n' mod 10"
    using * [of "n mod 10" "n' mod 10" "n div 10" "n' div 10"] by (simp_all only: div_mult_mod_eq pos_mod_sign pos_mod_bound zero_less_numeral)
  then show ?case using IH by (simp add: wless_append)
qed simp

lemma month_file_order:
  assumes "month_ok y m" "month_ok y' m'"
  shows "wless (month_file y m) (month_file y' m') \<longleftrightarrow> y < y' \<or> y = y' \<and> m < m'"
proof -
  have "wless (digits_of 4 y) (digits_of 4 y') \<longleftrightarrow> y < y'" "digits_of 4 y = digits_of 4 y' \<longleftrightarrow> y = y'"
    "wless (digits_of 2 m) (digits_of 2 m') \<longleftrightarrow> m < m'" "digits_of 2 m = digits_of 2 m' \<longleftrightarrow> m = m'"
    using digits_order [of y y' 4] digits_order [of m m' 2] assms by (simp_all add: month_ok_def)
  then show ?thesis by (simp add: month_file_def wless_append wless_irrefl)
qed

lemma month_file_szb: "is_szb_file_name (month_file y m)"
proof -
  have "\<exists>d. length d = 6 \<and> list_all iswdigit d \<and> month_file y m = d @ suffix_szb"
    by (intro exI [of _ "digits_of 4 y @ digits_of 2 m"] conjI date_digits) (simp add: month_file_def)
  moreover have "\<not> iswdigit 0" by (simp add: iswdigit_def)
  then have "0 \<notin> set (month_file y m)" using date_digits(2) [of y m] by (auto simp: month_file_def suffix_szb_def list_all_iff)
  ultimately show ?thesis using is_szb_file_name_iff by blast
qed

lemma month_file_not_Nil [simp]: "month_file y m \<noteq> []"
  using month_file_szb [of y m] by auto

subsection \<open>Months are ordered\<close>

lemma days_before_month_mono:
  assumes "0 \<le> m" "m < m'" "m' < 12"
  shows "days_before_month y m + month_lengths y ! nat m \<le> days_before_month y m'"
proof -
  have k: "nat m < length (month_lengths y)" "nat m' = Suc (nat m) + (nat m' - Suc (nat m))" using assms by auto
  have "take (nat m') (month_lengths y) = take (nat m) (month_lengths y) @ [month_lengths y ! nat m] @
    take (nat m' - Suc (nat m)) (drop (Suc (nat m)) (month_lengths y))"
    using k by (metis append.assoc take_Suc_conv_app_nth take_add)
  moreover have "0 \<le> sum_list (take (nat m' - Suc (nat m)) (drop (Suc (nat m)) (month_lengths y)))"
    by (auto intro!: sum_list_nonneg dest!: in_set_takeD in_set_dropD month_lengths_pos)
  ultimately show ?thesis by (simp add: days_before_month_def)
qed

lemma months_ordered:
  assumes "month_ok y m" "month_ok y' m'" "y < y' \<or> y = y' \<and> m < m'"
  shows "month_end y m \<le> month_start y' m'"
proof -
  let ?l = "month_lengths y ! nat (m - 1)"
  have m: "0 \<le> m - 1" "m - 1 < 12" "0 \<le> m' - 1" "m' - 1 < 12" using assms by (auto simp: month_ok_def)
  have e: "month_end y m = (days_before_year y - epoch_day + days_before_month y (m - 1) + ?l) * 86400"
    by (simp add: month_end_def szb_probecnt_eq [OF assms(1)] month_start_def)
  have "days_before_year y + days_before_month y (m - 1) + ?l \<le> days_before_year y' + days_before_month y' (m' - 1)"
    using assms(3)
  proof
    assume "y < y'"
    then have "days_before_year y + year_length y \<le> days_before_year y'" by (rule days_before_year_less)
    moreover have "days_before_month y (m - 1) + ?l - 1 < year_length y"
      using m month_length_bounds [OF m(1,2), of y] by (intro days_before_month_bound) (simp add: date_ok_def)
    moreover have "0 \<le> days_before_month y' (m' - 1)"
      by (auto simp: days_before_month_def intro!: sum_list_nonneg dest!: in_set_takeD month_lengths_pos)
    ultimately show ?thesis by linarith
  next
    assume "y = y' \<and> m < m'"
    then show ?thesis using days_before_month_mono [of "m - 1" "m' - 1" y] m by simp
  qed
  then show ?thesis unfolding e month_start_def by (intro mult_right_mono) simp_all
qed

subsection \<open>The files of a parameter\<close>

text \<open>The listing of the directory of a parameter: a name for every month with a file, whatever else the
  directory holds, no names that look like a month but are none, and the sizes of the files.\<close>

definition listed :: "range_env \<Rightarrow> wstring \<Rightarrow> save_param \<Rightarrow> files \<Rightarrow> bool" where
  "listed env dir sp fs \<longleftrightarrow> (\<exists>ls. re_dir env (cname sp) = Some ls \<and>
     (\<forall>l \<in> set ls. is_szb_file_name l \<longrightarrow> (\<exists>y m. month_ok y m \<and> 0 < y \<and> l = month_file y m)) \<and>
     (\<forall>y m. month_ok y m \<and> 0 < y \<longrightarrow> (month_file y m \<in> set ls \<longleftrightarrow> fs (target_path sp dir y m 600) \<noteq> None))) \<and>
     (\<forall>y m f. month_ok y m \<and> 0 < y \<and> fs (target_path sp dir y m 600) = Some f \<longrightarrow>
        re_size env (cname sp) (month_file y m) = Some (2 * int (length f)) \<and> int (length f) \<le> the (szb_probecnt y m)) \<and>
     (\<forall>y m. month_ok y m \<longrightarrow> re_stem env (month_file y m) = digits_of 4 y @ digits_of 2 m)"

lemma listed_file:
  assumes "listed env dir sp fs" "month_ok y m" "0 < y" "fs (target_path sp dir y m 600) = Some f"
  obtains y1 m1 y2 m2 f2 where "month_ok y1 m1" "szb_search_first env (cname sp) = month_start y1 m1" "y1 < y \<or> y1 = y \<and> m1 \<le> m"
    "month_ok y2 m2" "fs (target_path sp dir y2 m2 600) = Some f2" "y < y2 \<or> y = y2 \<and> m \<le> m2"
    "last_of_files env (cname sp) = Some (month_start y2 m2 + (int (length f2) - 1) * 600)"
proof -
  obtain ls where ls: "re_dir env (cname sp) = Some ls"
    "\<And>l. l \<in> set ls \<Longrightarrow> is_szb_file_name l \<Longrightarrow> \<exists>y m. month_ok y m \<and> 0 < y \<and> l = month_file y m"
    "\<And>y m. month_ok y m \<Longrightarrow> 0 < y \<Longrightarrow> month_file y m \<in> set ls \<longleftrightarrow> fs (target_path sp dir y m 600) \<noteq> None"
    using assms(1) unfolding listed_def by blast
  have date: "szb_path2date (re_stem env) (month_file y m) = (y, m)" if "month_ok y m" "0 < y" for y m
    using assms(1) that by (intro path2date_digits) (simp_all add: listed_def)
  have this_file: "month_file y m \<in> set ls" using ls(3) [OF assms(2,3)] assms(4) by simp
  then have ex: "\<exists>l \<in> set ls. is_szb_file_name l" using month_file_szb by blast
  let ?o = "find_one_param_file wless (Some ls)" and ?n = "find_one_param_file wgreater (Some ls)"
  have o: "is_szb_file_name ?o" "?o \<in> set ls" "\<not> wless (month_file y m) ?o"
    using oldest.picked [OF ex] this_file month_file_szb by blast+
  have n: "is_szb_file_name ?n" "?n \<in> set ls" "\<not> wgreater (month_file y m) ?n"
    using newest.picked [OF ex] this_file month_file_szb by blast+
  obtain y1 m1 where 1: "month_ok y1 m1" "0 < y1" "?o = month_file y1 m1" using ls(2) [OF o(2,1)] by blast
  obtain y2 m2 where 2: "month_ok y2 m2" "0 < y2" "?n = month_file y2 m2" using ls(2) [OF n(2,1)] by blast
  have first: "szb_search_first env (cname sp) = month_start y1 m1"
    using 1 date [OF 1(1,2)] slot_time [OF 1(1), of _ 0] szb_probecnt_bounds [OF 1(1)] ls(1)
    by (auto simp: szb_search_first_def month_ok_def)
  obtain f2 where f2: "fs (target_path sp dir y2 m2 600) = Some f2" using ls(3) [OF 2(1,2)] n(2) 2(3) by auto
  then have size: "re_size env (cname sp) (month_file y2 m2) = Some (2 * int (length f2))" "int (length f2) \<le> the (szb_probecnt y2 m2)"
    using assms(1) 2(1,2) by (simp_all add: listed_def)
  then have "int_range (int (length f2) - 1)" "int_range ((int (length f2) - 1) * 600)"
    using szb_probecnt_bounds [OF 2(1)] by (auto simp: int_range_def)
  then have "last_of_files env (cname sp) = Some (month_start y2 m2 + (int (length f2) - 1) * 600)"
    using 2 date [OF 2(1,2)] ls(1) size(1) probe2time_eq [OF 2(1)]
    by (simp add: last_of_files_def month_ok_def)
  moreover have "y1 < y \<or> y1 = y \<and> m1 \<le> m" using o(3) 1(3) month_file_order [OF assms(2) 1(1)] by auto
  moreover have "y < y2 \<or> y = y2 \<and> m \<le> m2" using n(3) 2(3) month_file_order [OF 2(1) assms(2)] by (auto simp: wgreater_def)
  ultimately show thesis using that 1(1) first 2(1) f2 by blast
qed

lemma data_in_range:
  assumes "listed env dir sp fs" "dated t" "get_probe dir (sp, fs) t \<noteq> SZARP_NO_DATA"
  obtains l where "last_of_files env (cname sp) = Some l" "szb_search_first env (cname sp) \<le> t" "t < l + 600"
    "l mod 600 = 0" "szb_search_first env (cname sp) mod 600 = 0"
proof -
  obtain y m where ym: "time2my t = Inr (y, m)" "0 < y" "y \<le> 9999" using assms(2) by (auto simp: dated_def split: sum.splits)
  have ok: "month_ok y m" using time2my_eq [OF ym(1) _ ym(3)] ym(2) by auto
  obtain p n where p: "szb_probeind t 600 = Some p" "szb_probecnt y m = Some n" "0 \<le> p" "p < n" "probe2time p y m = t - t mod 600"
    using probe_floor [OF ym(1)] ym(2,3) by (auto simp: SZBASE_DATA_SPAN_def)
  have t: "t - t mod 600 = month_start y m + p * 600" using slot_time [OF ok p(2,3)] p(4,5) by simp
  obtain f where f: "fs (target_path sp dir y m 600) = Some f" "nat p < length f"
    using assms(3) ym(1) p(1) by (auto simp: get_probe_def probe_at_def split: option.splits if_splits)
  obtain y1 m1 y2 m2 f2 where l: "month_ok y1 m1" "szb_search_first env (cname sp) = month_start y1 m1" "y1 < y \<or> y1 = y \<and> m1 \<le> m"
    "month_ok y2 m2" "fs (target_path sp dir y2 m2 600) = Some f2" "y < y2 \<or> y = y2 \<and> m \<le> m2"
    "last_of_files env (cname sp) = Some (month_start y2 m2 + (int (length f2) - 1) * 600)"
    by (rule listed_file [OF assms(1) ok ym(2) f(1)])
  have r: "0 \<le> t mod 600" "t mod 600 < 600" by simp_all
  have "month_start y1 m1 \<le> month_start y m"
    using l(3) months_ordered [OF l(1) ok] szb_probecnt_bounds [OF l(1)] by (cases "(y1, m1) = (y, m)") (auto simp: month_end_def)
  then have "szb_search_first env (cname sp) \<le> t" using l(2) t p(3) r(1) by simp
  moreover have "month_start y m + p * 600 \<le> month_start y2 m2 + (int (length f2) - 1) * 600"
  proof (cases "(y2, m2) = (y, m)")
    case True
    then show ?thesis using l(5) f p(3) by (simp add: nat_less_iff)
  next
    case False
    then have "month_end y m \<le> month_start y2 m2" using l(6) by (intro months_ordered [OF ok l(4)]) auto
    then show ?thesis using p(2,4) by (simp add: month_end_def)
  qed
  then have "t < month_start y2 m2 + (int (length f2) - 1) * 600 + 600" using t r(2) by simp
  moreover have "(month_start y2 m2 + (int (length f2) - 1) * 600) mod 600 = 0" using month_start_aligned [of y2 m2] by (simp flip: mod_add_left_eq)
  ultimately show thesis using that l(2,7) month_start_aligned by simp
qed

lemma none_picked: "\<forall>l \<in> set ls. \<not> is_szb_file_name l \<Longrightarrow> foldl (pick cmp) [] ls = []"
  by (induction ls) (auto simp: pick_def)

lemma range_cases:
  assumes "listed env dir sp fs"
  obtains "szb_search_first env (cname sp) = - 1" "last_of_files env (cname sp) = Some (- 1)"
  | l where "last_of_files env (cname sp) = Some l" "l mod 600 = 0" "szb_search_first env (cname sp) mod 600 = 0"
proof -
  obtain ls where ls: "re_dir env (cname sp) = Some ls"
    "\<And>l. l \<in> set ls \<Longrightarrow> is_szb_file_name l \<Longrightarrow> \<exists>y m. month_ok y m \<and> 0 < y \<and> l = month_file y m"
    "\<And>y m. month_ok y m \<Longrightarrow> 0 < y \<Longrightarrow> month_file y m \<in> set ls \<longleftrightarrow> fs (target_path sp dir y m 600) \<noteq> None"
    using assms unfolding listed_def by blast
  show thesis
  proof (cases "\<exists>l \<in> set ls. is_szb_file_name l")
    case True
    then obtain y m where ym: "month_ok y m" "0 < y" "month_file y m \<in> set ls" using ls(2) by blast
    then obtain f where f: "fs (target_path sp dir y m 600) = Some f" using ls(3) by blast
    obtain y1 m1 y2 m2 f2 where "month_ok y1 m1" "szb_search_first env (cname sp) = month_start y1 m1" "y1 < y \<or> y1 = y \<and> m1 \<le> m"
      "month_ok y2 m2" "fs (target_path sp dir y2 m2 600) = Some f2" "y < y2 \<or> y = y2 \<and> m \<le> m2"
      "last_of_files env (cname sp) = Some (month_start y2 m2 + (int (length f2) - 1) * 600)"
      by (rule listed_file [OF assms ym(1,2) f])
    then show thesis using that(2) month_start_aligned by (simp flip: mod_add_left_eq)
  next
    case False
    then show thesis using that(1) ls(1) none_picked by (auto simp: szb_search_first_def last_of_files_def find_one_param_file_def)
  qed
qed

subsection \<open>Searches between the dates of the files\<close>

lemma linear_past: "fin < t \<Longrightarrow> linear_right P fin t = - 1" "t < fin \<Longrightarrow> linear_left P fin t = - 1"
  by (simp_all add: linear_right.simps [of P fin t] linear_left.simps [of P fin t])

lemma aligned_next: "s mod 600 = 0 \<Longrightarrow> a mod 600 = 0 \<Longrightarrow> s < a \<Longrightarrow> s + 600 \<le> (a :: int)"
  using zdvd_imp_le [of 600 "a - s"] by (simp add: dvd_diff mod_eq_0_iff_dvd)

lemma linear_right_clip:
  assumes "start mod 600 = 0" "a mod 600 = 0" "\<And>t. start \<le> t \<Longrightarrow> t \<le> fin \<Longrightarrow> t mod 600 = 0 \<Longrightarrow> P t \<Longrightarrow> a \<le> t \<and> t \<le> b"
  shows "linear_right P fin start = linear_right P (min fin b) (max start a)"
  using assms
proof (induction P fin start rule: linear_right.induct)
  case (1 P fin t)
  consider (past) "t > fin" | (here) "t \<le> fin" "P t" | (on) "t \<le> fin" "\<not> P t" by linarith
  then show ?case
  proof cases
    case past
    then have "min fin b < max t a" by linarith
    then show ?thesis using past by (simp only: linear_past)
  next
    case here
    then have "a \<le> t \<and> t \<le> b" using 1(2) by (intro 1(4)) simp_all
    then have "max t a = t" "\<not> min fin b < t" using here(1) by linarith+
    then show ?thesis using here by (simp add: linear_right.simps [of P fin t] linear_right.simps [of P "min fin b" t])
  next
    case on
    have IH: "linear_right P fin (t + 600) = linear_right P (min fin b) (max (t + 600) a)"
      using 1(2-4) on by (intro 1(1)) auto
    show ?thesis
    proof (cases "t < a")
      case True
      then show ?thesis using IH on aligned_next [OF 1(2,3)] by (simp add: linear_right.simps [of P fin t] max_def)
    next
      case False
      then show ?thesis
        using IH on by (auto simp: linear_right.simps [of P fin t] linear_right.simps [of P "min fin b" t] linear_right.simps [of P "min fin b" "t + 600"] max_def)
    qed
  qed
qed

lemma linear_left_clip:
  assumes "start mod 600 = 0" "b mod 600 = 0" "\<And>t. fin \<le> t \<Longrightarrow> t \<le> start \<Longrightarrow> t mod 600 = 0 \<Longrightarrow> P t \<Longrightarrow> a \<le> t \<and> t \<le> b"
  shows "linear_left P fin start = linear_left P (max fin a) (min start b)"
  using assms
proof (induction P fin start rule: linear_left.induct)
  case (1 P fin t)
  consider (past) "t < fin" | (here) "fin \<le> t" "P t" | (on) "fin \<le> t" "\<not> P t" by linarith
  then show ?case
  proof cases
    case past
    then have "min t b < max fin a" by linarith
    then show ?thesis using past by (simp only: linear_past)
  next
    case here
    then have "a \<le> t \<and> t \<le> b" using 1(2) by (intro 1(4)) simp_all
    then have "min t b = t" "\<not> t < max fin a" using here(1) by linarith+
    then show ?thesis using here by (simp add: linear_left.simps [of P fin t] linear_left.simps [of P "max fin a" t])
  next
    case on
    have m: "(t - 600) mod 600 = 0" using 1(2) by simp
    have IH: "linear_left P fin (t - 600) = linear_left P (max fin a) (min (t - 600) b)"
      using 1(3,4) m on by (intro 1(1)) auto
    show ?thesis
    proof (cases "b < t")
      case True
      then have "min (t - 600) b = b" "min t b = b" using aligned_next [OF 1(3,2)] by linarith+
      then show ?thesis using IH on by (simp add: linear_left.simps [of P fin t])
    next
      case False
      then show ?thesis
        using IH on by (auto simp: linear_left.simps [of P fin t] linear_left.simps [of P "max fin a" t] linear_left.simps [of P "max fin a" "t - 600"] min_def)
    qed
  qed
qed

lemma linear_none:
  assumes "start mod 600 = 0" "\<And>t. min start fin \<le> t \<Longrightarrow> t \<le> max start fin \<Longrightarrow> \<not> P t"
  shows "linear_right P fin start = - 1" "linear_left P fin start = - 1"
proof -
  have "linear_right P fin start = linear_right P (min fin (start - 1)) (max start start)"
    using assms by (intro linear_right_clip) auto
  then show "linear_right P fin start = - 1" by (simp add: linear_past)
  have "linear_left P fin start = linear_left P (max fin (start + 1)) (min start start)"
    using assms by (intro linear_left_clip) auto
  then show "linear_left P fin start = - 1" by (simp add: linear_past)
qed

lemma search_past: "fin < t \<Longrightarrow> search_right_loop env fin t cu = Some (- 1)" "t < fin \<Longrightarrow> search_left_loop env fin t cu = Some (- 1)"
  by (simp_all add: search_right_loop.simps [of env fin t] search_left_loop.simps [of env fin t])

lemma searched_between:
  assumes "start mod 600 = 0" "f mod 600 = 0" "l mod 600 = 0" "fin \<noteq> - 1" "\<forall>t. min start fin \<le> t \<and> t \<le> max start fin \<longrightarrow> ok t"
    and search: "\<And>s e. s mod 600 = 0 \<Longrightarrow> \<forall>t. min s e \<le> t \<and> t \<le> max s e \<longrightarrow> ok t \<Longrightarrow>
      search_in_data_range env val s e 1 = Some (linear_right P e s) \<and> search_in_data_range env val s e (- 1) = Some (linear_left P e s)"
    and data: "\<And>t. min start fin \<le> t \<Longrightarrow> t \<le> max start fin \<Longrightarrow> t mod 600 = 0 \<Longrightarrow> P t \<Longrightarrow> f \<le> t \<and> t \<le> l"
  shows "szb_search_data env val f l start fin 1 = Some (linear_right P fin start)"
    "szb_search_data env val f l start fin (- 1) = Some (linear_left P fin start)"
proof -
  have nf: "\<not> (f = - 1 \<and> l = - 1)" using assms(2) by auto
  have R: "linear_right P fin start = linear_right P (min fin l) (max start f)"
    using assms(1,2) data by (intro linear_right_clip) auto
  have L: "linear_left P fin start = linear_left P (max fin f) (min start l)"
    using assms(1,3) data by (intro linear_left_clip) auto
  have "adjust_search_boundaries start fin f l 1 = (if start > l then None else Some (max start f, min fin l))"
    using nf assms(4) by (auto simp: adjust_search_boundaries_def max_def min_def)
  moreover have "search_in_data_range env val (max start f) (min fin l) 1 = Some (linear_right P (min fin l) (max start f))"
  proof (cases "max start f \<le> min fin l")
    case True
    then show ?thesis using assms(1,2,5) by (intro conjunct1 [OF search]) (auto simp: max_def)
  next
    case False
    then have lt: "min fin l < max start f" by linarith
    then have "search_right_loop env (min fin l) (max start f) cursor_init = Some (- 1)" by (rule search_past)
    then show ?thesis using lt by (simp add: search_in_data_range_def search_in_data_right_def linear_past(1) del: min_less_iff_disj less_max_iff_disj)
  qed
  ultimately show "szb_search_data env val f l start fin 1 = Some (linear_right P fin start)"
    unfolding R by (simp add: szb_search_data_def linear_past)
  have "adjust_search_boundaries start fin f l (- 1) = (if start < f then None else Some (min start l, max fin f))"
    using nf assms(4) by (auto simp: adjust_search_boundaries_def max_def min_def)
  moreover have "search_in_data_range env val (min start l) (max fin f) (- 1) = Some (linear_left P (max fin f) (min start l))"
  proof (cases "max fin f \<le> min start l")
    case True
    then show ?thesis using assms(1,3,5) by (intro conjunct2 [OF search]) (auto simp: min_def)
  next
    case False
    then have lt: "min start l < max fin f" by linarith
    then have "search_left_loop env (max fin f) (min start l) cursor_init = Some (- 1)" by (rule search_past)
    then show ?thesis using lt by (simp add: search_in_data_range_def search_in_data_left_def linear_past(2) del: min_less_iff_disj less_max_iff_disj)
  qed
  ultimately show "szb_search_data env val f l start fin (- 1) = Some (linear_left P fin start)"
    unfolding L by (simp add: szb_search_data_def linear_past)
qed

subsection \<open>Properties\<close>

text \<open>C5. The search of a parameter loses nothing. \<open>szb_search_data\<close> looks only between the dates that
  \<open>szb_search_first\<close> and \<open>szb_search_last\<close> take from the names and sizes of the parameter's files; still, when
  the directory lists the files of the parameter, it finds in both directions the first time at which
  the probe stored in the data base meets the condition, as looking at every
  slot of the whole range would, and -1 if there is none.\<close>

theorem real_search_complete:
  assumes "reads_well benv" "\<And>a b. be_join benv a b = a @ [ch_slash] @ b" "be_name benv = cname sp" "cname sp \<noteq> []"
    and "listed env (be_root benv) sp (be_files benv)"
    and "\<not> cond FNaN" "start mod 600 = 0" "fin \<noteq> - 1" "\<forall>t. min start fin \<le> t \<and> t \<le> max start fin \<longrightarrow> dated t"
  shows "\<exists>l. szb_search_last env get (P_REAL (cname sp)) = Some l \<and>
    szb_search_data (file_search benv cond) val (szb_search_first env (cname sp)) l start fin 1 =
      Some (linear_right (\<lambda>t. cond (stored_value benv sp t)) fin start) \<and>
    szb_search_data (file_search benv cond) val (szb_search_first env (cname sp)) l start fin (- 1) =
      Some (linear_left (\<lambda>t. cond (stored_value benv sp t)) fin start)"
proof -
  let ?P = "\<lambda>t. cond (stored_value benv sp t)" and ?f = "szb_search_first env (cname sp)"
  have data: "\<exists>l. last_of_files env (cname sp) = Some l \<and> ?f \<le> t \<and> t < l + 600 \<and> l mod 600 = 0 \<and> ?f mod 600 = 0" if "dated t" "?P t" for t
  proof -
    have "get_probe (be_root benv) (sp, be_files benv) t \<noteq> SZARP_NO_DATA"
      using that(2) assms(6) by (auto simp: stored_value_def real_cell_def)
    then show ?thesis by (rule data_in_range [OF assms(5) \<open>dated t\<close>]) (intro exI conjI)
  qed
  from range_cases [OF assms(5)] show ?thesis
  proof cases
    case 1
    have np: "\<not> ?P t" if "min start fin \<le> t" "t \<le> max start fin" for t
      using data [of t] that assms(9) 1(2) by auto
    have "linear_right ?P fin start = - 1" by (rule linear_none(1) [OF assms(7)]) (rule np)
    moreover have "linear_left ?P fin start = - 1" by (rule linear_none(2) [OF assms(7)]) (rule np)
    ultimately
    show ?thesis using 1 by (simp add: szb_search_data_def adjust_search_boundaries_def)
  next
    case (2 l)
    have b: "?f \<le> t \<and> t \<le> l" if t: "min start fin \<le> t" "t \<le> max start fin" "t mod 600 = 0" "?P t" for t
    proof -
      have "?f \<le> t" "t < l + 600" using data [of t] t assms(9) 2(1) by auto
      then show ?thesis using aligned_next [OF 2(2) t(3)] by linarith
    qed
    have s: "search_in_data_range (file_search benv cond) val s e 1 = Some (linear_right ?P e s) \<and>
      search_in_data_range (file_search benv cond) val s e (- 1) = Some (linear_left ?P e s)"
      if "s mod 600 = 0" "\<forall>t. min s e \<le> t \<and> t \<le> max s e \<longrightarrow> dated t" for s e
      using search_files_linear [where cond = cond, OF assms(1-4,6) that] .
    have "szb_search_data (file_search benv cond) val ?f l start fin 1 = Some (linear_right ?P fin start)"
      by (rule searched_between(1) [where ok = dated]) (fact assms(7-9) 2(2,3) | erule (1) s | erule (3) b)+
    moreover have "szb_search_data (file_search benv cond) val ?f l start fin (- 1) = Some (linear_left ?P fin start)"
      by (rule searched_between(2) [where ok = dated]) (fact assms(7-9) 2(2,3) | erule (1) s | erule (3) b)+
    ultimately show ?thesis using 2(1) by simp
  qed
qed

text \<open>A data base of one file, that of September 2001 with one probe.\<close>

definition demo_files :: files where
  "demo_files = (\<lambda>p. if p = target_path (TSaveParam [65]) [100] 2001 9 600 then Some [5] else None)"

definition demo_range :: range_env where
  "demo_range = \<lparr>re_stem = take 6, re_dir = (\<lambda>_. Some [[46], month_file 2001 9]), re_size = (\<lambda>_ _. Some 2), re_meaner = 0\<rparr>"

lemma demo_listed: "listed demo_range [100] (TSaveParam [65]) demo_files"
proof -
  let ?sp = "TSaveParam [65]"
  have n: "cname ?sp \<noteq> []" by (simp add: TSaveParam_def wchar2szb_def)
  have ok: "month_ok 2001 9" by (simp add: month_ok_def)
  have "szb_probecnt 2001 9 = Some 4320" by code_simp
  have t: "target_path ?sp [100] y m 600 = target_path ?sp [100] 2001 9 600 \<longleftrightarrow> (y, m) = (2001, 9)" if "month_ok y m" for y m
    by (rule target_path_inj [OF n refl that ok])
  have d: "\<not> is_szb_file_name [46]" by (simp add: is_szb_file_name_def wat_def iswdigit_def)
  have f: "month_file y m = month_file 2001 9 \<longleftrightarrow> (y, m) = (2001, 9)" "month_file y m \<noteq> [46]" if "month_ok y m" for y m
    using date_digits_inj [OF _ that ok] month_file_szb [of y m] d by (auto simp: month_file_def)
  have "\<exists>y m. month_ok y m \<and> 0 < y \<and> month_file 2001 9 = month_file y m" using ok by (intro exI [of _ 2001] exI [of _ 9]) simp
  moreover have "take 6 (month_file y m) = digits_of 4 y @ digits_of 2 m" for y m by (simp add: month_file_def)
  ultimately show ?thesis
    unfolding listed_def using t f d ok \<open>szb_probecnt 2001 9 = Some 4320\<close>
    by (auto simp: demo_range_def demo_files_def split: if_splits)
qed

theorem real_search_complete_witness:
  "\<exists>l. szb_search_last demo_range (\<lambda>_ _. FNaN) (P_REAL (cname (TSaveParam [65]))) = Some l \<and>
    szb_search_data (file_search (demo_env\<lparr>be_name := cname (TSaveParam [65]), be_files := demo_files\<rparr>) (\<lambda>v. v \<noteq> FNaN)) (\<lambda>_. FNaN)
      (szb_search_first demo_range (cname (TSaveParam [65]))) l 999302400 999302400 1 = Some 999302400"
proof -
  let ?sp = "TSaveParam [65]" and ?t = "999302400"
  let ?env = "demo_env\<lparr>be_name := cname ?sp, be_files := demo_files\<rparr>"
  have d: "dated ?t" "time2my ?t = Inr (2001, 9)" "szb_probeind ?t 600 = Some 0" "time2my 1000502400 = Inr (2001, 9)" by code_simp+
  then have "reads_well ?env" by (simp add: reads_well_def demo_env_def)
  moreover have "cname ?sp \<noteq> []" by (simp add: TSaveParam_def wchar2szb_def)
  moreover have "\<forall>t. min ?t ?t \<le> t \<and> t \<le> max ?t ?t \<longrightarrow> dated t" using d(1) by auto
  moreover have "listed demo_range (be_root ?env) ?sp (be_files ?env)" using demo_listed by (simp add: demo_env_def)
  moreover have "be_join ?env a b = a @ [ch_slash] @ b" for a b by (simp add: demo_env_def)
  ultimately obtain l where l: "szb_search_last demo_range (\<lambda>_ _. FNaN) (P_REAL (cname ?sp)) = Some l"
    "szb_search_data (file_search ?env (\<lambda>v. v \<noteq> FNaN)) (\<lambda>_. FNaN) (szb_search_first demo_range (cname ?sp)) l ?t ?t 1 =
      Some (linear_right (\<lambda>t. stored_value ?env ?sp t \<noteq> FNaN) ?t ?t)"
    using real_search_complete [of ?env ?sp demo_range "\<lambda>v. v \<noteq> FNaN" ?t ?t "\<lambda>_ _. FNaN" "\<lambda>_. FNaN"] by auto
  have "get_probe [100] (?sp, demo_files) ?t = 5" using d(2,3) by (simp add: get_probe_def probe_at_def demo_files_def)
  then have "stored_value ?env ?sp ?t \<noteq> FNaN"
    using real_cell_not_NaN [of "Fin 10" 10 5] by (auto simp: stored_value_def demo_env_def real_cell_def SZARP_NO_DATA_def)
  then have "linear_right (\<lambda>t. stored_value ?env ?sp t \<noteq> FNaN) ?t ?t = ?t" by (simp add: linear_right.simps)
  with l show ?thesis by auto
qed

end
