(* ===== verification/Szb_Avg.thy ===== *)
theory Szb_Avg
  imports Szb_Block
begin

text \<open>
  Reading values and averages, \<open>szbase/szbbuf.cc\<close>: \<open>szb_get_data\<close>, \<open>szb_get_avg_data\<close> over the blocks of
  ten-minute data, \<open>szb_get_avg_probe\<close> over the blocks of ten-second data, \<open>szb_get_avg\<close> and
  \<open>szb_get_probe\<close>. The functions that fetch blocks are arguments, as are the value of a constant
  parameter and the dates of its first and last data; averaging Lua parameters are left out.
  A value that was not written through the pointers \<open>first\<close> and \<open>last\<close> is \<open>None\<close>.
\<close>

record probeblock =
  pb_data :: "fp list"
  pb_fixed :: int
  pb_start :: time_t

record avg_env =
  ae_zone :: zone
  ae_block :: "int \<Rightarrow> int \<Rightarrow> datablock option"
  ae_probe :: "time_t \<Rightarrow> probeblock option"
  ae_const :: "fp option"
  ae_first :: time_t
  ae_last :: time_t

record avg_acc =
  ac_sum :: fp
  ac_count :: int
  ac_first :: "fp option"
  ac_last :: "fp option"
  ac_fixed :: bool

definition acc_init :: avg_acc where
  "acc_init = \<lparr>ac_sum = Fin 0, ac_count = 0, ac_first = None, ac_last = None, ac_fixed = True\<rparr>"

definition szb_get_data :: "avg_env \<Rightarrow> time_t \<Rightarrow> fp option" where
  "szb_get_data env t =
     (case ae_const env of
        Some v \<Rightarrow> Some (if t \<ge> ae_first env \<and> t \<le> ae_last env then v else FNaN)
      | None \<Rightarrow> (case time2my t of Inl _ \<Rightarrow> None
        | Inr (y, m) \<Rightarrow> do {
            index \<leftarrow> szb_probeind t 600;
            if index < 0 then None
            else case ae_block env y m of None \<Rightarrow> Some FNaN
              | Some b \<Rightarrow> do { c \<leftarrow> c_index (GetData_cells b) index; c } }))"

text \<open>The body of the scans.\<close>

definition add_value :: "fp \<Rightarrow> avg_acc \<Rightarrow> avg_acc" where
  "add_value v acc =
     (if v = FNaN then acc
      else
        let acc = acc\<lparr>ac_sum := fadd float64 (ac_sum acc) v, ac_count := ac_count acc + 1, ac_last := Some v\<rparr> in
        if ac_count acc = 1 then acc\<lparr>ac_first := Some v\<rparr> else acc)"

definition NOT_FIXED :: "bool \<Rightarrow> avg_acc \<Rightarrow> avg_acc" where
  "NOT_FIXED c acc = (if c then acc\<lparr>ac_fixed := False\<rparr> else acc)"

function scan_block :: "fp option list \<Rightarrow> int \<Rightarrow> time_t \<Rightarrow> int \<Rightarrow> time_t \<Rightarrow> avg_acc \<Rightarrow> avg_acc option" where
  "scan_block cells ldi fin i t acc =
     (if i \<le> ldi \<and> t < fin then
        (case c_index cells i of Some (Some v) \<Rightarrow> scan_block cells ldi fin (i + 1) (t + SZBASE_DATA_SPAN) (add_value v acc)
         | _ \<Rightarrow> None)
      else Some acc)"
  by auto
termination
  by (relation "measure (\<lambda>(cells, ldi, fin, i, t, acc). nat (ldi + 1 - i))") auto

definition avg_month :: "avg_env \<Rightarrow> time_t \<Rightarrow> time_t \<Rightarrow> avg_acc \<Rightarrow> (time_t \<times> avg_acc) option" where
  "avg_month env fin t acc = (case time2my t of Inl _ \<Rightarrow> None
     | Inr (y, m) \<Rightarrow> do {
         probe \<leftarrow> szb_probeind t 600;
         mx \<leftarrow> szb_probecnt y m;
         acc \<leftarrow> (case ae_block env y m of None \<Rightarrow> Some acc
            | Some b \<Rightarrow>
              scan_block (GetData_cells b) (db_last b) fin probe t
                (NOT_FIXED (db_fixed b < db_max b \<and> fin > probe2time (db_fixed b - 1) (db_year b) (db_month b)) acc));
         Some (probe2time 0 y m + mx * SZBASE_DATA_SPAN, acc) })"

partial_function (option) avg_data_loop :: "avg_env \<Rightarrow> time_t \<Rightarrow> time_t \<Rightarrow> avg_acc \<Rightarrow> avg_acc option" where
  "avg_data_loop env fin t acc =
     (if t < fin then
        (case avg_month env fin t acc of None \<Rightarrow> None
         | Some (t', acc') \<Rightarrow> avg_data_loop env fin t' acc')
      else Some acc)"

definition avg_const :: "avg_env \<Rightarrow> fp \<Rightarrow> time_t \<Rightarrow> time_t \<Rightarrow> avg_acc \<Rightarrow> avg_acc" where
  "avg_const env v start fin acc =
     (let fin = (if fin > ae_last env then ae_last env else fin);
          start = (if start < ae_first env then ae_first env else start) in
      if start \<le> fin then
        let n = c_int ((fin - start) sdiv SZBASE_DATA_SPAN) in
        acc\<lparr>ac_count := n, ac_sum := fmul float64 v (of_int_fp float64 n), ac_first := Some v, ac_last := Some v\<rparr>
      else acc\<lparr>ac_first := Some FNaN, ac_last := Some FNaN, ac_sum := FNaN, ac_count := 0\<rparr>)"

definition szb_get_avg_data :: "avg_env \<Rightarrow> time_t \<Rightarrow> time_t \<Rightarrow> avg_acc \<Rightarrow> avg_acc option" where
  "szb_get_avg_data env start fin acc = (case ae_const env of
     Some v \<Rightarrow> Some (avg_const env v start fin acc)
   | None \<Rightarrow> avg_data_loop env fin start acc)"

function scan_probes :: "fp list \<Rightarrow> time_t \<Rightarrow> int \<Rightarrow> time_t \<Rightarrow> avg_acc \<Rightarrow> avg_acc option" where
  "scan_probes data fin i t acc =
     (if t < fin \<and> i < SZBASE_PROBES_IN_BLOCK then
        (case c_index data i of None \<Rightarrow> None
         | Some v \<Rightarrow> scan_probes data fin (i + 1) (t + SZBASE_PROBE_SPAN) (add_value v acc))
      else Some acc)"
  by auto
termination
  by (relation "measure (\<lambda>(data, fin, i, t, acc). nat (SZBASE_PROBES_IN_BLOCK - i))") auto

function szb_get_avg_probe :: "avg_env \<Rightarrow> time_t \<Rightarrow> time_t \<Rightarrow> avg_acc \<Rightarrow> avg_acc option" where
  "szb_get_avg_probe env start fin acc =
     (if start < fin then
        let block_start = szb_round_to_probe_block_start start;
            probe = c_int ((start - block_start) sdiv SZBASE_PROBE_SPAN) in
        (case (case ae_probe env block_start of None \<Rightarrow> Some acc
           | Some b \<Rightarrow>
             scan_probes (pb_data b) fin probe start
               (NOT_FIXED (pb_fixed b < SZBASE_PROBES_IN_BLOCK \<and> pb_fixed b * SZBASE_PROBE_SPAN + pb_start b < fin) acc)) of
           None \<Rightarrow> None
         | Some acc' \<Rightarrow> szb_get_avg_probe env (start + SZBASE_PROBES_IN_BLOCK * SZBASE_PROBE_SPAN) fin acc')
      else Some acc)"
  by auto
termination
  by (relation "measure (\<lambda>(env, start, fin, acc). nat (fin - start))") (auto simp: szb_consts)

declare scan_block.simps [simp del] scan_probes.simps [simp del] szb_get_avg_probe.simps [simp del]

text \<open>The result, and what is stored through the pointers.\<close>

record avg_result =
  ar_value :: fp
  ar_sum :: fp
  ar_count :: int
  ar_first :: "fp option"
  ar_last :: "fp option"
  ar_fixed :: bool

definition szb_get_avg :: "avg_env \<Rightarrow> time_t \<Rightarrow> time_t \<Rightarrow> SZARP_PROBE_TYPE \<Rightarrow> avg_result option" where
  "szb_get_avg env start fin probe_type = do {
     acc \<leftarrow> (if probe_type = PT_SEC10 then szb_get_avg_probe env start fin acc_init else szb_get_avg_data env start fin acc_init);
     Some (if ac_count acc \<le> 0
           then \<lparr>ar_value = FNaN, ar_sum = FNaN, ar_count = 0, ar_first = Some FNaN, ar_last = Some FNaN, ar_fixed = ac_fixed acc\<rparr>
           else \<lparr>ar_value = fdiv float64 (ac_sum acc) (of_int_fp float64 (ac_count acc)), ar_sum = ac_sum acc,
             ar_count = ac_count acc, ar_first = ac_first acc, ar_last = ac_last acc, ar_fixed = ac_fixed acc\<rparr>) }"

definition szb_get_probe :: "avg_env \<Rightarrow> time_t \<Rightarrow> SZARP_PROBE_TYPE \<Rightarrow> int \<Rightarrow> fp option" where
  "szb_get_probe env t probe custom_probe =
     (let s = szb_round_time (ae_zone env) t probe custom_probe; e = szb_move_time (ae_zone env) s 1 probe custom_probe in
      map_option ar_value (szb_get_avg env s e probe))"

subsection \<open>Slots\<close>

function slots :: "int \<Rightarrow> time_t \<Rightarrow> time_t \<Rightarrow> time_t list" where
  "slots d fin t = (if 0 < d \<and> t < fin then t # slots d fin (t + d) else [])"
  by auto
termination by (relation "measure (\<lambda>(d, fin, t). nat (fin - t))") auto

declare slots.simps [simp del]

lemma slots_Nil [simp]: "fin \<le> t \<Longrightarrow> slots d fin t = []"
  by (simp add: slots.simps)

lemma slots_Cons: "0 < d \<Longrightarrow> t < fin \<Longrightarrow> slots d fin t = t # slots d fin (t + d)"
  by (simp add: slots.simps)

lemma slots_set: "s \<in> set (slots d fin t) \<Longrightarrow> \<exists>k. s = t + int k * d \<and> s < fin"
proof (induction d fin t rule: slots.induct)
  case (1 d fin t)
  show ?case
  proof (cases "0 < d \<and> t < fin \<and> s \<noteq> t")
    case True
    then obtain k where "s = t + d + int k * d" "s < fin" using 1 by (auto simp: slots_Cons)
    then show ?thesis by (intro exI [of _ "Suc k"]) (simp add: algebra_simps)
  next
    case False
    then show ?thesis using 1(2) by (auto simp: slots.simps [of d fin t] split: if_splits intro: exI [of _ 0])
  qed
qed

lemma slots_split:
  assumes "0 < d" "e = t + int k * d"
  shows "slots d fin t = slots d (min fin e) t @ slots d fin e"
  using assms
proof (induction k arbitrary: t)
  case (Suc k)
  then have "slots d fin (t + d) = slots d (min fin e) (t + d) @ slots d fin e" by (simp add: algebra_simps)
  then show ?case using Suc.prems by (cases "t < fin") (simp_all add: slots_Cons)
qed simp

subsection \<open>Reference\<close>

definition slot_value :: "avg_env \<Rightarrow> time_t \<Rightarrow> fp" where
  "slot_value env t = (case time2my t of Inl _ \<Rightarrow> FNaN
     | Inr (y, m) \<Rightarrow> (case ae_block env y m of None \<Rightarrow> FNaN
       | Some b \<Rightarrow> cell_value (GetData_cells b ! nat (the (szb_probeind t 600)))))"

text \<open>The block of the month of a time is not complete, and ends before the end of the range.\<close>

definition slot_open :: "avg_env \<Rightarrow> time_t \<Rightarrow> time_t \<Rightarrow> bool" where
  "slot_open env fin t = (case time2my t of Inl _ \<Rightarrow> False
     | Inr (y, m) \<Rightarrow> (case ae_block env y m of None \<Rightarrow> False
       | Some b \<Rightarrow> db_fixed b < db_max b \<and> fin > probe2time (db_fixed b - 1) (db_year b) (db_month b)))"

definition add_slot :: "(time_t \<Rightarrow> fp) \<Rightarrow> (time_t \<Rightarrow> bool) \<Rightarrow> avg_acc \<Rightarrow> time_t \<Rightarrow> avg_acc" where
  "add_slot val opn acc t = add_value (val t) (NOT_FIXED (opn t) acc)"

text \<open>Blocks whose cells are written up to the last data and hold none after it.\<close>

definition cells_ok :: "int \<Rightarrow> int \<Rightarrow> datablock \<Rightarrow> bool" where
  "cells_ok y m b \<longleftrightarrow> szb_probecnt y m = Some (db_max b) \<and> db_max b \<le> int (length (GetData_cells b)) \<and> db_last b < db_max b \<and>
     (\<forall>i < nat (db_max b). if int i \<le> db_last b then GetData_cells b ! i \<noteq> None else cell_value (GetData_cells b ! i) = FNaN)"

definition blocks_ok :: "avg_env \<Rightarrow> bool" where
  "blocks_ok env \<longleftrightarrow> (\<forall>y m b. month_ok y m \<and> ae_block env y m = Some b \<longrightarrow> cells_ok y m b)"

lemma add_value_NaN [simp]: "add_value FNaN acc = acc"
  by (simp add: add_value_def)

lemma NOT_FIXED_simps [simp]:
  "NOT_FIXED False acc = acc" "NOT_FIXED c (NOT_FIXED c acc) = NOT_FIXED c acc"
  "NOT_FIXED c (add_value v acc) = add_value v (NOT_FIXED c acc)"
  by (simp_all add: NOT_FIXED_def add_value_def Let_def)

lemma fold_same_block:
  assumes "\<forall>t \<in> set ts. opn t = c" "ts \<noteq> []"
  shows "foldl (add_slot val opn) acc ts = foldl (\<lambda>a t. add_value (val t) a) (NOT_FIXED c acc) ts"
  using assms
proof (induction ts arbitrary: acc)
  case (Cons t ts)
  then show ?case by (cases "ts = []") (simp_all add: add_slot_def)
qed simp

lemma fold_no_values: "\<forall>t \<in> set ts. val t = FNaN \<Longrightarrow> foldl (\<lambda>a t. add_value (val t) a) acc ts = acc"
  by (induction ts) simp_all

lemma slot_in_month:
  assumes "month_ok y m" "szb_probecnt y m = Some n" "0 \<le> p" "ae_block env y m = Some b"
    and "t \<in> set (slots 600 (min fin (month_end y m)) (month_start y m + p * 600))"
  obtains i where "p \<le> i" "i < n" "t = month_start y m + i * 600" "t < fin" "time2my t = Inr (y, m)" "szb_probeind t 600 = Some i"
proof -
  obtain k where k: "t = month_start y m + p * 600 + int k * 600" "t < min fin (month_end y m)" using slots_set [OF assms(5)] by auto
  then have t: "t = month_start y m + (p + int k) * 600" by (simp add: algebra_simps)
  have lt: "p + int k < n" using k(2) assms(2) t by (simp add: month_end_def)
  show thesis using that [of "p + int k"] k(2) t lt month_slots [OF assms(1,2), of "p + int k"] assms(3) by simp
qed

lemma scan_block_slots:
  assumes "month_ok y m" "ae_block env y m = Some b" "cells_ok y m b" "0 \<le> p" "p \<le> db_max b"
  shows "scan_block (GetData_cells b) (db_last b) fin p (month_start y m + p * 600) acc =
    Some (foldl (\<lambda>a t. add_value (slot_value env t) a) acc (slots 600 (min fin (month_end y m)) (month_start y m + p * 600)))"
  using assms(4,5)
proof (induction "nat (db_max b - p)" arbitrary: p acc)
  case (Suc k)
  let ?t = "month_start y m + p * 600" and ?e = "min fin (month_end y m)"
  have n: "szb_probecnt y m = Some (db_max b)" "p < db_max b" using assms(3) Suc(2) by (auto simp: cells_ok_def)
  have v: "slot_value env (month_start y m + i * 600) = cell_value (GetData_cells b ! nat i)" if "0 \<le> i" "i < db_max b" for i
    using month_slots [OF assms(1) n(1) that] assms(2) by (simp add: slot_value_def)
  consider (stop) "fin \<le> ?t" | (past) "db_last b < p" | (cell) "?t < fin" "p \<le> db_last b" by linarith
  then show ?case
  proof cases
    case stop
    then show ?thesis by (simp add: scan_block.simps)
  next
    case past
    have "slot_value env t = FNaN" if "t \<in> set (slots 600 ?e ?t)" for t
    proof -
      obtain i where i: "p \<le> i" "i < db_max b" "t = month_start y m + i * 600"
        using slot_in_month [OF assms(1) n(1) Suc(3) assms(2) \<open>t \<in> _\<close>] by blast
      have "nat i < nat (db_max b)" "\<not> int (nat i) \<le> db_last b" using i Suc(3) past by linarith+
      then have "cell_value (GetData_cells b ! nat i) = FNaN" using assms(3) unfolding cells_ok_def by metis
      then show ?thesis using v [of i] i Suc(3) by simp
    qed
    then have "foldl (\<lambda>a t. add_value (slot_value env t) a) acc (slots 600 ?e ?t) = acc" by (intro fold_no_values ballI)
    then show ?thesis using past by (simp add: scan_block.simps)
  next
    case cell
    have "nat p < nat (db_max b)" "int (nat p) \<le> db_last b" using n(2) cell(2) Suc(3) by linarith+
    then obtain c where c: "GetData_cells b ! nat p = Some c" using assms(3) unfolding cells_ok_def by fastforce
    have ci: "c_index (GetData_cells b) p = Some (Some c)" using c n(2) Suc(3) assms(3) by (auto simp: c_index_def cells_ok_def)
    have e: "?t < ?e" using cell(1) n by (simp add: month_end_def)
    have "scan_block (GetData_cells b) (db_last b) fin (p + 1) (month_start y m + (p + 1) * 600) (add_value c acc) =
      Some (foldl (\<lambda>a t. add_value (slot_value env t) a) (add_value c acc) (slots 600 ?e (month_start y m + (p + 1) * 600)))"
      using Suc(2-4) n(2) by (intro Suc(1)) auto
    then show ?thesis
      using cell ci e v [of p] c n(2) Suc(3) by (simp add: scan_block.simps [of _ _ _ p] slots_Cons SZBASE_DATA_SPAN_def algebra_simps)
  qed
next
  case 0
  then have "p = db_max b" using assms(3) by (auto simp: cells_ok_def)
  then show ?case using assms(3) by (auto simp: scan_block.simps cells_ok_def month_end_def)
qed

lemma avg_month_slots:
  assumes "blocks_ok env" "ok_time t" "t mod 600 = 0" "t < fin"
  obtains e k where "avg_month env fin t acc = Some (e, foldl (add_slot (slot_value env) (slot_open env fin)) acc (slots 600 (min fin e) t))" "e = t + int (Suc k) * 600" "e mod 600 = 0"
proof -
  obtain y m n p where s: "time2my t = Inr (y, m)" "month_ok y m" "szb_probecnt y m = Some n" "szb_probeind t 600 = Some p"
    "0 \<le> p" "p < n" "t = month_start y m + p * 600" "t < month_end y m" "month_end y m = month_start y m + n * 600"
    by (rule aligned_slot [OF assms(2,3)])
  let ?e = "month_end y m"
  have e: "probe2time 0 y m + n * SZBASE_DATA_SPAN = ?e" using slot_time [OF s(2,3), of 0] s(5,6,9) by (simp add: SZBASE_DATA_SPAN_def)
  have k: "?e = t + int (Suc (nat (n - p - 1))) * 600" using s(5-7,9) by (simp add: algebra_simps)
  have m: "?e mod 600 = 0" using k assms(3) mod_600_shift(1) [of t "Suc (nat (n - p - 1))"] by simp
  let ?ts = "slots 600 (min fin ?e) t"
  have ne: "?ts \<noteq> []" "min fin ?e > t" using assms(4) s(8) by (simp_all add: slots_Cons)
  have "avg_month env fin t acc = Some (?e, foldl (add_slot (slot_value env) (slot_open env fin)) acc ?ts)"
  proof (cases "ae_block env y m")
    case None
    have "slot_value env u = FNaN \<and> \<not> slot_open env fin u" if u: "u \<in> set ?ts" for u
    proof -
      obtain j where j: "u = t + int j * 600" "u < min fin ?e" using slots_set [OF u] by auto
      then have u: "u = month_start y m + (p + int j) * 600" "p + int j < n" using s(7,9) by (simp_all add: algebra_simps)
      then have "time2my u = Inr (y, m)" using month_slots(1) [OF s(2,3), of "p + int j"] s(5) by simp
      then show ?thesis using None by (simp add: slot_value_def slot_open_def)
    qed
    then have "foldl (add_slot (slot_value env) (slot_open env fin)) acc ?ts = acc"
      using fold_same_block [of ?ts "slot_open env fin" False "slot_value env" acc] fold_no_values [of ?ts "slot_value env" acc] ne(1) by simp
    then show ?thesis using None s(1,3,4) e by (simp add: avg_month_def)
  next
    case (Some b)
    have ok: "cells_ok y m b" using assms(1) s(2) Some by (simp add: blocks_ok_def)
    then have n: "n = db_max b" using s(3) by (simp add: cells_ok_def)
    let ?c = "db_fixed b < db_max b \<and> fin > probe2time (db_fixed b - 1) (db_year b) (db_month b)"
    have "slot_open env fin u = ?c" if u: "u \<in> set ?ts" for u
    proof -
      have "time2my u = Inr (y, m)" by (rule slot_in_month [OF s(2,3,5) Some u [unfolded s(7)]])
      then show ?thesis using Some by (simp add: slot_open_def)
    qed
    then have "foldl (add_slot (slot_value env) (slot_open env fin)) acc ?ts = foldl (\<lambda>a t. add_value (slot_value env t) a) (NOT_FIXED ?c acc) ?ts"
      by (intro fold_same_block ballI ne(1))
    then show ?thesis using scan_block_slots [OF s(2) Some ok s(5), of fin "NOT_FIXED ?c acc"] s(1,3,4,6,7) e n Some by (simp add: avg_month_def)
  qed
  then show thesis using k m by (rule that)
qed

lemma avg_data_loop_slots:
  assumes "blocks_ok env" "t mod 600 = 0" "\<forall>u. t \<le> u \<and> u < fin \<longrightarrow> ok_time u"
  shows "avg_data_loop env fin t acc = Some (foldl (add_slot (slot_value env) (slot_open env fin)) acc (slots 600 fin t))"
  using assms(2,3)
proof (induction "nat (fin - t)" arbitrary: t acc rule: less_induct)
  case less
  show ?case
  proof (cases "t < fin")
    case True
    then have "ok_time t" using less(3) by simp
    then obtain e k where a: "avg_month env fin t acc = Some (e, foldl (add_slot (slot_value env) (slot_open env fin)) acc (slots 600 (min fin e) t))"
      "e = t + int (Suc k) * 600" "e mod 600 = 0"
      using avg_month_slots [OF assms(1) _ less(2) True] by metis
    have "avg_data_loop env fin e (foldl (add_slot (slot_value env) (slot_open env fin)) acc (slots 600 (min fin e) t)) =
      Some (foldl (add_slot (slot_value env) (slot_open env fin)) (foldl (add_slot (slot_value env) (slot_open env fin)) acc (slots 600 (min fin e) t)) (slots 600 fin e))"
      using less(3) a(2,3) True by (intro less(1)) auto
    moreover have "slots 600 fin t = slots 600 (min fin e) t @ slots 600 fin e" using slots_split [of 600 e t "Suc k" fin] a(2) by simp
    ultimately show ?thesis using True a(1) by (simp add: avg_data_loop.simps [of env fin t])
  qed (simp add: avg_data_loop.simps)
qed

definition with_data :: "fp list \<Rightarrow> fp list" where
  "with_data vs = filter (\<lambda>v. v \<noteq> FNaN) vs"

lemma with_data_simps [simp]: "with_data [] = []" "with_data (vs @ ws) = with_data vs @ with_data ws"
  "with_data (v # vs) = (if v = FNaN then with_data vs else v # with_data vs)"
  by (simp_all add: with_data_def)

lemma fold_values:
  fixes val opn ts
  defines "vs \<equiv> with_data (map val ts)"
  shows "foldl (add_slot val opn) acc_init ts = \<lparr>ac_sum = foldl (fadd float64) (Fin 0) vs, ac_count = int (length vs),
    ac_first = (if vs = [] then None else Some (hd vs)), ac_last = (if vs = [] then None else Some (last vs)),
    ac_fixed = list_all (\<lambda>t. \<not> opn t) ts\<rparr>"
  unfolding vs_def
proof (induction ts rule: rev_induct)
  case Nil
  show ?case by (simp add: acc_init_def)
next
  case (snoc t ts)
  then show ?case by (simp add: add_slot_def add_value_def NOT_FIXED_def Let_def)
qed

lemma szb_get_avg_slots:
  assumes "blocks_ok env" "start mod 600 = 0" "\<forall>u. start \<le> u \<and> u < fin \<longrightarrow> ok_time u" "probe_type \<noteq> PT_SEC10" "ae_const env = None"
  defines "vs \<equiv> with_data (map (slot_value env) (slots 600 fin start))"
  shows "szb_get_avg env start fin probe_type = Some (
    if vs = [] then \<lparr>ar_value = FNaN, ar_sum = FNaN, ar_count = 0, ar_first = Some FNaN, ar_last = Some FNaN,
      ar_fixed = list_all (\<lambda>t. \<not> slot_open env fin t) (slots 600 fin start)\<rparr>
    else \<lparr>ar_value = fdiv float64 (foldl (fadd float64) (Fin 0) vs) (of_int_fp float64 (int (length vs))),
      ar_sum = foldl (fadd float64) (Fin 0) vs, ar_count = int (length vs), ar_first = Some (hd vs), ar_last = Some (last vs),
      ar_fixed = list_all (\<lambda>t. \<not> slot_open env fin t) (slots 600 fin start)\<rparr>)"
  using avg_data_loop_slots [OF assms(1-3), of acc_init] assms(4,5)
  by (simp add: szb_get_avg_def szb_get_avg_data_def fold_values vs_def)

subsection \<open>Averages of files\<close>

lemma holds_cells_ok:
  assumes "block_holds cs b" "szb_probecnt y m = Some (db_max b)"
  shows "cells_ok y m b" "\<forall>i < nat (db_max b). GetData_cells b ! i \<noteq> None"
proof -
  let ?d = "map (Some \<circ> cell_value) cs @ replicate (nat (db_max b) - length cs) (Some FNaN)"
  have b: "int (length cs) \<le> db_max b" "GetData_cells b = ?d" "db_last b = last_idx 0 cs (- 1)"
    using assms(1) by (simp_all add: block_holds_def GetData_cells_def)
  have v: "GetData_cells b ! i = Some (if i < length cs then cell_value (cs ! i) else FNaN)" if "i < nat (db_max b)" for i
    using that by (auto simp: b(2) nth_append)
  then show "\<forall>i < nat (db_max b). GetData_cells b ! i \<noteq> None" by simp
  have l: "int (length (GetData_cells b)) = db_max b" using b(1) by (simp add: b(2))
  have "0 \<le> db_max b" using b(1) by linarith
  from last_idx_bounds [of cs 0 "- 1"] have "db_last b < db_max b \<and> (\<forall>i < length cs. db_last b < int i \<longrightarrow> cs ! i = None)"
    using b(1,3) \<open>0 \<le> db_max b\<close> by (auto simp: list_all_length)
  then show "cells_ok y m b" using assms(2) l v unfolding cells_ok_def by (auto simp: not_le)
qed

lemma real_block_cells:
  assumes "reads_well env" "month_ok y m" "RealDatablock env y m = Some b"
  shows "cells_ok y m b" "\<forall>i < nat (db_max b). GetData_cells b ! i \<noteq> None" "szb_probecnt y m = Some (db_max b)"
proof -
  obtain n where n: "szb_probecnt y m = Some n" "0 < n" "n \<le> 4464" using szb_probecnt_bounds [OF assms(2)] by auto
  have y: "0 < y" using assms(3) by (cases "0 < y") (simp_all add: RealDatablock_def szb_datablock_def n)
  show "cells_ok y m b" "\<forall>i < nat (db_max b). GetData_cells b ! i \<noteq> None" "szb_probecnt y m = Some (db_max b)"
  proof (atomize (full), cases "block_file env y m")
    case None
    obtain ly lm where "time2my (be_last env) = Inr (ly, lm)" using assms(1) by (auto simp: reads_well_def)
    then have b: "db_max b = n" "db_data b = None" "db_last b = - 1"
      using assms(3) None y n assms(2) by (auto simp: RealDatablock_def szb_datablock_def month_ok_def Let_def split: if_splits)
    then have "GetData_cells b = replicate 4500 (Some FNaN)" by (simp add: GetData_cells_def MAX_PROBES_def)
    then show "cells_ok y m b \<and> (\<forall>i<nat (db_max b). GetData_cells b ! i \<noteq> None) \<and> szb_probecnt y m = Some (db_max b)"
      using n b by (simp add: cells_ok_def)
  next
    case (Some f)
    have "be_open env" "plain (be_reads env)" using assms(1) by (simp_all add: reads_well_def)
    then have "block_holds (map (real_cell (be_pw env)) (take (nat n) f)) b" "db_max b = n"
      using RealDatablock_take [OF assms(2) y Some n(1)] assms(3) by auto
    then show "cells_ok y m b \<and> (\<forall>i<nat (db_max b). GetData_cells b ! i \<noteq> None) \<and> szb_probecnt y m = Some (db_max b)"
      using holds_cells_ok n(1) by simp
  qed
qed

lemma slot_value_stored:
  assumes "reads_well benv" "\<And>a b. be_join benv a b = a @ [ch_slash] @ b" "be_name benv = cname sp" "cname sp \<noteq> []"
    and "ae_block env = RealDatablock benv" "dated t"
  shows "slot_value env t = stored_value benv sp t"
proof -
  let ?x = "stored_value benv sp t"
  have "holds \<lparr>se_get = file_fetch benv, se_stop = (\<lambda>_ _. False), se_cond = (\<lambda>v. v = ?x)\<rparr> t"
    using file_fetch_probe [OF assms(1,6) full_path_target [OF assms(2-4)], where cond = "\<lambda>v. v = ?x"] by (simp add: stored_value_def)
  then obtain y m b where b: "time2my t = Inr (y, m)" "RealDatablock benv y m = Some b" "bl_data (as_dblock b) ! nat (the (szb_probeind t 600)) = ?x"
    by (auto simp: holds_def file_fetch_def split: sum.splits option.splits)
  obtain y' m' p n where p: "time2my t = Inr (y', m')" "month_ok y' m'" "szb_probeind t 600 = Some p" "0 \<le> p"
    using ok_timeE [OF dated_ok [OF assms(6)]] by metis
  have ok: "month_ok y m" "0 \<le> y" "y \<le> 9999" using p(1,2) b(1) by (auto simp: month_ok_def)
  note c = real_block_cells [OF assms(1) ok(1) b(2)]
  have "p < db_max b" using probe_floor [OF b(1) ok(2,3)] p(3) c(3) by (auto simp: SZBASE_DATA_SPAN_def)
  then have i: "nat p < nat (db_max b)" using p(4) by simp
  moreover have "db_max b \<le> int (length (GetData_cells b))" using c(1) by (simp add: cells_ok_def)
  ultimately have "the (GetData_cells b ! nat p) = ?x" using b(3) p(3) by (simp add: as_dblock_def)
  then have "GetData_cells b ! nat p = Some ?x" using c(2) i by fastforce
  then show ?thesis using b(1,2) p(3) assms(5) by (simp add: slot_value_def)
qed

subsection \<open>Ten-second probes\<close>

definition probe_value :: "avg_env \<Rightarrow> time_t \<Rightarrow> fp" where
  "probe_value env t = (case ae_probe env (szb_round_to_probe_block_start t) of None \<Rightarrow> FNaN
     | Some b \<Rightarrow> pb_data b ! nat ((t - szb_round_to_probe_block_start t) div 10))"

definition probe_open :: "avg_env \<Rightarrow> time_t \<Rightarrow> time_t \<Rightarrow> bool" where
  "probe_open env fin t = (case ae_probe env (szb_round_to_probe_block_start t) of None \<Rightarrow> False
     | Some b \<Rightarrow> pb_fixed b < 1800 \<and> pb_fixed b * 10 + pb_start b < fin)"

definition probes_ok :: "avg_env \<Rightarrow> bool" where
  "probes_ok env \<longleftrightarrow> (\<forall>s b. ae_probe env s = Some b \<longrightarrow> length (pb_data b) = 1800)"

lemma probe_block_start:
  assumes "0 \<le> s" "s mod 18000 = 0" "0 \<le> d" "d < 18000"
  shows "szb_round_to_probe_block_start (s + d) = s"
proof -
  have "(s + d) mod 18000 = d" using assms mod_add_left_eq [of s 18000 d] by simp
  then show ?thesis using assms by (simp add: szb_round_to_probe_block_start_def szb_consts smod_nonneg)
qed

lemma scan_probes_slots:
  assumes "0 \<le> s" "s mod 18000 = 0" "ae_probe env s = Some b" "length (pb_data b) = 1800" "0 \<le> p" "p \<le> 1800"
  shows "scan_probes (pb_data b) fin p (s + p * 10) acc =
    Some (foldl (\<lambda>a t. add_value (probe_value env t) a) acc (slots 10 (min fin (s + 18000)) (s + p * 10)))"
  using assms(5,6)
proof (induction "nat (1800 - p)" arbitrary: p acc)
  case (Suc k)
  let ?t = "s + p * 10" and ?e = "min fin (s + 18000)"
  have p: "p < 1800" using Suc(2) by linarith
  have v: "probe_value env ?t = pb_data b ! nat p"
    using probe_block_start [OF assms(1,2), of "p * 10"] p Suc(3) assms(3) by (simp add: probe_value_def)
  show ?case
  proof (cases "?t < fin")
    case True
    have "scan_probes (pb_data b) fin (p + 1) (s + (p + 1) * 10) (add_value (pb_data b ! nat p) acc) =
      Some (foldl (\<lambda>a t. add_value (probe_value env t) a) (add_value (pb_data b ! nat p) acc) (slots 10 ?e (s + (p + 1) * 10)))"
      using Suc(2-4) p by (intro Suc(1)) auto
    then show ?thesis
      using True p v Suc(3) assms(4)
      by (simp add: scan_probes.simps [of _ _ p] slots_Cons szb_consts c_index_def algebra_simps)
  qed (simp add: scan_probes.simps)
next
  case 0
  then have "p = 1800" by simp
  then show ?case by (simp add: scan_probes.simps szb_consts)
qed

text \<open>One turn of the loop: the rest of the block.\<close>

lemma szb_get_avg_probe_turn:
  assumes "probes_ok env" "0 \<le> s" "s mod 18000 = 0" "0 \<le> p" "p < 1800" "start = s + p * 10" "start < fin"
  shows "szb_get_avg_probe env start fin acc = szb_get_avg_probe env (start + 18000) fin
    (foldl (add_slot (probe_value env) (probe_open env fin)) acc (slots 10 (min fin (s + 18000)) start))"
proof -
  let ?ts = "slots 10 (min fin (s + 18000)) start"
  have bs: "szb_round_to_probe_block_start start = s" using probe_block_start [OF assms(2,3), of "p * 10"] assms(4-6) by simp
  have bt: "szb_round_to_probe_block_start t = s" if "t \<in> set ?ts" for t
    using slots_set [OF that] probe_block_start [OF assms(2,3), of "t - s"] assms(4,6) by auto
  have pr: "c_int ((start - s) sdiv 10) = p" using assms(4-6) by (simp add: sdiv_nonneg int_range_def)
  have ne: "?ts \<noteq> []" using assms(5-7) by (simp add: slots_Cons)
  have "(case ae_probe env s of None \<Rightarrow> Some acc
      | Some b \<Rightarrow> scan_probes (pb_data b) fin p start (NOT_FIXED (pb_fixed b < 1800 \<and> pb_fixed b * 10 + pb_start b < fin) acc)) =
    Some (foldl (add_slot (probe_value env) (probe_open env fin)) acc ?ts)"
  proof (cases "ae_probe env s")
    case None
    then have "\<forall>t \<in> set ?ts. probe_open env fin t = False" "\<forall>t \<in> set ?ts. probe_value env t = FNaN"
      using bt by (simp_all add: probe_open_def probe_value_def)
    then show ?thesis
      using None ne fold_no_values [of ?ts "probe_value env" acc] fold_same_block [of ?ts "probe_open env fin" False "probe_value env" acc]
      by simp
  next
    case (Some b)
    let ?c = "pb_fixed b < 1800 \<and> pb_fixed b * 10 + pb_start b < fin"
    have "\<forall>t \<in> set ?ts. probe_open env fin t = ?c" using bt Some by (simp add: probe_open_def)
    then have "foldl (add_slot (probe_value env) (probe_open env fin)) acc ?ts = foldl (\<lambda>a t. add_value (probe_value env t) a) (NOT_FIXED ?c acc) ?ts"
      by (rule fold_same_block) (rule ne)
    then show ?thesis using scan_probes_slots [OF assms(2,3) Some, of p fin "NOT_FIXED ?c acc"] assms(1,4-6) Some by (simp add: probes_ok_def)
  qed
  then show ?thesis using assms(7) bs pr by (simp add: szb_get_avg_probe.simps [of env start] szb_consts cong: option.case_cong)
qed

lemma szb_get_avg_probe_aligned:
  assumes "probes_ok env" "0 \<le> s" "s mod 18000 = 0"
  shows "szb_get_avg_probe env s fin acc = Some (foldl (add_slot (probe_value env) (probe_open env fin)) acc (slots 10 fin s))"
  using assms(2,3)
proof (induction "nat (fin - s)" arbitrary: s acc rule: less_induct)
  case less
  show ?case
  proof (cases "s < fin")
    case True
    let ?acc = "foldl (add_slot (probe_value env) (probe_open env fin)) acc (slots 10 (min fin (s + 18000)) s)"
    have "szb_get_avg_probe env (s + 18000) fin ?acc =
      Some (foldl (add_slot (probe_value env) (probe_open env fin)) ?acc (slots 10 fin (s + 18000)))"
      using less(2,3) True by (intro less(1)) auto
    then show ?thesis
      using szb_get_avg_probe_turn [OF assms(1) less(2,3), of 0 s fin acc] slots_split [of 10 "s + 18000" s 1800 fin] True by simp
  qed (simp add: szb_get_avg_probe.simps)
qed

subsection \<open>Properties\<close>

text \<open>C7. Averages are averages of what the daemon wrote. Over the blocks of a parameter read from its files
  without errors, from a full ten minutes on, \<open>szb_get_avg\<close> ends and returns the sum (added up in the order
  of time), the number, the first, the last and the average of the values with data among the probes
  stored for the slots of the range; no data, and a number of 0, if there are none.\<close>

theorem average_of_files:
  assumes "reads_well benv" "\<And>a b. be_join benv a b = a @ [ch_slash] @ b" "be_name benv = cname sp" "cname sp \<noteq> []"
    and "ae_block env = RealDatablock benv" "ae_const env = None" "probe_type \<noteq> PT_SEC10"
    and "start mod 600 = 0" "\<forall>u. start \<le> u \<and> u < fin \<longrightarrow> dated u"
  shows "\<exists>r. szb_get_avg env start fin probe_type = Some r \<and>
    (let vs = with_data (map (stored_value benv sp) (slots 600 fin start)); total = foldl (fadd float64) (Fin 0) vs in
     ar_count r = int (length vs) \<and>
     (ar_value r, ar_sum r, ar_first r, ar_last r) =
       (if vs = [] then (FNaN, FNaN, Some FNaN, Some FNaN)
        else (fdiv float64 total (of_int_fp float64 (int (length vs))), total, Some (hd vs), Some (last vs))))"
proof -
  have "blocks_ok env" using real_block_cells(1) [OF assms(1)] assms(5) by (simp add: blocks_ok_def)
  moreover have "\<forall>u. start \<le> u \<and> u < fin \<longrightarrow> ok_time u" using assms(9) dated_ok by blast
  moreover have "map (slot_value env) (slots 600 fin start) = map (stored_value benv sp) (slots 600 fin start)"
  proof (rule map_cong [OF refl])
    fix t assume "t \<in> set (slots 600 fin start)"
    then have "dated t" using slots_set [of t 600 fin start] assms(9) by auto
    then show "slot_value env t = stored_value benv sp t" by (rule slot_value_stored [OF assms(1-5)])
  qed
  ultimately show ?thesis using szb_get_avg_slots [of env start fin probe_type] assms(6-8) by (simp add: Let_def del: map_eq_conv)
qed

definition demo_avg :: avg_env where
  "demo_avg = \<lparr>ae_zone = fixed_zone 3600, ae_block = RealDatablock demo_env,
     ae_probe = (\<lambda>s. Some \<lparr>pb_data = replicate 1800 (Fin 1), pb_fixed = 1800, pb_start = s\<rparr>), ae_const = None, ae_first = 0, ae_last = 0\<rparr>"

theorem average_of_files_witness:
  "\<exists>r. szb_get_avg demo_avg 1000502400 1000502401 PT_MIN10 = Some r \<and> ar_count r = 1 \<and>
    ar_first r = Some (fdiv float64 (of_int_fp float64 5) (Fin 10))"
proof -
  have d: "dated 1000502400" "time2my 1000502400 = Inr (2001, 9)" by code_simp+
  then have "reads_well demo_env" by (simp add: reads_well_def demo_env_def)
  moreover have "cname (fst demo_store) \<noteq> []" using demo_store_holds(1) by (simp add: store_inv_def)
  moreover have "\<forall>u. 1000502400 \<le> u \<and> u < 1000502401 \<longrightarrow> dated u"
  proof (intro allI impI)
    fix u :: int assume "1000502400 \<le> u \<and> u < 1000502401"
    then have "u = 1000502400" by simp
    then show "dated u" using d(1) by simp
  qed
  moreover have "be_join demo_env a b = a @ [ch_slash] @ b" "be_name demo_env = cname (fst demo_store)" for a b by (simp_all add: demo_env_def)
  moreover have "ae_block demo_avg = RealDatablock demo_env" "ae_const demo_avg = None" by (simp_all add: demo_avg_def)
  ultimately obtain r where r: "szb_get_avg demo_avg 1000502400 1000502401 PT_MIN10 = Some r"
    "let vs = with_data (map (stored_value demo_env (fst demo_store)) (slots 600 1000502401 1000502400)); total = foldl (fadd float64) (Fin 0) vs in
     ar_count r = int (length vs) \<and>
     (ar_value r, ar_sum r, ar_first r, ar_last r) =
       (if vs = [] then (FNaN, FNaN, Some FNaN, Some FNaN)
        else (fdiv float64 total (of_int_fp float64 (int (length vs))), total, Some (hd vs), Some (last vs)))"
    using average_of_files [of demo_env "fst demo_store" demo_avg PT_MIN10 1000502400 1000502401] by auto
  have v: "stored_value demo_env (fst demo_store) 1000502400 = fdiv float64 (of_int_fp float64 5) (Fin 10)"
    using demo_store_holds(2) by (simp add: stored_value_def demo_env_def real_cell_def SZARP_NO_DATA_def)
  moreover have "fdiv float64 (of_int_fp float64 5) (Fin 10) \<noteq> FNaN"
    using real_cell_not_NaN [of "Fin 10" 10 5] by (auto simp: real_cell_def SZARP_NO_DATA_def)
  ultimately have "with_data (map (stored_value demo_env (fst demo_store)) (slots 600 1000502401 1000502400)) =
    [fdiv float64 (of_int_fp float64 5) (Fin 10)]"
    by (simp add: slots_Cons del: fdiv.simps)
  with r show ?thesis by (simp add: Let_def del: fdiv.simps)
qed

text \<open>C39. An average of ten-second probes skips probes. From the start of a block of probes on, \<open>szb_get_avg_probe\<close> adds all
  probes of the range; but it always moves on by the length of a block, so from inside of a
  block it does not come back to the start of the next one: of a range of the length of a block that
  starts inside of a block, only the probes up to the end of this block are added.\<close>

theorem probe_average_skips:
  assumes "probes_ok env" "0 \<le> s" "s mod 18000 = 0" "0 \<le> p" "p < 1800"
  shows "szb_get_avg_probe env s fin acc = Some (foldl (add_slot (probe_value env) (probe_open env fin)) acc (slots 10 fin s)) \<and>
    szb_get_avg_probe env (s + p * 10) (s + p * 10 + 18000) acc =
      Some (foldl (add_slot (probe_value env) (probe_open env (s + p * 10 + 18000))) acc (slots 10 (s + 18000) (s + p * 10)))"
proof
  show "szb_get_avg_probe env s fin acc = Some (foldl (add_slot (probe_value env) (probe_open env fin)) acc (slots 10 fin s))"
    by (rule szb_get_avg_probe_aligned [OF assms(1-3)])
  have "min (s + p * 10 + 18000) (s + 18000) = s + 18000" using assms(4) by simp
  then show "szb_get_avg_probe env (s + p * 10) (s + p * 10 + 18000) acc =
      Some (foldl (add_slot (probe_value env) (probe_open env (s + p * 10 + 18000))) acc (slots 10 (s + 18000) (s + p * 10)))"
    using szb_get_avg_probe_turn [OF assms(1-5) refl, of "s + p * 10 + 18000" acc]
    by (simp add: szb_get_avg_probe.simps [of env "s + p * 10 + 18000"])
qed

theorem probe_average_skips_witness:
  "\<exists>acc. szb_get_avg_probe demo_avg 17990 35990 acc_init = Some acc \<and> ac_count acc = 1"
proof -
  have "probes_ok demo_avg" by (simp add: probes_ok_def demo_avg_def)
  moreover have "probe_value demo_avg 17990 = Fin 1"
    using probe_block_start [of 0 17990] by (simp add: probe_value_def demo_avg_def)
  ultimately show ?thesis
    using probe_average_skips [of demo_avg 0 1799 0 acc_init] by (simp add: slots_Cons add_slot_def add_value_def NOT_FIXED_def acc_init_def)
qed

end
