(* ===== verification/Szb_Probe.thy ===== *)
theory Szb_Probe
  imports Szb_Avg
begin

text \<open>
  The blocks of ten-second probes, \<open>szbase/probeblock.cc\<close>: real and combined parameters. The answers of the
  probe server, the values and its time, are arguments, as is the power of the parameter. An access
  outside of the array of a block is \<open>None\<close>. Definable and Lua parameters are left out.
\<close>

record pblock = probeblock +
  pk_query :: int

definition szb_probeblock :: "time_t \<Rightarrow> pblock" where
  "szb_probeblock start = \<lparr>pb_data = replicate 1800 FNaN, pb_fixed = 0, pb_start = start, pk_query = - 1\<rparr>"

definition pb_end :: "pblock \<Rightarrow> time_t" where
  "pb_end b = pb_start b + (SZBASE_PROBES_IN_BLOCK - 1) * SZBASE_PROBE_SPAN"

fun put_probes :: "int \<Rightarrow> fp list \<Rightarrow> pblock \<Rightarrow> pblock option" where
  "put_probes i [] b = Some b"
| "put_probes i (v # vs) b =
     (if 0 \<le> i \<and> i < int (length (pb_data b)) then put_probes (i + 1) vs (b\<lparr>pb_data := (pb_data b)[nat i := v]\<rparr>) else None)"

text \<open>The new number of fixed probes, from the time of the server.\<close>

definition advance :: "time_t \<Rightarrow> pblock \<Rightarrow> pblock" where
  "advance server_time b =
     (if server_time < pb_start b then b
      else
        let n = c_int ((server_time - pb_start b) sdiv SZBASE_PROBE_SPAN + 1) in
        b\<lparr>pb_fixed := (if n > SZBASE_PROBES_IN_BLOCK then SZBASE_PROBES_IN_BLOCK else n)\<rparr>)"

definition real_FetchProbes :: "fp \<Rightarrow> short list \<Rightarrow> time_t \<Rightarrow> pblock \<Rightarrow> pblock option" where
  "real_FetchProbes prec10 values server_time b =
     (if values = [] then Some b
      else do {
        b \<leftarrow> put_probes (pb_fixed b)
          (map (cell_value \<circ> real_cell prec10) (take (nat (SZBASE_PROBES_IN_BLOCK - pb_fixed b)) values)) b;
        Some (advance server_time b) })"

definition combined_FetchProbes :: "fp \<Rightarrow> short list \<Rightarrow> short list \<Rightarrow> time_t \<Rightarrow> pblock \<Rightarrow> pblock option" where
  "combined_FetchProbes prec10 msw lsw server_time b =
     (if msw = [] then Some b
      else if lsw = [] then Some b
      else do {
        b \<leftarrow> put_probes (pb_fixed b) (map (cell_value \<circ> combined_cell prec10) (zip msw lsw)) b;
        Some (advance server_time b) })"

text \<open>\<open>Refresh\<close>, with \<open>FetchProbes\<close> of the class of the block.\<close>

definition probe_Refresh :: "(pblock \<Rightarrow> pblock option) \<Rightarrow> bool \<Rightarrow> int \<Rightarrow> pblock \<Rightarrow> pblock option" where
  "probe_Refresh FetchProbes online query_id b =
     (if pb_fixed b = SZBASE_PROBES_IN_BLOCK then Some b
      else if query_id = pk_query b then Some b
      else if \<not> online then Some b
      else do { b \<leftarrow> FetchProbes b; Some (b\<lparr>pk_query := query_id\<rparr>) })"

subsection \<open>The array\<close>

lemma put_probes_result:
  assumes "0 \<le> i" "i + int (length vs) \<le> int (length (pb_data b))"
  shows "put_probes i vs b = Some (b\<lparr>pb_data := take (nat i) (pb_data b) @ vs @ drop (nat i + length vs) (pb_data b)\<rparr>)"
  using assms
proof (induction i vs b rule: put_probes.induct)
  case (2 i v vs b)
  have n: "nat (i + 1) = Suc (nat i)" "nat i < length (pb_data b)" using 2(2,3) by auto
  show ?case using 2 n by (simp add: take_update_drop)
qed simp

lemma put_probes_outside:
  assumes "0 \<le> i" "i \<le> int (length (pb_data b))" "int (length (pb_data b)) < i + int (length vs)"
  shows "put_probes i vs b = None"
  using assms by (induction i vs b rule: put_probes.induct) auto

definition pblock_ok :: "pblock \<Rightarrow> bool" where
  "pblock_ok b \<longleftrightarrow> length (pb_data b) = 1800 \<and> 0 \<le> pb_fixed b \<and> pb_fixed b \<le> 1800"

lemma pblock_ok_new [simp]: "pblock_ok (szb_probeblock start)"
  by (simp add: pblock_ok_def szb_probeblock_def)

text \<open>Times of the server whose number of probes is an \<open>int\<close>.\<close>

definition server_ok :: "time_t \<Rightarrow> pblock \<Rightarrow> bool" where
  "server_ok now b \<longleftrightarrow> int_range ((now - pb_start b) div 10 + 1)"

lemma advance_eq:
  assumes "server_ok now b" "pb_start b \<le> now"
  shows "advance now b = b\<lparr>pb_fixed := min 1800 ((now - pb_start b) div 10 + 1)\<rparr>"
  using assms by (simp add: advance_def server_ok_def szb_consts sdiv_nonneg min_def)

lemma advance_ok:
  assumes "pblock_ok b" "server_ok now b"
  shows "pblock_ok (advance now b)"
proof (cases "pb_start b \<le> now")
  case True
  then have "0 \<le> (now - pb_start b) div 10" by (simp add: pos_imp_zdiv_nonneg_iff)
  then show ?thesis using advance_eq [OF assms(2) True] assms(1) by (simp add: pblock_ok_def)
qed (use assms in \<open>simp add: advance_def\<close>)

lemma real_FetchProbes_result:
  fixes prec10 :: fp
  assumes "pblock_ok b" "values \<noteq> []"
  defines "vs \<equiv> map (cell_value \<circ> real_cell prec10) (take (nat (1800 - pb_fixed b)) values)"
  shows "real_FetchProbes prec10 values now b =
    Some (advance now (b\<lparr>pb_data := take (nat (pb_fixed b)) (pb_data b) @ vs @ drop (nat (pb_fixed b) + length vs) (pb_data b)\<rparr>))"
proof -
  have "put_probes (pb_fixed b) vs b = Some (b\<lparr>pb_data := take (nat (pb_fixed b)) (pb_data b) @ vs @ drop (nat (pb_fixed b) + length vs) (pb_data b)\<rparr>)"
    using assms(1) by (intro put_probes_result) (auto simp: pblock_ok_def vs_def)
  then show ?thesis using assms(2) by (simp add: real_FetchProbes_def vs_def szb_consts)
qed

subsection \<open>A server that answers what it was asked for\<close>

text \<open>The probes of the times from the first that is not fixed to the end of the block, up to now.\<close>

definition answer :: "(time_t \<Rightarrow> short) \<Rightarrow> time_t \<Rightarrow> pblock \<Rightarrow> short list" where
  "answer P now b = map P (slots 10 (min (pb_end b) now + 1) (pb_start b + 10 * pb_fixed b))"

definition follows :: "fp \<Rightarrow> (time_t \<Rightarrow> short) \<Rightarrow> pblock \<Rightarrow> bool" where
  "follows prec10 P b \<longleftrightarrow> pblock_ok b \<and>
     (\<forall>i < nat (pb_fixed b). pb_data b ! i = cell_value (real_cell prec10 (P (pb_start b + 10 * int i))))"

lemma slots_nth: "0 < d \<Longrightarrow> i < length (slots d fin t) \<Longrightarrow> slots d fin t ! i = t + int i * d"
proof (induction i arbitrary: t)
  case 0
  then show ?case by (cases "t < fin") (simp_all add: slots_Cons)
next
  case (Suc i)
  then show ?case by (cases "t < fin") (simp_all add: slots_Cons algebra_simps)
qed

lemma slots_length:
  assumes "0 < d" "t \<le> fin"
  shows "int (length (slots d (fin + 1) t)) = (fin - t) div d + 1"
  using assms(2)
proof (induction "nat (fin - t)" arbitrary: t rule: less_induct)
  case less
  show ?case
  proof (cases "t + d \<le> fin")
    case True
    then have "int (length (slots d (fin + 1) (t + d))) = (fin - (t + d)) div d + 1" using assms(1) by (intro less(1)) auto
    moreover have "(fin - (t + d)) div d = (fin - t) div d - 1" 
      using assms(1) div_mult_self1 [of d "fin - t" "- 1"] by (simp add: algebra_simps)
    ultimately show ?thesis using assms(1) less(2) by (simp add: slots_Cons)
  next
    case False
    then have "(fin - t) div d = 0" using less(2) by (intro div_pos_pos_trivial) auto
    then show ?thesis using False assms(1) less(2) by (simp add: slots_Cons)
  qed
qed

lemma follows_fetch:
  assumes "follows prec10 P b" "pb_start b \<le> now" "server_ok now b" "pb_fixed b < 1800"
  obtains b' where "real_FetchProbes prec10 (answer P now b) now b = Some b'" "follows prec10 P b'" "pb_start b' = pb_start b"
    "pb_fixed b' = max (pb_fixed b) (min 1800 ((now - pb_start b) div 10 + 1))"
proof -
  let ?s = "pb_start b" and ?n = "pb_fixed b" and ?ts = "slots 10 (min (pb_end b) now + 1) (pb_start b + 10 * pb_fixed b)"
  have ok: "length (pb_data b) = 1800" "0 \<le> ?n" "pblock_ok b" using assms(1) by (simp_all add: follows_def pblock_ok_def)
  have pe: "pb_end b = ?s + 17990" by (simp add: pb_end_def szb_consts)
  show thesis
  proof (cases "answer P now b = []")
    case True
    have "now < ?s + 10 * ?n"
    proof (rule ccontr)
      assume "\<not> now < ?s + 10 * ?n"
      then have "?ts \<noteq> []" using assms(4) pe by (simp add: slots_Cons)
      then show False using True by (simp add: answer_def)
    qed
    then have "(now - ?s) div 10 + 1 \<le> ?n" by (simp add: div_less_iff_less_mult flip: zless_imp_add1_zle)
    then show thesis using that [of b] True assms(1) by (simp add: real_FetchProbes_def)
  next
    case False
    have le: "?s + 10 * ?n \<le> min (pb_end b) now"
    proof (rule ccontr)
      assume "\<not> ?s + 10 * ?n \<le> min (pb_end b) now"
      then have "?ts = []" by (intro slots_Nil) linarith
      then show False using False by (simp add: answer_def)
    qed
    define q where "q = (now - ?s) div 10"
    have nq: "?n \<le> q" unfolding q_def using le by linarith
    have len: "int (length ?ts) = min 1799 q - ?n + 1"
    proof -
      have "(x - 10 * ?n) div 10 = x div 10 - ?n" for x using div_mult_self2 [of 10 x "- ?n"] by simp
      from this [of "min (pb_end b) now - ?s"]
      have "(min (pb_end b) now - (?s + 10 * ?n)) div 10 = (min (pb_end b) now - ?s) div 10 - ?n" by (simp add: diff_diff_eq)
      moreover have "(min (pb_end b) now - ?s) div 10 = min 1799 q"
      proof (cases "now \<le> ?s + 17990")
        case True
        then have "q \<le> 1799" unfolding q_def by linarith
        then show ?thesis using True by (simp add: pe q_def)
      next
        case False
        then have "1799 \<le> q" unfolding q_def by linarith
        then show ?thesis using False by (simp add: pe)
      qed
      ultimately have "(min (pb_end b) now - (?s + 10 * ?n)) div 10 = min 1799 q - ?n" by simp
      then show ?thesis using slots_length [of 10 "?s + 10 * ?n" "min (pb_end b) now"] le by simp
    qed
    then have t: "take (nat (1800 - ?n)) (answer P now b) = answer P now b" by (simp add: answer_def)
    define vs where "vs = map (cell_value \<circ> real_cell prec10) (answer P now b)"
    have lv: "int (length vs) = min 1799 q - ?n + 1" using len by (simp add: vs_def answer_def)
    define b1 where "b1 = b\<lparr>pb_data := take (nat ?n) (pb_data b) @ vs @ drop (nat ?n + length vs) (pb_data b)\<rparr>"
    have f: "real_FetchProbes prec10 (answer P now b) now b = Some (b1\<lparr>pb_fixed := min 1800 (q + 1)\<rparr>)"
      using real_FetchProbes_result [OF ok(3) False, of prec10 now] t advance_eq [of now b1] assms(2,3)
      by (simp add: vs_def b1_def q_def server_ok_def)
    have d: "pb_data b1 ! i = cell_value (real_cell prec10 (P (?s + 10 * int i)))" if i: "i < nat (min 1800 (q + 1))" for i
    proof (cases "i < nat ?n")
      case True
      then have "i < 1800" using assms(4) by linarith
      then show ?thesis using True assms(1) ok(1) by (simp add: b1_def nth_append follows_def)
    next
      case False
      then have k: "i - nat ?n < length vs" "i - nat ?n < length ?ts" using i lv len ok(2) by linarith+
      have "?ts ! (i - nat ?n) = ?s + 10 * int i" using slots_nth [OF _ k(2)] False ok(2) by (simp add: algebra_simps of_nat_diff)
      then show ?thesis using False k ok(1) assms(4) by (simp add: b1_def nth_append vs_def answer_def)
    qed
    have "pblock_ok (b1\<lparr>pb_fixed := min 1800 (q + 1)\<rparr>)" using ok nq lv assms(4) by (auto simp: pblock_ok_def b1_def)
    then have "follows prec10 P (b1\<lparr>pb_fixed := min 1800 (q + 1)\<rparr>)" using d by (simp add: follows_def b1_def)
    then show thesis using that [OF f] nq assms(4) by (simp add: b1_def q_def max_def)
  qed
qed

text \<open>Refreshing again and again, with the number of the query and the time of the server.\<close>

fun refreshes :: "fp \<Rightarrow> (time_t \<Rightarrow> short) \<Rightarrow> (int \<times> time_t) list \<Rightarrow> pblock \<Rightarrow> pblock option" where
  "refreshes prec10 P [] b = Some b"
| "refreshes prec10 P ((q, now) # rs) b = do {
     b \<leftarrow> probe_Refresh (real_FetchProbes prec10 (answer P now b) now) True q b;
     refreshes prec10 P rs b }"

lemma refresh_follows:
  assumes "follows prec10 P b" "pb_start b \<le> now" "server_ok now b"
  obtains b' where "probe_Refresh (real_FetchProbes prec10 (answer P now b) now) True q b = Some b'" "follows prec10 P b'"
    "pb_start b' = pb_start b" "pb_fixed b \<le> pb_fixed b'" "pk_query b \<noteq> q \<Longrightarrow> pb_fixed b' = max (pb_fixed b) (min 1800 ((now - pb_start b) div 10 + 1))"
proof (cases "pb_fixed b = 1800 \<or> q = pk_query b")
  case True
  then show thesis using that [of b] assms(1) by (auto simp: probe_Refresh_def szb_consts)
next
  case False
  moreover have "pb_fixed b \<le> 1800" using assms(1) by (simp add: follows_def pblock_ok_def)
  ultimately have "pb_fixed b < 1800" by simp
  then obtain b' where b': "real_FetchProbes prec10 (answer P now b) now b = Some b'" "follows prec10 P b'" "pb_start b' = pb_start b"
    "pb_fixed b' = max (pb_fixed b) (min 1800 ((now - pb_start b) div 10 + 1))"
    by (rule follows_fetch [OF assms])
  then show thesis
    using that [of "b'\<lparr>pk_query := q\<rparr>"] False by (simp add: probe_Refresh_def szb_consts follows_def pblock_ok_def)
qed

lemma refreshes_follow:
  assumes "follows prec10 P b" "\<forall>(q, now) \<in> set rs. pb_start b \<le> now \<and> server_ok now b"
  shows "\<exists>b'. refreshes prec10 P rs b = Some b' \<and> follows prec10 P b' \<and> pb_start b' = pb_start b"
  using assms
proof (induction rs arbitrary: b)
  case (Cons r rs)
  obtain q now where r: "r = (q, now)" by fastforce
  obtain b1 where b1: "probe_Refresh (real_FetchProbes prec10 (answer P now b) now) True q b = Some b1" "follows prec10 P b1" "pb_start b1 = pb_start b"
    using refresh_follows [OF Cons(2), of now q] Cons(3) r by auto
  have "\<forall>(q, now) \<in> set rs. pb_start b1 \<le> now \<and> server_ok now b1" using Cons(3) b1(3) by (auto simp: server_ok_def)
  from Cons(1) [OF b1(2) this] show ?case using b1(1,3) r by auto
qed simp

subsection \<open>Properties\<close>

text \<open>C20. A block of probes follows the server: however often a new block of a real parameter is refreshed, at whatever
  times, with answers to exactly what was asked for, no refresh fails, and
  the probes it counts as fixed are those of the server, divided by the power; a
  further refresh for a new query leaves as many fixed probes as there are times of the block up to
  the time of the server, and never fewer than before.\<close>

theorem probe_block_follows:
  assumes "\<forall>(q, now) \<in> set rs. start \<le> now \<and> int_range ((now - start) div 10 + 1)"
    and "start \<le> now" "int_range ((now - start) div 10 + 1)"
  shows "\<exists>b b'. refreshes prec10 P rs (szb_probeblock start) = Some b \<and> follows prec10 P b \<and>
    probe_Refresh (real_FetchProbes prec10 (answer P now b) now) True (pk_query b + 1) b = Some b' \<and> follows prec10 P b' \<and>
    pb_fixed b' = max (pb_fixed b) (min 1800 ((now - start) div 10 + 1))"
proof -
  have n: "pb_start (szb_probeblock start) = start" "follows prec10 P (szb_probeblock start)"
    by (simp_all add: szb_probeblock_def follows_def pblock_ok_def)
  have "\<forall>(q, now) \<in> set rs. pb_start (szb_probeblock start) \<le> now \<and> server_ok now (szb_probeblock start)"
    using assms(1) n(1) by (simp add: server_ok_def)
  from refreshes_follow [OF n(2) this] n(1)
  obtain b where b: "refreshes prec10 P rs (szb_probeblock start) = Some b" "follows prec10 P b" "pb_start b = start" by auto
  obtain b' where "probe_Refresh (real_FetchProbes prec10 (answer P now b) now) True (pk_query b + 1) b = Some b'" "follows prec10 P b'"
    "pb_fixed b' = max (pb_fixed b) (min 1800 ((now - start) div 10 + 1))"
    using refresh_follows [OF b(2), of now "pk_query b + 1"] assms(2,3) b(3) by (auto simp: server_ok_def)
  then show ?thesis using b(1,2) by auto
qed

theorem probe_block_follows_witness:
  "\<exists>b b'. refreshes (Fin 10) (\<lambda>_. 7) [(1, 20), (2, 50)] (szb_probeblock 0) = Some b \<and>
    probe_Refresh (real_FetchProbes (Fin 10) (answer (\<lambda>_. 7) 100 b) 100) True (pk_query b + 1) b = Some b' \<and> 11 \<le> pb_fixed b'"
proof -
  have "\<forall>(q, now) \<in> set [(1, 20), (2, 50)]. 0 \<le> now \<and> int_range ((now - 0) div 10 + 1)" "int_range ((100 - 0) div 10 + 1)"
    by (simp_all add: int_range_def)
  from probe_block_follows [OF this(1) _ this(2), of "Fin 10" "\<lambda>_. 7"]
  show ?thesis by (auto simp: max_def)
qed

text \<open>C38. Only one of the two classes checks how much the server sent. Whatever values a real parameter's block receives, it
  writes inside of its array and stays well-formed; the block of a combined
  parameter writes outside of its array exactly when both answers together hold more probes than the
  block has left, which it does not check.\<close>

theorem probe_blocks_bounds:
  assumes "pblock_ok b" "server_ok now b"
  shows "(\<exists>b'. real_FetchProbes prec10 values now b = Some b' \<and> pblock_ok b') \<and>
    (combined_FetchProbes prec10 msw lsw now b = None \<longleftrightarrow> pb_fixed b + int (min (length msw) (length lsw)) > 1800)"
proof
  show "\<exists>b'. real_FetchProbes prec10 values now b = Some b' \<and> pblock_ok b'"
  proof (cases "values = []")
    case False
    let ?vs = "map (cell_value \<circ> real_cell prec10) (take (nat (1800 - pb_fixed b)) values)"
    let ?b = "b\<lparr>pb_data := take (nat (pb_fixed b)) (pb_data b) @ ?vs @ drop (nat (pb_fixed b) + length ?vs) (pb_data b)\<rparr>"
    have "pblock_ok ?b" "server_ok now ?b" using assms by (auto simp: pblock_ok_def server_ok_def min_def)
    then show ?thesis using real_FetchProbes_result [OF assms(1) False, of prec10 now] advance_ok by blast
  qed (use assms in \<open>simp add: real_FetchProbes_def\<close>)
  let ?cs = "map (cell_value \<circ> combined_cell prec10) (zip msw lsw)"
  have l: "length (pb_data b) = 1800" "0 \<le> pb_fixed b" "pb_fixed b \<le> 1800" using assms(1) by (simp_all add: pblock_ok_def)
  show "combined_FetchProbes prec10 msw lsw now b = None \<longleftrightarrow> pb_fixed b + int (min (length msw) (length lsw)) > 1800"
  proof (cases "pb_fixed b + int (min (length msw) (length lsw)) > 1800")
    case True
    then have "put_probes (pb_fixed b) ?cs b = None" "msw \<noteq> []" "lsw \<noteq> []" using l by (auto intro: put_probes_outside)
    then show ?thesis using True by (simp add: combined_FetchProbes_def)
  next
    case False
    then have "\<exists>b'. put_probes (pb_fixed b) ?cs b = Some b'" using l put_probes_result [of "pb_fixed b" ?cs b] by auto
    then show ?thesis using False by (auto simp: combined_FetchProbes_def)
  qed
qed

theorem probe_blocks_bounds_witness:
  "combined_FetchProbes (Fin 10) (replicate 1801 1) (replicate 1801 2) 0 (szb_probeblock 0) = None \<and>
   (\<exists>b'. real_FetchProbes (Fin 10) (replicate 1801 1) 0 (szb_probeblock 0) = Some b' \<and> pblock_ok b')"
proof -
  have "server_ok 0 (szb_probeblock 0)" by (simp add: server_ok_def szb_probeblock_def int_range_def)
  from probe_blocks_bounds [OF pblock_ok_new this, of "Fin 10" "replicate 1801 1" "replicate 1801 1" "replicate 1801 2"]
  show ?thesis by (simp add: szb_probeblock_def)
qed

end
