(* ===== verification/Szb_Psearch.thy ===== *)
theory Szb_Psearch
  imports Szb_Range Szb_Probe
begin

text \<open>
  The other searches of \<open>szbase/szbsearch.cc\<close>: over ten-second probes, and of combined, definable and Lua
  parameters; the choice between them and the last date of a data base, \<open>szbase/szbbuf.cc\<close>. What the probe server
  finds, its range and the state of the connection are arguments, as are the block starts at which
  fetching a block reports an error or the search times out. A null pointer that is followed and an index
  outside of an array are \<open>None\<close>.
\<close>

subsection \<open>Searches by the server\<close>

record server =
  sv_ready :: bool
  sv_search :: "wstring \<Rightarrow> time_t \<Rightarrow> time_t \<Rightarrow> int \<Rightarrow> time_t"
  sv_range :: "(time_t \<times> time_t) option"

definition szb_real_search_probe :: "server \<Rightarrow> wstring \<Rightarrow> time_t \<Rightarrow> time_t \<Rightarrow> int \<Rightarrow> time_t" where
  "szb_real_search_probe sv name start fin direction = (if \<not> sv_ready sv then - 1 else sv_search sv name start fin direction)"

definition szb_combined_search_probe :: "server \<Rightarrow> wstring \<Rightarrow> wstring \<Rightarrow> time_t \<Rightarrow> time_t \<Rightarrow> int \<Rightarrow> time_t" where
  "szb_combined_search_probe sv msw lsw start fin direction =
     (if \<not> sv_ready sv then - 1
      else
        let msw_ret = szb_real_search_probe sv msw start fin direction in
        if msw_ret = - 1 then msw_ret
        else
          let lsw_ret = szb_real_search_probe sv lsw start fin direction in
          if lsw_ret = - 1 then lsw_ret
          else if direction < 0 then min lsw_ret msw_ret else max lsw_ret msw_ret)"

subsection \<open>Searches in blocks of probes\<close>

definition covers :: "probeblock \<Rightarrow> time_t \<Rightarrow> bool" where
  "covers b t \<longleftrightarrow> \<not> (pb_start b > t \<or> pb_start b + (SZBASE_PROBES_IN_BLOCK - 1) * SZBASE_PROBE_SPAN < t)"

text \<open>The body of the loop: \<open>Inl\<close> is a result, \<open>Inr\<close> the block for the next time.\<close>

definition probe_visit :: "avg_env \<Rightarrow> (time_t \<Rightarrow> bool) \<Rightarrow> (fp \<Rightarrow> bool) \<Rightarrow> time_t \<Rightarrow> probeblock option \<Rightarrow> (time_t + probeblock) option" where
  "probe_visit env stop cond t block =
     (let fetch = (case block of None \<Rightarrow> True | Some b \<Rightarrow> \<not> covers b t); b_start = szb_round_to_probe_block_start t;
          block = (if fetch then ae_probe env b_start else block) in
      if fetch \<and> stop b_start then Some (Inl (- 1))
      else case block of None \<Rightarrow> None
        | Some b \<Rightarrow> (case c_index (pb_data b) (c_int ((t - pb_start b) sdiv SZBASE_PROBE_SPAN)) of None \<Rightarrow> None
            | Some v \<Rightarrow> Some (if cond v then Inl t else Inr b)))"

function probe_range_loop ::
  "avg_env \<Rightarrow> (time_t \<Rightarrow> bool) \<Rightarrow> (fp \<Rightarrow> bool) \<Rightarrow> int \<Rightarrow> time_t \<Rightarrow> time_t \<Rightarrow> probeblock option \<Rightarrow> time_t option" where
  "probe_range_loop env stop cond direction fin t block =
     (if direction > 0 \<and> t \<le> fin \<or> direction < 0 \<and> t \<ge> fin then
        (case probe_visit env stop cond t block of None \<Rightarrow> None
         | Some (Inl r) \<Rightarrow> Some r
         | Some (Inr b) \<Rightarrow> probe_range_loop env stop cond direction fin (t + SZBASE_PROBE_SPAN * direction) (Some b))
      else Some (- 1))"
  by auto
termination
  by (relation "measure (\<lambda>(env, stop, cond, direction, fin, t, block). nat (if direction > 0 then fin - t + 1 else t - fin + 1))")
    (auto simp: szb_consts)

declare probe_range_loop.simps [simp del]

definition search_in_probe_range ::
  "avg_env \<Rightarrow> (time_t \<Rightarrow> bool) \<Rightarrow> (fp \<Rightarrow> bool) \<Rightarrow> time_t \<Rightarrow> time_t \<Rightarrow> int \<Rightarrow> time_t option" where
  "search_in_probe_range env stop cond start fin direction =
     (if ae_const env \<noteq> None then Some start
      else if direction = 0 then map_option (\<lambda>v. if v = FNaN then - 1 else start) (szb_get_probe env start PT_SEC10 0)
      else probe_range_loop env stop cond direction fin start None)"

definition szb_definable_search_probe ::
  "server \<Rightarrow> avg_env \<Rightarrow> (time_t \<Rightarrow> bool) \<Rightarrow> (fp \<Rightarrow> bool) \<Rightarrow> time_t \<Rightarrow> time_t \<Rightarrow> int \<Rightarrow> time_t option" where
  "szb_definable_search_probe sv env stop cond start fin direction = (case sv_range sv of None \<Rightarrow> Some (- 1)
     | Some (first_date, last_date) \<Rightarrow>
       (case adjust_search_boundaries start fin first_date last_date direction of None \<Rightarrow> Some (- 1)
        | Some (start, fin) \<Rightarrow> search_in_probe_range env stop cond start fin direction))"

subsection \<open>Searches in ten-minute data\<close>

definition szb_combined_search_data ::
  "range_env \<Rightarrow> (TParam \<Rightarrow> time_t \<Rightarrow> fp) \<Rightarrow> search_env \<Rightarrow> (time_t \<Rightarrow> fp) \<Rightarrow> wstring \<Rightarrow> time_t \<Rightarrow> time_t \<Rightarrow> int \<Rightarrow> time_t option" where
  "szb_combined_search_data env get se val msw start fin direction = do {
     last_date \<leftarrow> szb_search_last env get (P_REAL msw);
     szb_search_data se val (szb_search_first env msw) last_date start fin direction }"

definition szb_definable_search_data ::
  "range_env \<Rightarrow> (TParam \<Rightarrow> time_t \<Rightarrow> fp) \<Rightarrow> time_t \<Rightarrow> search_env \<Rightarrow> (time_t \<Rightarrow> fp) \<Rightarrow> TParam \<Rightarrow> time_t \<Rightarrow> time_t \<Rightarrow> int \<Rightarrow> time_t option" where
  "szb_definable_search_data env get first_av se val p start fin direction = do {
     last_date \<leftarrow> szb_search_last env get p;
     szb_search_data se val first_av last_date start fin direction }"

text \<open>Lua parameters: the date they start at, if it is positive, and the offsets of their data.\<close>

record lua_param =
  lp_start :: time_t
  lp_start_offset :: time_t
  lp_end_offset :: time_t

definition szb_lua_search_first_last_date ::
  "server \<Rightarrow> range_env \<Rightarrow> zone \<Rightarrow> time_t \<Rightarrow> lua_param \<Rightarrow> SZARP_PROBE_TYPE \<Rightarrow> (time_t \<times> time_t) option" where
  "szb_lua_search_first_last_date sv env z first_av p probe_type = do {
     (first_date, last_date) \<leftarrow>
       (if probe_type = PT_SEC10 then
          if \<not> sv_ready sv then None
          else map_option (\<lambda>(f, l). (if lp_start p > 0 \<and> lp_start p > f then lp_start p else f, l)) (sv_range sv)
        else do {
          last_date \<leftarrow> szb_search_last env (\<lambda>_ _. FNaN) (P_LUA (lp_end_offset p));
          Some (szb_round_time z (if lp_start p > 0 then lp_start p else first_av) PT_MIN10 0, last_date) });
     Some (first_date + lp_start_offset p, last_date + lp_end_offset p) }"

definition szb_lua_search_data ::
  "server \<Rightarrow> range_env \<Rightarrow> zone \<Rightarrow> time_t \<Rightarrow> lua_param \<Rightarrow> search_env \<Rightarrow> (time_t \<Rightarrow> fp) \<Rightarrow> time_t \<Rightarrow> time_t \<Rightarrow> int \<Rightarrow> time_t option" where
  "szb_lua_search_data sv env z first_av p se val start fin direction =
     (case szb_lua_search_first_last_date sv env z first_av p PT_MIN10 of None \<Rightarrow> Some (- 1)
      | Some (f, l) \<Rightarrow> szb_search_data se val f l start fin direction)"

definition szb_lua_search_probe ::
  "server \<Rightarrow> range_env \<Rightarrow> time_t \<Rightarrow> lua_param \<Rightarrow> avg_env \<Rightarrow> (time_t \<Rightarrow> bool) \<Rightarrow> (fp \<Rightarrow> bool) \<Rightarrow> time_t \<Rightarrow> time_t \<Rightarrow> int \<Rightarrow> time_t option" where
  "szb_lua_search_probe sv env first_av p ae stop cond start fin direction =
     (case szb_lua_search_first_last_date sv env (ae_zone ae) first_av p PT_SEC10 of None \<Rightarrow> Some (- 1)
      | Some (f, l) \<Rightarrow>
        (case adjust_search_boundaries start fin f l direction of None \<Rightarrow> Some (- 1)
         | Some (start, fin) \<Rightarrow> search_in_probe_range ae stop cond start fin direction))"

text \<open>The search by single values: \<open>val\<close> is \<open>szb_get_probe\<close> of the parameter, \<open>stop\<close> an error or a timeout.\<close>

partial_function (option) do_szb_search ::
  "zone \<Rightarrow> (time_t \<Rightarrow> time_t \<Rightarrow> bool) \<Rightarrow> (time_t \<Rightarrow> fp) \<Rightarrow> (time_t \<Rightarrow> bool) \<Rightarrow> (fp \<Rightarrow> bool) \<Rightarrow> SZARP_PROBE_TYPE \<Rightarrow> int \<Rightarrow> time_t \<Rightarrow> time_t \<Rightarrow> time_t option" where
  "do_szb_search z cmp val stop cond probe_type direction fin t =
     (if cmp t fin then
        if stop t then Some (- 1)
        else if cond (val t) then Some t
        else do_szb_search z cmp val stop cond probe_type direction fin (szb_move_time z t direction probe_type 0)
      else Some (- 1))"

definition szb_lua_search_by_value ::
  "server \<Rightarrow> range_env \<Rightarrow> zone \<Rightarrow> time_t \<Rightarrow> lua_param \<Rightarrow> (time_t \<Rightarrow> fp) \<Rightarrow> (time_t \<Rightarrow> bool) \<Rightarrow> (fp \<Rightarrow> bool) \<Rightarrow> SZARP_PROBE_TYPE \<Rightarrow>
     time_t \<Rightarrow> time_t \<Rightarrow> int \<Rightarrow> time_t option" where
  "szb_lua_search_by_value sv env z first_av p val stop cond probe_type start fin direction =
     (case szb_lua_search_first_last_date sv env z first_av p probe_type of None \<Rightarrow> Some (- 1)
      | Some (f, l) \<Rightarrow>
        (case adjust_search_boundaries start fin f l direction of None \<Rightarrow> Some (- 1)
         | Some (start, fin) \<Rightarrow>
           if direction = - 1 then do_szb_search z (\<ge>) val stop cond probe_type direction fin start
           else if direction = 1 then do_szb_search z (\<le>) val stop cond probe_type direction fin start
           else if direction = 0 then Some (if cond (val start) then start else - 1)
           else None))"

text \<open>\<open>szb_get_last_av_date\<close>: \<open>now\<close> is the current time, \<open>search\<close> the search to the left of a parameter.\<close>

fun last_of_params :: "(wstring \<Rightarrow> time_t \<Rightarrow> time_t) \<Rightarrow> time_t \<Rightarrow> time_t \<Rightarrow> wstring list \<Rightarrow> time_t" where
  "last_of_params search t av [] = av"
| "last_of_params search t av (p # ps) =
     (let t = search p t in last_of_params search t (if t > av then t else av) ps)"

definition szb_get_last_av_date :: "zone \<Rightarrow> time_t \<Rightarrow> time_t \<Rightarrow> (wstring \<Rightarrow> time_t \<Rightarrow> time_t) \<Rightarrow> wstring list \<Rightarrow> time_t" where
  "szb_get_last_av_date z now meaner search params =
     (let t = szb_round_time z now PT_MIN10 0;
          av = (if meaner < 0 then last_of_params search t meaner params else meaner) in
      if av < 0 then now else av)"

subsection \<open>Probe searches are linear searches\<close>

function back_slots :: "int \<Rightarrow> time_t \<Rightarrow> time_t \<Rightarrow> time_t list" where
  "back_slots d fin t = (if 0 < d \<and> t \<ge> fin then t # back_slots d fin (t - d) else [])"
  by auto
termination by (relation "measure (\<lambda>(d, fin, t). nat (t - fin + 1))") auto

declare back_slots.simps [simp del]

definition first_time :: "(time_t \<Rightarrow> bool) \<Rightarrow> time_t list \<Rightarrow> time_t" where
  "first_time P ts = (case find P ts of None \<Rightarrow> - 1 | Some t \<Rightarrow> t)"

lemma first_time_simps [simp]:
  "first_time P [] = - 1" "first_time P (t # ts) = (if P t then t else first_time P ts)"
  by (simp_all add: first_time_def)

text \<open>Every block is there and starts where it should.\<close>

definition probes_there :: "avg_env \<Rightarrow> bool" where
  "probes_there env \<longleftrightarrow> (\<forall>s. \<exists>b. ae_probe env s = Some b \<and> pb_start b = s \<and> length (pb_data b) = 1800)"

definition block_at :: "avg_env \<Rightarrow> probeblock option \<Rightarrow> bool" where
  "block_at env block \<longleftrightarrow> (case block of None \<Rightarrow> True
     | Some b \<Rightarrow> ae_probe env (pb_start b) = Some b \<and> pb_start b mod 18000 = 0 \<and> 0 \<le> pb_start b)"

lemma probe_split:
  assumes "0 \<le> t"
  obtains s d where "t = s + d" "s mod 18000 = 0" "0 \<le> s" "0 \<le> d" "d < 18000" "szb_round_to_probe_block_start t = s"
proof -
  have "t = (t - t mod 18000) + t mod 18000" "(t - t mod 18000) mod 18000 = 0" "0 \<le> t - t mod 18000" "0 \<le> t mod 18000" "t mod 18000 < 18000"
    using zmod_le_nonneg_dividend [OF assms, of 18000] by (simp_all add: minus_mod_eq_mult_div)
  then show thesis using that [of "t - t mod 18000" "t mod 18000"] probe_block_start [of "t - t mod 18000" "t mod 18000"] by simp
qed

lemma probe_visit_value:
  assumes "probes_there env" "\<forall>s. \<not> stop s" "block_at env block" "0 \<le> t"
  obtains b where "probe_visit env stop cond t block = Some (if cond (probe_value env t) then Inl t else Inr b)" "block_at env (Some b)"
proof -
  obtain s d where s: "t = s + d" "s mod 18000 = 0" "0 \<le> s" "0 \<le> d" "d < 18000" "szb_round_to_probe_block_start t = s"
    by (rule probe_split [OF assms(4)])
  obtain b where b: "ae_probe env s = Some b" "pb_start b = s" "length (pb_data b) = 1800" using assms(1) unfolding probes_there_def by blast
  have used: "(if (case block of None \<Rightarrow> True | Some b \<Rightarrow> \<not> covers b t) then ae_probe env s else block) = Some b"
  proof (cases block)
    case (Some c)
    show ?thesis
    proof (cases "covers c t")
      case True
      have c: "ae_probe env (pb_start c) = Some c" "pb_start c mod 18000 = 0" "0 \<le> pb_start c" using assms(3) Some by (simp_all add: block_at_def)
      have "pb_start c \<le> t" "t < pb_start c + 18000" using True by (simp_all add: covers_def szb_consts)
      then have "szb_round_to_probe_block_start t = pb_start c" using probe_block_start [OF c(3,2), of "t - pb_start c"] by simp
      then show ?thesis using Some True c(1) b(1) s(6) by simp
    qed (use Some b in simp)
  qed (use b in simp)
  have "0 \<le> d div 10" "d div 10 < 1800" using s(4,5) by (simp_all add: pos_imp_zdiv_nonneg_iff div_less_iff_less_mult)
  moreover from this have "c_int (d div 10) = d div 10" by (simp add: int_range_def)
  ultimately have "c_index (pb_data b) (c_int ((t - pb_start b) sdiv SZBASE_PROBE_SPAN)) = Some (pb_data b ! nat (d div 10))"
    using s(1,4,5) b(2,3) by (simp add: szb_consts sdiv_nonneg c_index_def)
  then have "probe_visit env stop cond t block = Some (if cond (probe_value env t) then Inl t else Inr b)"
    unfolding probe_visit_def Let_def s(6) used using s(1,6) b(1) assms(2) by (simp add: probe_value_def)
  moreover have "block_at env (Some b)" using b s by (simp add: block_at_def)
  ultimately show thesis by (rule that)
qed

lemma probe_loop_right:
  assumes "probes_there env" "\<forall>s. \<not> stop s" "block_at env block" "0 \<le> t"
  shows "probe_range_loop env stop cond 1 fin t block = Some (first_time (\<lambda>t. cond (probe_value env t)) (slots 10 (fin + 1) t))"
  using assms(3,4)
proof (induction "nat (fin - t + 1)" arbitrary: t block rule: less_induct)
  case less
  show ?case
  proof (cases "t \<le> fin")
    case True
    obtain b where b: "probe_visit env stop cond t block = Some (if cond (probe_value env t) then Inl t else Inr b)" "block_at env (Some b)"
      by (rule probe_visit_value [OF assms(1,2) less(2,3)])
    have "probe_range_loop env stop cond 1 fin (t + 10) (Some b) = Some (first_time (\<lambda>t. cond (probe_value env t)) (slots 10 (fin + 1) (t + 10)))"
      using True b(2) less(3) by (intro less(1)) auto
    then show ?thesis using True b(1) by (simp add: probe_range_loop.simps [of _ _ _ _ _ t] slots_Cons SZBASE_PROBE_SPAN_def)
  qed (simp add: probe_range_loop.simps)
qed

lemma probe_loop_left:
  assumes "probes_there env" "\<forall>s. \<not> stop s" "block_at env block" "0 \<le> fin"
  shows "probe_range_loop env stop cond (- 1) fin t block = Some (first_time (\<lambda>t. cond (probe_value env t)) (back_slots 10 fin t))"
  using assms(3)
proof (induction "nat (t - fin + 1)" arbitrary: t block rule: less_induct)
  case less
  show ?case
  proof (cases "fin \<le> t")
    case True
    then have "0 \<le> t" using assms(4) by simp
    then obtain b where b: "probe_visit env stop cond t block = Some (if cond (probe_value env t) then Inl t else Inr b)" "block_at env (Some b)"
      by (rule probe_visit_value [OF assms(1,2) less(2)])
    have "probe_range_loop env stop cond (- 1) fin (t - 10) (Some b) = Some (first_time (\<lambda>t. cond (probe_value env t)) (back_slots 10 fin (t - 10)))"
      using True b(2) by (intro less(1)) auto
    then show ?thesis using True b(1) by (simp add: probe_range_loop.simps [of _ _ _ _ _ t] back_slots.simps [of _ _ t] SZBASE_PROBE_SPAN_def)
  next
    case False
    then show ?thesis by (simp add: probe_range_loop.simps back_slots.simps [of _ _ t])
  qed
qed

lemma last_of_params_first:
  assumes "\<And>p t. - 1 \<le> t \<Longrightarrow> - 1 \<le> search p t \<and> search p t \<le> t" "- 1 \<le> t" "t \<le> av"
  shows "last_of_params search t av ps = av"
  using assms(2,3)
proof (induction ps arbitrary: t)
  case (Cons p ps)
  have "- 1 \<le> search p t" "search p t \<le> t" using assms(1) [OF Cons(2)] by simp_all
  then show ?case using Cons by (simp add: Let_def)
qed simp

text \<open>Without the date of the daemon, the last date of a data base is that of its first parameter: each search starts
  at the result of the one before, so the other parameters can only give earlier dates, and none when the
  first one has no data. The search to the left is taken to return no time after the one it
  starts from.\<close>

lemma last_date_of_first_param:
  assumes "\<And>p t. - 1 \<le> t \<Longrightarrow> - 1 \<le> search p t \<and> search p t \<le> t" "- 1 \<le> szb_round_time z now PT_MIN10 0"
  shows "szb_get_last_av_date z now (- 1) search (p # ps) =
    (let t = search p (szb_round_time z now PT_MIN10 0) in if t < 0 then now else t)"
proof -
  let ?t = "search p (szb_round_time z now PT_MIN10 0)"
  have "- 1 \<le> ?t" using assms by blast
  then have "last_of_params search ?t (if ?t > - 1 then ?t else - 1) ps = ?t" using last_of_params_first [of search ?t ?t ps] assms(1) by auto
  then show ?thesis by (auto simp: szb_get_last_av_date_def Let_def split: if_splits)
qed

text \<open>The offset of the end of a Lua parameter is added twice.\<close>

lemma lua_end_offset_twice:
  "szb_lua_search_first_last_date sv env z first_av p PT_MIN10 =
     Some (szb_round_time z (if lp_start p > 0 then lp_start p else first_av) PT_MIN10 0 + lp_start_offset p, re_meaner env + 2 * lp_end_offset p)"
  by (simp add: szb_lua_search_first_last_date_def)

subsection \<open>Properties\<close>

text \<open>C40. The search in blocks of ten-second probes finds what looking at every probe finds: with all blocks there,
  no error and no timeout, from a time on that is not negative, the search to the right and the search
  to the left end, index no array outside of its bounds, and return the first time, in their direction, whose probe meets the
  condition, and -1 if there is none, whichever blocks they keep on the way.\<close>

theorem probe_search_finds_first:
  assumes "probes_there env" "\<forall>s. \<not> stop s" "ae_const env = None" "0 \<le> start" "0 \<le> fin"
  shows "search_in_probe_range env stop cond start fin 1 = Some (first_time (\<lambda>t. cond (probe_value env t)) (slots 10 (fin + 1) start)) \<and>
    search_in_probe_range env stop cond start fin (- 1) = Some (first_time (\<lambda>t. cond (probe_value env t)) (back_slots 10 fin start))"
  using probe_loop_right [OF assms(1,2) _ assms(4), of None] probe_loop_left [OF assms(1,2) _ assms(5), of None] assms(3)
  by (simp add: search_in_probe_range_def block_at_def)

theorem probe_search_finds_first_witness:
  "search_in_probe_range demo_avg (\<lambda>_. False) (\<lambda>v. v \<noteq> FNaN) 17990 18000 1 = Some 17990"
proof -
  have "probes_there demo_avg" by (simp add: probes_there_def demo_avg_def)
  moreover have "probe_value demo_avg 17990 = Fin 1"
    using probe_block_start [of 0 17990] by (simp add: probe_value_def demo_avg_def)
  moreover have "ae_const demo_avg = None" by (simp add: demo_avg_def)
  ultimately show ?thesis
    using probe_search_finds_first [of demo_avg "\<lambda>_. False" 17990 18000 "\<lambda>v. v \<noteq> FNaN"] by (simp add: slots_Cons)
qed

end
