(* ===== verification/Funtable.thy ===== *)
theory Funtable
  imports Ieee "HOL-Library.Monad_Syntax"
begin

text \<open>
  The functions a formula may call, \<open>parcook/funtable.cc\<close>: interpolation tables for the
  heating curve, sums over the parameters that have data, a bit of a number. They read their
  arguments from an array that is a window of the evaluator's stack, so an argument may lie
  outside of the stack or have never been written: \<open>rd\<close> gives \<open>None\<close> then, and a function that
  reads such a slot has no result.

  Tables are kept as integers (hundredths or tenths) and rounded to the format of the array when
  read, as the compiler rounds the literals. The same tables with \<open>double\<close> entries are those of
  \<open>libSzarp2/szbase/definablecalculate.cc\<close>.
\<close>

unbundle bit_operations_syntax

type_synonym slots = "fp option list"

definition rd :: "'a option list \<Rightarrow> int \<Rightarrow> 'a option" where
  "rd a i = (if 0 \<le> i \<and> i < int (length a) then a ! nat i else None)"

subsection \<open>Tables\<close>

definition Fi :: "int list list list" where
  "Fi =
   [[[100, 97, 95, 92, 89, 87, 84, 82, 79, 76, 74, 71, 68, 66, 63, 61, 58, 55, 53, 50, 47, 45,
      42, 39, 37, 34, 32, 29, 26, 24, 21, 18, 16],
          [104, 101, 99, 96, 93, 90, 88, 85, 82, 79, 77, 74, 71, 68, 65, 63, 60, 57, 55, 52,
      49, 47, 44, 41, 38, 36, 33, 30, 27, 25, 22, 19, 16],
          [107, 104, 101, 99, 96, 93, 90, 87, 84, 82, 79, 76, 73, 70, 68, 65, 62, 59, 56, 53,
      51, 48, 45, 42, 39, 37, 34, 31, 28, 25, 23, 20, 17]],
        [[99, 96, 93, 91, 88, 85, 82, 80, 77, 74, 71, 69, 66, 63, 60, 58, 55, 52, 49, 47, 44,
      41, 38, 35, 33, 30, 27, 24, 22, 19, 16, 13, 11],
          [103, 100, 97, 94, 91, 89, 86, 83, 80, 77, 74, 71, 68, 66, 63, 60, 57, 54, 51, 48,
      45, 43, 40, 37, 34, 31, 28, 25, 22, 20, 17, 14, 11],
          [106, 103, 100, 97, 94, 91, 88, 85, 82, 79, 76, 73, 70, 67, 65, 62, 59, 56, 53, 50,
      47, 44, 41, 38, 35, 32, 29, 26, 23, 20, 17, 14, 11]],
        [[98, 95, 92, 89, 86, 84, 81, 78, 75, 72, 69, 66, 63, 60, 57, 55, 52, 49, 46, 43, 40,
      37, 34, 31, 29, 26, 23, 20, 17, 14, 11, 6, 5],
          [102, 99, 98, 98, 90, 87, 84, 81, 78, 75, 72, 69, 66, 63, 60, 57, 54, 51, 48, 43,
      42, 39, 36, 33, 30, 27, 24, 21, 18, 15, 12, 9, 6],
          [105, 102, 99, 96, 92, 89, 86, 83, 80, 79, 74, 71, 68, 65, 61, 58, 55, 51, 49, 44,
      43, 42, 37, 34, 31, 27, 24, 21, 18, 15, 12, 9, 5]]]"

definition Tz :: "int list" where
  "Tz = [650, 650, 650, 650, 650, 650, 650, 650, 650, 657, 664, 677, 689, 702, 714, 727, 739, 751,
     763, 776, 788, 800, 812, 824, 836, 848, 860, 872, 884, 896, 907, 919, 930, 942, 953,
     965, 976, 988, 999, 1011, 1022, 1033, 1044, 1056, 1067, 1078, 1089, 1100, 1111, 1123,
     1134, 1145, 1155, 1166, 1177, 1188, 1199, 1210, 1221, 1232, 1243, 1254, 1265, 1276,
     1287, 1299, 1310, 1321, 1331, 1342, 1353, 1364, 1375, 1386, 1397, 1408, 1419, 1430,
     1440, 1451, 1462]"

definition Tp :: "int list" where
  "Tp = [493, 486, 479, 472, 464, 457, 450, 443, 435, 431, 426, 429, 432, 442, 452, 458, 463, 469,
     474, 479, 484, 490, 495, 500, 504, 510, 515, 520, 525, 530, 534, 539, 544, 549, 554,
     559, 563, 568, 573, 577, 581, 586, 591, 596, 600, 605, 609, 614, 618, 623, 627, 631,
     635, 640, 644, 648, 652, 657, 661, 665, 669, 674, 678, 682, 686, 691, 695, 699, 703,
     707, 711, 716, 720, 724, 727, 732, 736, 740, 744, 748, 751]"

definition H2Vtab :: "int list" where
  "H2Vtab = [0, 8, 24, 44, 66, 90, 116, 144, 172, 200, 230, 258, 288, 316, 344, 370, 394, 416, 436, 452,
     460, 460]"

definition hundredths :: "format \<Rightarrow> int \<Rightarrow> fp" where
  "hundredths f n = round_to f (of_int n / 100)"

definition tenths :: "format \<Rightarrow> int \<Rightarrow> fp" where
  "tenths f n = round_to f (of_int n / 10)"

subsection \<open>Index computations\<close>

definition fixo_index :: "short \<Rightarrow> short \<Rightarrow> short \<Rightarrow> int \<times> int \<times> int" where
  "fixo_index x y z =
     (let x = sint x; y = sint y; z = sint z;
          x = (if x < 0 then 0 else x); x = (if x > 2 then 2 else x);
          y = (if y < 3 then 0 else if y < 8 then 1 else 2);
          z = (if z < - 20 then - 20 else z); z = (if z > 12 then 12 else z)
      in (x, y, z + 20))"

definition reg_index :: "short \<Rightarrow> int" where
  "reg_index x = (let x = sint x; x = (if x < 20 then 20 else x); x = (if x > 100 then 100 else x)
     in x - 20)"

subsection \<open>The functions\<close>

definition Fixo :: "slots \<Rightarrow> fp option" where
  "Fixo parlst = do {
     p0 \<leftarrow> rd parlst 0; p1 \<leftarrow> rd parlst 1; p2 \<leftarrow> rd parlst 2;
     let (x, y, z) = fixo_index (to_short (frint p0)) (to_short (frint p1)) (to_short (frint p2));
     plane \<leftarrow> c_index Fi x; row \<leftarrow> c_index plane y; v \<leftarrow> c_index row z;
     Some (hundredths float32 v) }"

definition TabRegZas :: "slots \<Rightarrow> fp option" where
  "TabRegZas parlst = do {
     p0 \<leftarrow> rd parlst 0;
     v \<leftarrow> c_index Tz (reg_index (to_short (frint (fmul float64 p0 (Fin 100)))));
     Some (tenths float32 v) }"

definition TabRegPow :: "slots \<Rightarrow> fp option" where
  "TabRegPow parlst = do {
     p0 \<leftarrow> rd parlst 0;
     v \<leftarrow> c_index Tp (reg_index (to_short (frint (fmul float64 p0 (Fin 100)))));
     Some (tenths float32 v) }"

definition Positive :: "slots \<Rightarrow> fp option" where
  "Positive parlst = do { p0 \<leftarrow> rd parlst 0; Some (if fless (Fin 0) p0 then p0 else Fin 0) }"

text \<open>The loop over \<open>parlst[1]\<close>, \<open>parlst[2]\<close>, \dots{} as long as the index is at most the limit.\<close>

fun exist_loop :: "fp \<Rightarrow> (fp \<Rightarrow> 'a \<Rightarrow> 'a) \<Rightarrow> int \<Rightarrow> slots \<Rightarrow> 'a \<Rightarrow> 'a option" where
  "exist_loop maxi step i [] acc = (if fle (Fin (of_int i)) maxi then None else Some acc)"
| "exist_loop maxi step i (x # xs) acc =
     (if fle (Fin (of_int i)) maxi
      then (case x of None \<Rightarrow> None
            | Some v \<Rightarrow> exist_loop maxi step (i + 1) xs
                (if fless (Fin (- (10 ^ 20))) v then step v acc else acc))
      else Some acc)"

definition SumExisting :: "slots \<Rightarrow> (fp \<times> bool) option" where
  "SumExisting parlst = do {
     p0 \<leftarrow> rd parlst 0;
     (sum, valid) \<leftarrow> exist_loop (frint p0) (\<lambda>v (sum, valid). (fadd float32 sum v, valid + 1)) 1
                      (drop 1 parlst) (Fin 0, 0 :: 8 word);
     Some (sum, valid = 0) }"

definition CntExisting :: "slots \<Rightarrow> (fp \<times> bool) option" where
  "CntExisting parlst = do {
     p0 \<leftarrow> rd parlst 0;
     sum \<leftarrow> exist_loop (frint p0) (\<lambda>v sum. fadd float32 sum (Fin 1)) 1 (drop 1 parlst) (Fin 0);
     Some (sum, False) }"

definition WaterTankSuwa :: "slots \<Rightarrow> fp option" where
  "WaterTankSuwa parlst = do {
     p \<leftarrow> rd parlst 0;
     let p = (if fless p (Fin 0) then Fin 0 else p);
     let p = (if fless (Fin 100) p then Fin 100 else p);
     let ind = sint (to_int32 (frint (ffloor (fdiv float64 p (Fin 5)))));
     hi \<leftarrow> c_index H2Vtab (ind + 1); lo \<leftarrow> c_index H2Vtab ind;
     let diff = fsub float32 (tenths float32 hi) (tenths float32 lo);
     let slope = fdiv float64 diff (Fin 5);
     let off = fsub float64 p (fmul float64 (of_int_fp float32 ind) (Fin 5));
     let res = convert float32 (fadd float64 (fmul float64 slope off) (tenths float32 lo));
     Some (fmul float32 res (Fin 10)) }"

definition BitOfLog :: "slots \<Rightarrow> fp option" where
  "BitOfLog parlst = do {
     p0 \<leftarrow> rd parlst 0; p1 \<leftarrow> rd parlst 1;
     let val = to_int32 (frint p0);
     let sh = unat (to_int32 (frint p1)) mod 32;
     Some (if val AND push_bit sh 1 \<noteq> 0 then Fin 1 else Fin 0) }"

definition MAX_FID :: nat where
  "MAX_FID = 8"

text \<open>\<open>ChooseFun\<close>: the result, and the value given to \<open>CalculNoData\<close> if the function assigns it.\<close>

definition ChooseFun :: "fp \<Rightarrow> slots \<Rightarrow> (fp \<times> bool option) option" where
  "ChooseFun funid parlst =
     (let fid = unat (to_short funid); pure = map_option (\<lambda>v. (v, None));
          setting = map_option (\<lambda>(v, b). (v, Some b)) in
      if fid \<ge> MAX_FID then Some (Fin 0, None)
      else ([\<lambda>l. pure (Fixo l), \<lambda>l. pure (TabRegZas l), \<lambda>l. pure (TabRegPow l),
            \<lambda>l. pure (Positive l), \<lambda>l. setting (SumExisting l), \<lambda>l. setting (CntExisting l),
            \<lambda>l. pure (WaterTankSuwa l), \<lambda>l. pure (BitOfLog l)] ! fid) parlst)"

subsection \<open>No read outside of a table\<close>

lemma c_index_in: "0 \<le> i \<Longrightarrow> i < int (length xs) \<Longrightarrow> c_index xs i = Some (xs ! nat i)"
  by (simp add: c_index_def)

lemma table_shapes:
  "length Fi = 3" "p \<in> set Fi \<Longrightarrow> length p = 3 \<and> (\<forall>r\<in>set p. length r = 33)"
  "length Tz = 81" "length Tp = 81" "length H2Vtab = 22"
  by (auto simp: Fi_def Tz_def Tp_def H2Vtab_def)

lemma reg_index_bounds: "0 \<le> reg_index x" "reg_index x < 81"
  by (simp_all add: reg_index_def Let_def)

lemma fixo_index_bounds:
  assumes "fixo_index x y z = (i, j, k)"
  shows "0 \<le> i" "i < 3" "0 \<le> j" "j < 3" "0 \<le> k" "k < 33"
  using assms by (auto simp: fixo_index_def Let_def split: if_splits)

lemma Fixo_entry:
  assumes "0 \<le> i" "i < 3" "0 \<le> j" "j < 3" "0 \<le> k" "k < 33"
  shows "c_index Fi i \<bind> (\<lambda>p. c_index p j \<bind> (\<lambda>r. c_index r k)) = Some (Fi ! nat i ! nat j ! nat k)"
proof -
  have i: "nat i < length Fi" using assms by (simp add: table_shapes(1))
  then have "Fi ! nat i \<in> set Fi" by (rule nth_mem)
  note sh = table_shapes(2) [OF this]
  have "nat j < length (Fi ! nat i)" using assms sh by (simp add: nat_less_iff)
  then have r: "length (Fi ! nat i ! nat j) = 33" using sh nth_mem by blast
  have "c_index Fi i = Some (Fi ! nat i)" "c_index (Fi ! nat i) j = Some (Fi ! nat i ! nat j)"
    "c_index (Fi ! nat i ! nat j) k = Some (Fi ! nat i ! nat j ! nat k)"
    using assms sh r by (simp_all add: c_index_in table_shapes(1))
  then show ?thesis by simp
qed

lemma ind_bounds:
  assumes "0 \<le> r" "r \<le> 100"
  obtains v where "round_to float64 (r / 5) = Fin v" "0 \<le> \<lfloor>v\<rfloor>" "\<lfloor>v\<rfloor> \<le> 20"
proof -
  have "\<bar>r / 5\<bar> < pow2 (4 + 1)" using assms by (simp add: pow2_def)
  then obtain v where v: "round_to float64 (r / 5) = Fin v" "\<bar>v - r / 5\<bar> \<le> pow2 (4 - int (prec float64) + 1) / 2"
    by (rule round_to_finite [of _ 4 float64]) (simp_all add: float64_def)
  moreover have "pow2 (4 - int (prec float64) + 1) \<le> pow2 0" unfolding pow2_mono_iff by (simp add: float64_def)
  ultimately have "\<bar>v - r / 5\<bar> \<le> 1 / 2" by simp
  then have "v < 21" using assms by linarith
  moreover have "0 \<le> v" using round_to_nonneg [OF v(1)] assms by simp
  ultimately show thesis using that v(1) by (simp add: floor_le_iff)
qed

lemma WaterTankSuwa_total: "p \<noteq> FNaN \<Longrightarrow> \<exists>v. WaterTankSuwa (Some p # rest) = Some v"
proof -
  assume "p \<noteq> FNaN"
  define q where "q = (let p = if fless p (Fin 0) then Fin 0 else p in if fless (Fin 100) p then Fin 100 else p)"
  have "\<exists>r. q = Fin r \<and> 0 \<le> r \<and> r \<le> 100"
    using \<open>p \<noteq> FNaN\<close> by (cases p) (auto simp: q_def Let_def)
  then obtain r where r: "q = Fin r" "0 \<le> r" "r \<le> 100" by blast
  obtain v where v: "round_to float64 (r / 5) = Fin v" "0 \<le> \<lfloor>v\<rfloor>" "\<lfloor>v\<rfloor> \<le> 20"
    using ind_bounds [OF r(2,3)] .
  have "to_int32 (frint (ffloor (fdiv float64 q (Fin 5)))) = word_of_int \<lfloor>v\<rfloor>"
    using r(1) v by (simp add: to_int32_of_int int_range_def del: to_int32.simps)
  moreover have "sint (word_of_int \<lfloor>v\<rfloor> :: 32 word) = \<lfloor>v\<rfloor>"
    using v by (intro sint_word_of_int_eq) simp_all
  ultimately have "sint (to_int32 (frint (ffloor (fdiv float64 q (Fin 5))))) = \<lfloor>v\<rfloor>" by simp
  then show ?thesis
    using v unfolding WaterTankSuwa_def
    by (simp add: rd_def q_def [symmetric, unfolded Let_def] c_index_in table_shapes Let_def)
qed



end
