(* ===== verification/Calcul.thy ===== *)
theory Calcul
  imports Funtable
begin

text \<open>
  The formula evaluator of \<open>parcook/parcook.cc\<close>: formulas in reverse Polish notation, run on a
  stack of 31 floats with a no-data flag per slot; the final \<open>=\<close> stores the result in the probes
  segment. The pointer into the formula is the suffix it points at; the stack slots and flags
  start unwritten. A step that would read an unwritten slot, index outside of the arrays or move
  the pointer beyond the terminator is a \<open>Crash\<close>, so the absence of such behaviour is a theorem
  and not an assumption.
\<close>

subsection \<open>Numbers in formulas\<close>

definition is_wdigit :: "wchar \<Rightarrow> bool" where
  "is_wdigit c \<longleftrightarrow> 48 \<le> c \<and> c \<le> 57"

definition digits_value :: "wstring \<Rightarrow> int" where
  "digits_value ds = foldl (\<lambda>v c. v * 10 + (c - 48)) 0 ds"

text \<open>\<open>wcstof\<close>/\<open>wcstod\<close> on decimal numbers: sign, digits, fraction, decimal exponent. (The
  hexadecimal, infinity and NaN spellings do not occur in formulas.)\<close>

definition scan_sign :: "wstring \<Rightarrow> bool \<times> wstring" where
  "scan_sign s = (case s of c # r \<Rightarrow> if c = 45 then (True, r) else if c = 43 then (False, r) else (False, s)
     | [] \<Rightarrow> (False, s))"

definition scan_exponent :: "wstring \<Rightarrow> int" where
  "scan_exponent s = (case s of
     c # r \<Rightarrow> if c = 101 \<or> c = 69
       then (let (neg, t) = scan_sign r; ds = takeWhile is_wdigit t in
             if ds = [] then 0 else if neg then - digits_value ds else digits_value ds)
       else 0
   | [] \<Rightarrow> 0)"

definition pow10 :: "int \<Rightarrow> rat" where
  "pow10 e = (if 0 \<le> e then of_int (10 ^ nat e) else 1 / of_int (10 ^ nat (- e)))"

definition scan_fraction :: "wstring \<Rightarrow> wstring \<times> wstring" where
  "scan_fraction r = (case r of c # q \<Rightarrow>
       if c = 46 then (takeWhile is_wdigit q, dropWhile is_wdigit q) else ([], r)
     | [] \<Rightarrow> ([], []))"

definition scan_number :: "wstring \<Rightarrow> rat" where
  "scan_number s =
     (let (neg, t) = scan_sign (dropWhile (\<lambda>c. c = 32) s);
          whole = takeWhile is_wdigit t;
          (frac, r) = scan_fraction (dropWhile is_wdigit t);
          m = of_int (digits_value (whole @ frac)) / of_int (10 ^ length frac);
          v = m * pow10 (scan_exponent r)
      in if whole = [] \<and> frac = [] then 0 else if neg then - v else v)"

definition wcstof :: "wstring \<Rightarrow> fp" where
  "wcstof s = round_to float32 (scan_number s)"

definition wcstod :: "wstring \<Rightarrow> fp" where
  "wcstod s = round_to float64 (scan_number s)"

text \<open>\<open>wcschr(s, L' ')\<close>: the suffix at the first space, \<open>None\<close> for the null pointer.\<close>

definition wcschr_space :: "wstring \<Rightarrow> wstring option" where
  "wcschr_space s = (case dropWhile (\<lambda>c. c \<noteq> 32) s of [] \<Rightarrow> None | t \<Rightarrow> Some t)"

subsection \<open>Shared segments\<close>

text \<open>The segments the evaluator reads; \<open>None\<close> is a segment that cannot be attached, on which
  the program exits.\<close>

record segments =
  sMinute :: "short list option"
  sMin10 :: "short list option"
  sHour :: "short list option"

datatype 'a sys = Value 'a | Exit

definition shmGetValue :: "short list \<Rightarrow> segments \<Rightarrow> nat \<Rightarrow> nat \<Rightarrow> short sys" where
  "shmGetValue Probe segs adr shmdes =
     (let from = (\<lambda>seg. case seg of None \<Rightarrow> Exit | Some t \<Rightarrow> Value (t ! adr)) in
      if shmdes = 0 then Value (Probe ! adr)
      else if shmdes = 1 then from (sMinute segs)
      else if shmdes = 2 then from (sMin10 segs)
      else if shmdes = 3 then from (sHour segs)
      else Value SZARP_NO_DATA)"

subsection \<open>State and steps\<close>

record calc_state =
  stack :: slots
  nodata :: "bool option list"
  sp :: int
  CalculNoData :: bool
  NullFormula :: bool
  Probe :: "short list"

datatype step =
    Go "wstring option" calc_state
  | Return calc_state
  | Crash
  | Quit

abbreviation SS :: int where
  "SS \<equiv> 30"

definition wr :: "'a option list \<Rightarrow> int \<Rightarrow> 'a \<Rightarrow> 'a option list option" where
  "wr a i v = (if 0 \<le> i \<and> i < int (length a) then Some (a[nat i := Some v]) else None)"

text \<open>\<open>stack[i] = v\<close> and \<open>nodata[i] = b\<close>.\<close>

definition set_stack :: "int \<Rightarrow> fp \<Rightarrow> calc_state \<Rightarrow> calc_state option" where
  "set_stack i v st = map_option (\<lambda>a. st\<lparr>stack := a\<rparr>) (wr (stack st) i v)"

definition set_nodata :: "int \<Rightarrow> bool \<Rightarrow> calc_state \<Rightarrow> calc_state option" where
  "set_nodata i b st = map_option (\<lambda>a. st\<lparr>nodata := a\<rparr>) (wr (nodata st) i b)"

definition or_crash :: "'a option \<Rightarrow> ('a \<Rightarrow> step) \<Rightarrow> step" where
  "or_crash x f = (case x of None \<Rightarrow> Crash | Some v \<Rightarrow> f v)"

text \<open>Push a value with its no-data flag: \<open>nodata[sp] = b; stack[sp++] = v\<close>.\<close>

definition push :: "fp \<Rightarrow> bool \<Rightarrow> calc_state \<Rightarrow> calc_state option" where
  "push v b st = do {
     st1 \<leftarrow> set_nodata (sp st) b st;
     st2 \<leftarrow> set_stack (sp st) v st1;
     Some (st2\<lparr>sp := sp st + 1\<rparr>) }"

text \<open>The digit branch: a parameter address with the segment number after the point.\<close>

definition param_ref :: "wstring \<Rightarrow> nat \<times> nat" where
  "param_ref s = (let tmp = wcstof s in
     (unat (to_short (frint (ffloor tmp))),
      unat (to_uchar (frint (fmul float64 (Fin 10) (fmod1 tmp))))))"

definition exec_param :: "nat \<Rightarrow> segments \<Rightarrow> wstring \<Rightarrow> calc_state \<Rightarrow> step" where
  "exec_param VTlen segs s st =
     (let (adr, shmdes) = param_ref s; next = wcschr_space s in
      if adr \<ge> VTlen then Return st
      else case shmGetValue (Probe st) segs adr shmdes of
        Exit \<Rightarrow> Quit
      | Value val \<Rightarrow> or_crash (push (of_int_fp float32 (sint val)) (val = SZARP_NO_DATA) st) (Go next))"

text \<open>The common shape of the binary operators: pop, give up on no data, combine.\<close>

definition exec_binary ::
  "(fp \<Rightarrow> fp \<Rightarrow> calc_state \<Rightarrow> calc_state option) \<Rightarrow> wstring \<Rightarrow> calc_state \<Rightarrow> step" where
  "exec_binary f s st =
     (if sp st < 2 then Return (st\<lparr>sp := sp st - 1\<rparr>)
      else
        let st1 = st\<lparr>sp := sp st - 1\<rparr> in
        or_crash (rd (nodata st1) (sp st1)) (\<lambda>n1.
        or_crash (if n1 then Some True else rd (nodata st1) (sp st1 - 1)) (\<lambda>n.
        if n then Go (Some s) (st1\<lparr>CalculNoData := True\<rparr>)
        else
          or_crash (rd (stack st1) (sp st1 - 1)) (\<lambda>a.
          or_crash (rd (stack st1) (sp st1)) (\<lambda>b.
          or_crash (f a b st1) (Go (Some s)))))))"

definition put :: "fp \<Rightarrow> calc_state \<Rightarrow> calc_state option" where
  "put v st = set_stack (sp st - 1) v st"

definition exec_swap :: "wstring \<Rightarrow> calc_state \<Rightarrow> step" where
  "exec_swap s st =
     (if sp st < 2 then Return st
      else or_crash (do {
          tmp \<leftarrow> rd (stack st) (sp st - 1); a \<leftarrow> rd (stack st) (sp st - 2);
          st1 \<leftarrow> set_stack (sp st - 1) a st; set_stack (sp st - 2) tmp st1 }) (Go (Some s)))"

definition exec_dup :: "wstring \<Rightarrow> calc_state \<Rightarrow> step" where
  "exec_dup s st =
     or_crash (do { a \<leftarrow> rd (stack st) (sp st - 1); st1 \<leftarrow> set_stack (sp st) a st;
                    Some (st1\<lparr>sp := sp st + 1\<rparr>) }) (Go (Some s))"

definition exec_call :: "wstring \<Rightarrow> calc_state \<Rightarrow> step" where
  "exec_call s st =
     (if sp st < 2 then Return (st\<lparr>sp := sp st - 1\<rparr>)
      else
        let st1 = st\<lparr>sp := sp st - 1\<rparr> in
        or_crash (rd (stack st1) (sp st1 - 1)) (\<lambda>c.
        let parcnt = sint (to_short (frint c)); base = sp st1 - parcnt - 1 in
        if sp st1 < parcnt + 1 then Return st1
        else or_crash (do {
            funid \<leftarrow> rd (stack st1) (sp st1);
            (v, flag) \<leftarrow> (if base < int (length (stack st1))
                          then ChooseFun funid (drop (nat base) (stack st1)) else None);
            st2 \<leftarrow> set_stack base v st1;
            Some (st2\<lparr>sp := sp st1 - parcnt,
                       CalculNoData := (case flag of None \<Rightarrow> CalculNoData st | Some b \<Rightarrow> b)\<rparr>) })
          (Go (Some s))))"

definition exec_const :: "wstring \<Rightarrow> calc_state \<Rightarrow> step" where
  "exec_const s st = or_crash (push (wcstof (tl s)) False st) (Go (wcschr_space (tl s)))"

definition exec_if :: "wstring \<Rightarrow> calc_state \<Rightarrow> step" where
  "exec_if s st =
     (case tl s of
        c # r \<Rightarrow>
          if c = 102 then
            (if sp st < 3 then Return (st\<lparr>sp := sp st - 1\<rparr>)
             else
               let st1 = st\<lparr>sp := sp st - 1\<rparr> in
               or_crash (rd (nodata st1) (sp st1)) (\<lambda>n.
               if n then Go (Some (tl s)) (st1\<lparr>CalculNoData := True\<rparr>)
               else or_crash (rd (stack st1) (sp st1)) (\<lambda>cond.
                 or_crash (if feq cond (Fin 0)
                           then do { b \<leftarrow> rd (stack st1) (sp st1 - 1); set_stack (sp st1 - 2) b st1 }
                           else Some st1) (\<lambda>st2.
                 Go (Some (tl s)) (st2\<lparr>sp := sp st1 - 1\<rparr>)))))
          else Go (Some (tl s)) st
      | [] \<Rightarrow> Go (Some []) st)"

definition exec_alternative :: "wstring \<Rightarrow> calc_state \<Rightarrow> step" where
  "exec_alternative s st =
     (if sp st < 2 then Return (st\<lparr>sp := sp st - 1\<rparr>)
      else
        let st1 = st\<lparr>sp := sp st - 1\<rparr> in
        or_crash (rd (nodata st1) (sp st1 - 1)) (\<lambda>n.
        if n then or_crash (do {
            v \<leftarrow> rd (stack st1) (sp st1); b \<leftarrow> rd (nodata st1) (sp st1);
            st2 \<leftarrow> set_stack (sp st1 - 1) v st1; set_nodata (sp st1 - 1) b st2 }) (Go (Some s))
        else Go (Some s) st1))"

definition exec_store :: "nat \<Rightarrow> calc_state \<Rightarrow> step" where
  "exec_store VTlen st =
     (if sp st < 2 then Return (st\<lparr>sp := sp st - 1\<rparr>)
      else
        let st1 = st\<lparr>sp := sp st - 1\<rparr> in
        or_crash (rd (stack st1) (sp st1)) (\<lambda>a.
        let adr = unat (to_short (frint a)) in
        if adr \<ge> VTlen then Return st1
        else if CalculNoData st1 then Return (st1\<lparr>Probe := (Probe st1)[adr := SZARP_NO_DATA]\<rparr>)
        else if NullFormula st1 then Return st1
        else or_crash (rd (nodata st1) (sp st1 - 1)) (\<lambda>n.
          if n then Return (st1\<lparr>Probe := (Probe st1)[adr := SZARP_NO_DATA]\<rparr>)
          else or_crash (rd (stack st1) (sp st1 - 1)) (\<lambda>v.
            Return (st1\<lparr>Probe := (Probe st1)[adr := to_short (frint v)]\<rparr>)))))"

definition exec_null :: "wstring \<Rightarrow> calc_state \<Rightarrow> step" where
  "exec_null s st = (if length s < 3 then Crash else Go (Some (drop 3 s)) (st\<lparr>NullFormula := True\<rparr>))"

definition bool_fp :: "bool \<Rightarrow> fp" where
  "bool_fp b = (if b then Fin 1 else Fin 0)"

definition calc_divide :: "fp \<Rightarrow> fp \<Rightarrow> calc_state \<Rightarrow> calc_state option" where
  "calc_divide a b st1 =
     (if \<not> feq b (Fin 0) then put (fdiv float32 a b) st1
      else put (Fin 1) (st1\<lparr>CalculNoData := True\<rparr>))"

definition mark_if :: "bool \<Rightarrow> calc_state \<Rightarrow> calc_state option" where
  "mark_if b st1 = (if b then set_nodata (sp st1 - 1) True st1 else Some st1)"

text \<open>One pass of the loop body; \<open>s\<close> is the suffix at \<open>chptr\<close>, empty at the terminator. The
  character codes are those of \<open>& ! $ # i n + - * / > < ~ N m M =\<close>; a space or an unknown
  character is skipped.\<close>

definition calc_step :: "nat \<Rightarrow> segments \<Rightarrow> wstring \<Rightarrow> calc_state \<Rightarrow> step" where
  "calc_step VTlen segs s st =
     (if sp st \<ge> SS then Return (st\<lparr>CalculNoData := True\<rparr>)
      else case s of [] \<Rightarrow> Go (Some []) st
      | c # _ \<Rightarrow>
        if is_wdigit c then exec_param VTlen segs s st
        else if c = 38 then exec_swap s st
        else if c = 33 then exec_dup s st
        else if c = 36 then exec_call s st
        else if c = 35 then exec_const s st
        else if c = 105 then exec_if s st
        else if c = 110 then exec_null s st
        else if c = 43 then exec_binary (\<lambda>a b. put (fadd float32 a b)) s st
        else if c = 45 then exec_binary (\<lambda>a b. put (fsub float32 a b)) s st
        else if c = 42 then exec_binary (\<lambda>a b. put (fmul float32 a b)) s st
        else if c = 47 then exec_binary calc_divide s st
        else if c = 62 then exec_binary (\<lambda>a b. put (bool_fp (fless b a))) s st
        else if c = 60 then exec_binary (\<lambda>a b. put (bool_fp (fless a b))) s st
        else if c = 126 then exec_binary (\<lambda>a b. put (bool_fp (feq a b))) s st
        else if c = 78 then exec_alternative s st
        else if c = 109 then exec_binary (\<lambda>a b. mark_if (fless a b)) s st
        else if c = 77 then exec_binary (\<lambda>a b. mark_if (fless b a)) s st
        else if c = 61 then exec_store VTlen st
        else Go (Some s) st)"

subsection \<open>The loop\<close>

lemma or_crash_Go:
  "or_crash x f = Go t st \<longleftrightarrow> (\<exists>v. x = Some v \<and> f v = Go t st)"
  by (simp add: or_crash_def split: option.splits)

lemma or_crash_Return:
  "or_crash x f = Return st \<longleftrightarrow> (\<exists>v. x = Some v \<and> f v = Return st)"
  by (simp add: or_crash_def split: option.splits)

lemma or_crash_Some [simp]: "or_crash (Some v) f = f v"
  by (simp add: or_crash_def)

lemmas exec_defs = exec_param_def exec_swap_def exec_dup_def exec_call_def exec_const_def exec_if_def
  exec_null_def exec_alternative_def exec_store_def exec_binary_def

lemma wcschr_space_length: "wcschr_space s = Some t \<Longrightarrow> length t \<le> length s"
  by (simp add: wcschr_space_def split: list.splits) (metis length_dropWhile_le)

text \<open>The pointer never moves back.\<close>

lemma exec_if_pointer: "exec_if s st = Go p st' \<Longrightarrow> p = Some (tl s)"
  by (auto simp: exec_if_def Let_def or_crash_Go split: if_splits list.splits)

lemma exec_store_not_Go [simp]: "exec_store VTlen st \<noteq> Go p st'"
  by (auto simp: exec_store_def Let_def or_crash_def split: option.splits)

lemma exec_pointer:
  "exec_param VTlen segs s st = Go p st' \<Longrightarrow> p = wcschr_space s"
  "exec_const s st = Go p st' \<Longrightarrow> p = wcschr_space (tl s)"
  "exec_swap s st = Go p st' \<Longrightarrow> p = Some s"
  "exec_dup s st = Go p st' \<Longrightarrow> p = Some s"
  "exec_call s st = Go p st' \<Longrightarrow> p = Some s"
  "exec_binary f s st = Go p st' \<Longrightarrow> p = Some s"
  "exec_alternative s st = Go p st' \<Longrightarrow> p = Some s"
  "exec_null s st = Go p st' \<Longrightarrow> p = Some (drop 3 s)"
  by (auto simp: exec_defs Let_def or_crash_Go split: if_splits sys.splits prod.splits)

lemma exec_forward:
  "exec_param VTlen segs s st = Go (Some t) st' \<Longrightarrow> length t \<le> length s"
  "exec_swap s st = Go (Some t) st' \<Longrightarrow> length t \<le> length s"
  "exec_dup s st = Go (Some t) st' \<Longrightarrow> length t \<le> length s"
  "exec_call s st = Go (Some t) st' \<Longrightarrow> length t \<le> length s"
  "exec_const s st = Go (Some t) st' \<Longrightarrow> length t \<le> length s"
  "exec_if s st = Go (Some t) st' \<Longrightarrow> length t \<le> length s"
  "exec_null s st = Go (Some t) st' \<Longrightarrow> length t \<le> length s"
  "exec_binary f s st = Go (Some t) st' \<Longrightarrow> length t \<le> length s"
  "exec_alternative s st = Go (Some t) st' \<Longrightarrow> length t \<le> length s"
  using wcschr_space_length [of s t] wcschr_space_length [of "tl s" t]
  by (auto dest!: exec_pointer exec_if_pointer)

lemma calc_step_forward: "calc_step VTlen segs s st = Go (Some t) st' \<Longrightarrow> length t \<le> length s"
  by (auto simp: calc_step_def dest: exec_forward split: if_splits list.splits)

function Calcul_loop :: "nat \<Rightarrow> segments \<Rightarrow> wstring \<Rightarrow> calc_state \<Rightarrow> step" where
  "Calcul_loop VTlen segs s st =
     (case calc_step VTlen segs s st of
        Go p st' \<Rightarrow>
          (case p of None \<Rightarrow> Crash
           | Some t \<Rightarrow>
             (case t of [] \<Rightarrow> Crash
              | _ # u \<Rightarrow> if u = [] then Return st' else Calcul_loop VTlen segs u st'))
      | r \<Rightarrow> r)"
  by pat_completeness auto
termination
  by (relation "measure (\<lambda>(_, _, s, _). length s)") (auto dest!: calc_step_forward)

declare Calcul_loop.simps [simp del]

definition calc_init :: "short list \<Rightarrow> calc_state" where
  "calc_init P = \<lparr> stack = replicate 31 None, nodata = replicate 31 None, sp = 0,
     CalculNoData = False, NullFormula = False, Probe = P \<rparr>"

definition Calcul :: "nat \<Rightarrow> segments \<Rightarrow> wstring \<Rightarrow> short list \<Rightarrow> step" where
  "Calcul VTlen segs formula P = Calcul_loop VTlen segs formula (calc_init P)"

subsection \<open>What an evaluation may change\<close>

lemma set_stack_Probe: "set_stack i v st = Some st' \<Longrightarrow> Probe st' = Probe st"
  by (auto simp: set_stack_def)

lemma set_nodata_Probe: "set_nodata i b st = Some st' \<Longrightarrow> Probe st' = Probe st"
  by (auto simp: set_nodata_def)

lemma push_Probe: "push v b st = Some st' \<Longrightarrow> Probe st' = Probe st"
  by (auto simp: push_def bind_eq_Some_conv dest!: set_stack_Probe set_nodata_Probe)

lemma put_Probe: "put v st = Some st' \<Longrightarrow> Probe st' = Probe st"
  by (auto simp: put_def dest: set_stack_Probe)

lemma calc_divide_Probe: "calc_divide a b st = Some st' \<Longrightarrow> Probe st' = Probe st"
  by (auto simp: calc_divide_def dest: put_Probe split: if_splits)

lemma mark_if_Probe: "mark_if b st = Some st' \<Longrightarrow> Probe st' = Probe st"
  by (auto simp: mark_if_def dest: set_nodata_Probe split: if_splits)

lemmas keep_Probe = set_stack_Probe set_nodata_Probe push_Probe put_Probe calc_divide_Probe mark_if_Probe

lemma exec_binary_Probe:
  assumes "\<And>a b s s'. f a b s = Some s' \<Longrightarrow> Probe s' = Probe s" "exec_binary f s st = Go p st'"
  shows "Probe st' = Probe st"
  using assms(2) by (auto simp: exec_binary_def Let_def or_crash_Go dest: assms(1) split: if_splits)

lemma exec_Go_Probe:
  "exec_param VTlen segs s st = Go p st' \<Longrightarrow> Probe st' = Probe st"
  "exec_swap s st = Go p st' \<Longrightarrow> Probe st' = Probe st"
  "exec_dup s st = Go p st' \<Longrightarrow> Probe st' = Probe st"
  "exec_call s st = Go p st' \<Longrightarrow> Probe st' = Probe st"
  "exec_const s st = Go p st' \<Longrightarrow> Probe st' = Probe st"
  "exec_null s st = Go p st' \<Longrightarrow> Probe st' = Probe st"
  "exec_alternative s st = Go p st' \<Longrightarrow> Probe st' = Probe st"
  by (auto simp: exec_defs Let_def or_crash_Go bind_eq_Some_conv dest!: keep_Probe
      split: if_splits sys.splits prod.splits)

lemma exec_if_Probe: "exec_if s st = Go p st' \<Longrightarrow> Probe st' = Probe st"
  by (auto simp: exec_if_def Let_def or_crash_Go bind_eq_Some_conv dest!: keep_Probe
      split: if_splits list.splits)

lemma calc_step_Go_Probe: "calc_step VTlen segs s st = Go p st' \<Longrightarrow> Probe st' = Probe st"
  by (auto simp: calc_step_def dest!: exec_Go_Probe exec_if_Probe exec_binary_Probe [rotated]
      dest: keep_Probe split: if_splits list.splits)

definition writes_one :: "nat \<Rightarrow> short list \<Rightarrow> short list \<Rightarrow> bool" where
  "writes_one VTlen P P' \<longleftrightarrow> P' = P \<or> (\<exists>adr<VTlen. \<exists>v. P' = P[adr := v])"

lemma writes_one_refl: "writes_one VTlen P P"
  by (simp add: writes_one_def)

lemma writes_one_update: "adr < VTlen \<Longrightarrow> writes_one VTlen P (P[adr := v])"
  by (auto simp: writes_one_def)

lemma exec_Return_Probe:
  "exec_param VTlen segs s st = Return st' \<Longrightarrow> Probe st' = Probe st"
  "exec_swap s st = Return st' \<Longrightarrow> Probe st' = Probe st"
  "exec_dup s st = Return st' \<Longrightarrow> Probe st' = Probe st"
  "exec_call s st = Return st' \<Longrightarrow> Probe st' = Probe st"
  "exec_const s st = Return st' \<Longrightarrow> Probe st' = Probe st"
  "exec_null s st = Return st' \<Longrightarrow> Probe st' = Probe st"
  "exec_alternative s st = Return st' \<Longrightarrow> Probe st' = Probe st"
  "exec_binary f s st = Return st' \<Longrightarrow> Probe st' = Probe st"
  by (auto simp: exec_defs Let_def or_crash_Return split: if_splits sys.splits prod.splits)

lemma exec_if_Return_Probe: "exec_if s st = Return st' \<Longrightarrow> Probe st' = Probe st"
  by (auto simp: exec_if_def Let_def or_crash_Return split: if_splits list.splits)

lemma exec_store_Probe: "exec_store VTlen st = Return st' \<Longrightarrow> writes_one VTlen (Probe st) (Probe st')"
  by (auto simp: exec_store_def Let_def or_crash_Return writes_one_refl writes_one_update split: if_splits)

lemma calc_step_Return_Probe:
  assumes "calc_step VTlen segs s st = Return st'"
  shows "writes_one VTlen (Probe st) (Probe st')"
  using assms
  by (auto simp: calc_step_def writes_one_refl dest!: exec_Return_Probe exec_if_Return_Probe
      intro: exec_store_Probe split: if_splits list.splits)

lemma Calcul_loop_frame:
  "Calcul_loop VTlen segs s st = Return st' \<Longrightarrow> writes_one VTlen (Probe st) (Probe st')"
proof (induction VTlen segs s st rule: Calcul_loop.induct)
  case (1 VTlen segs s st)
  note step = "1.prems" [unfolded Calcul_loop.simps [of VTlen segs s st]]
  show ?case
  proof (cases "calc_step VTlen segs s st")
    case (Go p st1)
    then obtain c u where p: "p = Some (c # u)"
      using step by (auto split: option.splits list.splits)
    note eq = calc_step_Go_Probe [OF Go]
    show ?thesis
    proof (cases "u = []")
      case True
      then show ?thesis using step Go p eq by (simp add: writes_one_def)
    next
      case False
      then show ?thesis using step Go p eq "1.IH" [OF Go p refl False] by simp
    qed
  qed (use step calc_step_Return_Probe in auto)
qed

subsection \<open>Expressions\<close>

text \<open>The expressions formulas are written from. A value is the number left on the stack, its
  no-data flag, and whether the evaluation has set \<open>CalculNoData\<close> (which sticks).\<close>

datatype binop = Plus | Minus | Times | Over | Greater | Less | Equal | AtLeast | AtMost

datatype expr =
    Ref wstring
  | Const wstring
  | Bin binop expr expr
  | Alt expr expr

record calc_value =
  cv_num :: fp
  cv_nodata :: bool
  cv_sticky :: bool

fun binop_code :: "binop \<Rightarrow> wchar" where
  "binop_code Plus = 43"
| "binop_code Minus = 45"
| "binop_code Times = 42"
| "binop_code Over = 47"
| "binop_code Greater = 62"
| "binop_code Less = 60"
| "binop_code Equal = 126"
| "binop_code AtLeast = 109"
| "binop_code AtMost = 77"

fun compile_expr :: "expr \<Rightarrow> wstring" where
  "compile_expr (Ref w) = w @ [32]"
| "compile_expr (Const w) = 35 # w @ [32]"
| "compile_expr (Bin f a b) = compile_expr a @ compile_expr b @ [binop_code f, 32]"
| "compile_expr (Alt a b) = compile_expr a @ compile_expr b @ [78, 32]"

definition ok_word :: "wstring \<Rightarrow> bool" where
  "ok_word w \<longleftrightarrow> w \<noteq> [] \<and> 32 \<notin> set w"

fun segment_val :: "short list \<Rightarrow> segments \<Rightarrow> wstring \<Rightarrow> short option" where
  "segment_val P segs w = (case param_ref w of (adr, d) \<Rightarrow>
     case shmGetValue P segs adr d of Value v \<Rightarrow> Some v | Exit \<Rightarrow> None)"

fun ok_expr :: "nat \<Rightarrow> short list \<Rightarrow> segments \<Rightarrow> expr \<Rightarrow> bool" where
  "ok_expr VTlen P segs (Ref w) \<longleftrightarrow> ok_word w \<and> is_wdigit (hd w) \<and> fst (param_ref w) < VTlen \<and>
     segment_val P segs w \<noteq> None"
| "ok_expr VTlen P segs (Const w) \<longleftrightarrow> ok_word w"
| "ok_expr VTlen P segs (Bin _ a b) \<longleftrightarrow> ok_expr VTlen P segs a \<and> ok_expr VTlen P segs b"
| "ok_expr VTlen P segs (Alt a b) \<longleftrightarrow> ok_expr VTlen P segs a \<and> ok_expr VTlen P segs b"

fun depth :: "expr \<Rightarrow> int" where
  "depth (Ref _) = 1"
| "depth (Const _) = 1"
| "depth (Bin _ a b) = max (depth a) (1 + depth b)"
| "depth (Alt a b) = max (depth a) (1 + depth b)"

text \<open>The operators on numbers: the result, whether it is marked no data, and whether it was a
  division by zero.\<close>

fun apply_binop :: "binop \<Rightarrow> fp \<Rightarrow> fp \<Rightarrow> calc_value" where
  "apply_binop Plus a b = \<lparr> cv_num = fadd float32 a b, cv_nodata = False, cv_sticky = False \<rparr>"
| "apply_binop Minus a b = \<lparr> cv_num = fsub float32 a b, cv_nodata = False, cv_sticky = False \<rparr>"
| "apply_binop Times a b = \<lparr> cv_num = fmul float32 a b, cv_nodata = False, cv_sticky = False \<rparr>"
| "apply_binop Over a b =
     (if feq b (Fin 0) then \<lparr> cv_num = Fin 1, cv_nodata = False, cv_sticky = True \<rparr>
      else \<lparr> cv_num = fdiv float32 a b, cv_nodata = False, cv_sticky = False \<rparr>)"
| "apply_binop Greater a b = \<lparr> cv_num = bool_fp (fless b a), cv_nodata = False, cv_sticky = False \<rparr>"
| "apply_binop Less a b = \<lparr> cv_num = bool_fp (fless a b), cv_nodata = False, cv_sticky = False \<rparr>"
| "apply_binop Equal a b = \<lparr> cv_num = bool_fp (feq a b), cv_nodata = False, cv_sticky = False \<rparr>"
| "apply_binop AtLeast a b = \<lparr> cv_num = a, cv_nodata = fless a b, cv_sticky = False \<rparr>"
| "apply_binop AtMost a b = \<lparr> cv_num = a, cv_nodata = fless b a, cv_sticky = False \<rparr>"

text \<open>The reference semantics, by recursion on the expression: no data in an operand of an
  operator makes the formula's result no data.\<close>

fun eval_expr :: "short list \<Rightarrow> segments \<Rightarrow> expr \<Rightarrow> calc_value" where
  "eval_expr P segs (Ref w) = (let v = the (segment_val P segs w) in
     \<lparr> cv_num = of_int_fp float32 (sint v), cv_nodata = (v = SZARP_NO_DATA), cv_sticky = False \<rparr>)"
| "eval_expr P segs (Const w) = \<lparr> cv_num = wcstof w, cv_nodata = False, cv_sticky = False \<rparr>"
| "eval_expr P segs (Bin f a b) =
     (let va = eval_expr P segs a; vb = eval_expr P segs b;
          st = cv_sticky va \<or> cv_sticky vb in
      if cv_nodata va \<or> cv_nodata vb then va\<lparr>cv_sticky := True\<rparr>
      else let r = apply_binop f (cv_num va) (cv_num vb) in r\<lparr>cv_sticky := st \<or> cv_sticky r\<rparr>)"
| "eval_expr P segs (Alt a b) =
     (let va = eval_expr P segs a; vb = eval_expr P segs b;
          st = cv_sticky va \<or> cv_sticky vb in
      if cv_nodata va then vb\<lparr>cv_sticky := st\<rparr> else va\<lparr>cv_sticky := st\<rparr>)"

subsection \<open>Numbers end at a space\<close>

lemma takeWhile_stop: "\<not> Q x \<Longrightarrow> takeWhile Q (w @ x # r) = takeWhile Q w"
  by (induction w) auto

lemma dropWhile_stop: "\<not> Q x \<Longrightarrow> dropWhile Q (w @ x # r) = dropWhile Q w @ x # r"
  by (induction w) auto

lemma not_digit_space [simp]: "\<not> is_wdigit 32"
  by (simp add: is_wdigit_def)

lemma scan_sign_space: "scan_sign (w @ 32 # r) = (fst (scan_sign w), snd (scan_sign w) @ 32 # r)"
  by (cases w) (auto simp: scan_sign_def)

lemma scan_exponent_space: "scan_exponent (w @ 32 # r) = scan_exponent w"
proof (cases w)
  case (Cons c t)
  obtain n u where "scan_sign t = (n, u)" by fastforce
  then show ?thesis using Cons by (simp add: scan_exponent_def scan_sign_space takeWhile_stop)
qed (simp add: scan_exponent_def)

lemma scan_fraction_space:
  "\<exists>r'. scan_fraction (w @ 32 # r) = (fst (scan_fraction w), r') \<and>
     scan_exponent r' = scan_exponent (snd (scan_fraction w))"
proof (cases w)
  case (Cons c t)
  then show ?thesis
    using scan_exponent_space [of "dropWhile is_wdigit t" r] scan_exponent_space [of w r]
    by (simp add: scan_fraction_def takeWhile_stop dropWhile_stop)
qed (simp add: scan_fraction_def scan_exponent_def)

lemma scan_number_space:
  assumes "ok_word w"
  shows "scan_number (w @ 32 # r) = scan_number w"
proof -
  have w: "dropWhile (\<lambda>c. c = 32) (w @ 32 # r) = w @ 32 # r" "dropWhile (\<lambda>c. c = 32) w = w"
    using assms by (cases w; auto simp: ok_word_def)+
  obtain n t where t: "scan_sign w = (n, t)" by fastforce
  obtain f u where f: "scan_fraction (dropWhile is_wdigit t) = (f, u)" by fastforce
  obtain r' where "scan_fraction (dropWhile is_wdigit t @ 32 # r) = (f, r')"
    "scan_exponent r' = scan_exponent u"
    using scan_fraction_space [of "dropWhile is_wdigit t" r] f by auto
  then show ?thesis
    using f t unfolding scan_number_def w
    by (simp add: scan_sign_space takeWhile_stop dropWhile_stop)
qed

lemma wcstof_space: "ok_word w \<Longrightarrow> wcstof (w @ 32 # r) = wcstof w"
  by (simp add: wcstof_def scan_number_space)

lemma param_ref_space: "ok_word w \<Longrightarrow> param_ref (w @ 32 # r) = param_ref w"
  by (simp add: param_ref_def wcstof_space)

lemma wcschr_space_word: "ok_word w \<Longrightarrow> wcschr_space (w @ 32 # r) = Some (32 # r)"
proof -
  assume "ok_word w"
  then have "dropWhile (\<lambda>c. c \<noteq> 32) w = []" by (auto simp: ok_word_def)
  then show ?thesis by (simp add: wcschr_space_def dropWhile_stop)
qed

subsection \<open>The stack machine computes the reference semantics\<close>

lemma wr_ok: "0 \<le> i \<Longrightarrow> i < int (length a) \<Longrightarrow> wr a i v = Some (a[nat i := Some v])"
  by (simp add: wr_def)

lemma rd_update:
  "0 \<le> i \<Longrightarrow> i < int (length a) \<Longrightarrow> rd (a[nat i := Some v]) j = (if j = i then Some v else rd a j)"
  by (auto simp: rd_def nth_list_update)

definition sized :: "calc_state \<Rightarrow> bool" where
  "sized st \<longleftrightarrow> length (stack st) = 31 \<and> length (nodata st) = 31 \<and> 0 \<le> sp st"

text \<open>Running an expression leaves its value on top of an otherwise unchanged stack.\<close>

definition leaves :: "calc_state \<Rightarrow> calc_value \<Rightarrow> calc_state \<Rightarrow> bool" where
  "leaves st v st' \<longleftrightarrow> sized st' \<and> sp st' = sp st + 1 \<and> NullFormula st' = NullFormula st \<and>
     Probe st' = Probe st \<and> CalculNoData st' = (CalculNoData st \<or> cv_sticky v) \<and>
     rd (stack st') (sp st) = Some (cv_num v) \<and> rd (nodata st') (sp st) = Some (cv_nodata v) \<and>
     (\<forall>i. i < sp st \<longrightarrow> rd (stack st') i = rd (stack st) i \<and> rd (nodata st') i = rd (nodata st) i)"

lemma push_leaves:
  assumes "sized st" "sp st < 30"
  shows "\<exists>st'. push v b st = Some st' \<and> leaves st \<lparr> cv_num = v, cv_nodata = b, cv_sticky = False \<rparr> st'"
  using assms by (simp add: push_def set_nodata_def set_stack_def wr_ok sized_def leaves_def rd_update)

lemma set_stack_sized:
  "sized st \<Longrightarrow> 0 \<le> i \<Longrightarrow> i < 31 \<Longrightarrow> set_stack i v st = Some (st\<lparr>stack := (stack st)[nat i := Some v]\<rparr>)"
  by (simp add: set_stack_def sized_def wr_ok)

lemma set_nodata_sized:
  "sized st \<Longrightarrow> 0 \<le> i \<Longrightarrow> i < 31 \<Longrightarrow> set_nodata i v st = Some (st\<lparr>nodata := (nodata st)[nat i := Some v]\<rparr>)"
  by (simp add: set_nodata_def sized_def wr_ok)

lemma loop_next:
  "calc_step VTlen segs s st = Go (Some (c # u)) st' \<Longrightarrow> u \<noteq> [] \<Longrightarrow>
     Calcul_loop VTlen segs s st = Calcul_loop VTlen segs u st'"
  by (simp add: Calcul_loop.simps [of VTlen segs s])

lemma loop_space: "sp st < SS \<Longrightarrow> u \<noteq> [] \<Longrightarrow> Calcul_loop VTlen segs (32 # u) st = Calcul_loop VTlen segs u st"
  by (rule loop_next [of _ _ _ _ 32]) (simp_all add: calc_step_def)

fun opfun :: "binop \<Rightarrow> fp \<Rightarrow> fp \<Rightarrow> calc_state \<Rightarrow> calc_state option" where
  "opfun Plus = (\<lambda>a b. put (fadd float32 a b))"
| "opfun Minus = (\<lambda>a b. put (fsub float32 a b))"
| "opfun Times = (\<lambda>a b. put (fmul float32 a b))"
| "opfun Over = calc_divide"
| "opfun Greater = (\<lambda>a b. put (bool_fp (fless b a)))"
| "opfun Less = (\<lambda>a b. put (bool_fp (fless a b)))"
| "opfun Equal = (\<lambda>a b. put (bool_fp (feq a b)))"
| "opfun AtLeast = (\<lambda>a b. mark_if (fless a b))"
| "opfun AtMost = (\<lambda>a b. mark_if (fless b a))"

lemma step_operator:
  assumes "sp st < SS"
  shows "calc_step VTlen segs (binop_code f # r) st = exec_binary (opfun f) (binop_code f # r) st"
  using assms by (cases f) (simp_all add: calc_step_def is_wdigit_def)

text \<open>What an operator does to the slot of its first operand.\<close>

lemma opfun_result:
  assumes "sized st" "1 \<le> sp st" "sp st \<le> SS"
    and "rd (stack st) (sp st - 1) = Some x" "rd (nodata st) (sp st - 1) = Some False"
  shows "\<exists>st'. opfun f x y st = Some st' \<and>
    leaves (st\<lparr>sp := sp st - 1\<rparr>) (apply_binop f x y) st'"
  using assms
  by (cases f)
    (simp_all add: leaves_def put_def calc_divide_def mark_if_def set_stack_def set_nodata_def wr_ok sized_def rd_update)

text \<open>Two values on top of the stack, as an operator finds them.\<close>

definition leaves2 :: "calc_state \<Rightarrow> calc_value \<Rightarrow> calc_value \<Rightarrow> calc_state \<Rightarrow> bool" where
  "leaves2 st v w st' \<longleftrightarrow> (\<exists>st1. leaves st v st1 \<and> leaves st1 w st')"

lemma leaves2D:
  assumes "leaves2 st v w st'"
  shows "sized st'" "sp st' = sp st + 2" "NullFormula st' = NullFormula st" "Probe st' = Probe st"
    "CalculNoData st' = (CalculNoData st \<or> cv_sticky v \<or> cv_sticky w)"
    "rd (stack st') (sp st) = Some (cv_num v)" "rd (nodata st') (sp st) = Some (cv_nodata v)"
    "rd (stack st') (1 + sp st) = Some (cv_num w)" "rd (nodata st') (1 + sp st) = Some (cv_nodata w)"
    "\<And>i. i < sp st \<Longrightarrow> rd (stack st') i = rd (stack st) i"
    "\<And>i. i < sp st \<Longrightarrow> rd (nodata st') i = rd (nodata st) i"
  using assms by (auto simp: leaves2_def leaves_def add.commute)

lemma operator_leaves:
  assumes l: "leaves2 st (eval_expr P segs a) (eval_expr P segs b) st2"
    and b: "0 \<le> sp st" "sp st + 2 < SS"
  shows "\<exists>st'. calc_step VTlen segs (binop_code f # r) st2 = Go (Some (binop_code f # r)) st' \<and>
    leaves st (eval_expr P segs (Bin f a b)) st'"
proof -
  note D = leaves2D [OF l]
  have sz: "sized (st2\<lparr>sp := 1 + sp st\<rparr>)" using D(1) b by (simp add: sized_def)
  have len: "length (stack st2) = 31" "length (nodata st2) = 31" using D(1) by (simp_all add: sized_def)
  show ?thesis
  proof (cases "cv_nodata (eval_expr P segs a) \<or> cv_nodata (eval_expr P segs b)")
    case True
    then have "exec_binary g s st2 = Go (Some s) (st2\<lparr>sp := 1 + sp st, CalculNoData := True\<rparr>)" for g s
      using D b by (auto simp: exec_binary_def Let_def)
    then show ?thesis
      using True D b sz by (simp add: step_operator leaves_def Let_def sized_def)
  next
    case False
    let ?x = "cv_num (eval_expr P segs a)" and ?y = "cv_num (eval_expr P segs b)"
    let ?st1 = "st2\<lparr>sp := 1 + sp st\<rparr>"
    have run: "exec_binary g s st2 = or_crash (g ?x ?y ?st1) (Go (Some s))" for g s
      using D b False by (simp add: exec_binary_def Let_def)
    obtain st' where st': "opfun f ?x ?y ?st1 = Some st'"
      "leaves (?st1\<lparr>sp := sp ?st1 - 1\<rparr>) (apply_binop f ?x ?y) st'"
      using opfun_result [OF sz, of ?x f ?y] D b False by auto
    have "leaves st (eval_expr P segs (Bin f a b)) st'"
      using st'(2) False D by (auto simp: leaves_def Let_def)
    then show ?thesis using D b by (simp add: step_operator run st'(1))
  qed
qed

lemma alternative_leaves:
  assumes l: "leaves2 st (eval_expr P segs a) (eval_expr P segs b) st2"
    and b: "0 \<le> sp st" "sp st + 2 < SS"
  shows "\<exists>st'. calc_step VTlen segs (78 # r) st2 = Go (Some (78 # r)) st' \<and>
    leaves st (eval_expr P segs (Alt a b)) st'"
proof -
  note D = leaves2D [OF l]
  have len: "length (stack st2) = 31" "length (nodata st2) = 31" using D(1) by (simp_all add: sized_def)
  have step: "calc_step VTlen segs (78 # r) st2 = exec_alternative (78 # r) st2"
    using D b by (simp add: calc_step_def is_wdigit_def)
  show ?thesis
    using D(2-9) b len unfolding step exec_alternative_def
    by (cases "cv_nodata (eval_expr P segs a)")
      (simp_all add: Let_def set_stack_def set_nodata_def wr_ok leaves_def sized_def rd_update D(10,11)
        disj_commute disj_left_commute)
qed

text \<open>Two expressions one after the other.\<close>

lemma depth_pos: "1 \<le> depth e"
  by (induction e) auto

lemma run_two:
  assumes "\<And>st rest. ok_expr VTlen (Probe st) segs a \<Longrightarrow> sized st \<Longrightarrow> sp st + depth a < SS \<Longrightarrow> rest \<noteq> [] \<Longrightarrow>
      \<exists>st'. Calcul_loop VTlen segs (compile_expr a @ rest) st = Calcul_loop VTlen segs rest st' \<and>
        leaves st (eval_expr (Probe st) segs a) st'"
    and "\<And>st rest. ok_expr VTlen (Probe st) segs b \<Longrightarrow> sized st \<Longrightarrow> sp st + depth b < SS \<Longrightarrow> rest \<noteq> [] \<Longrightarrow>
      \<exists>st'. Calcul_loop VTlen segs (compile_expr b @ rest) st = Calcul_loop VTlen segs rest st' \<and>
        leaves st (eval_expr (Probe st) segs b) st'"
    and "ok_expr VTlen (Probe st) segs a" "ok_expr VTlen (Probe st) segs b" "sized st"
    and "sp st + max (depth a) (1 + depth b) < SS" "rest \<noteq> []"
  obtains st2 where
    "Calcul_loop VTlen segs (compile_expr a @ compile_expr b @ rest) st = Calcul_loop VTlen segs rest st2"
    "leaves2 st (eval_expr (Probe st) segs a) (eval_expr (Probe st) segs b) st2"
    "0 \<le> sp st" "sp st + 2 < SS"
proof -
  have room: "sp st + depth a < SS" "sp st + 1 + depth b < SS"
    using assms(6) by (simp_all add: max_def split: if_splits)
  obtain st1 where st1:
    "Calcul_loop VTlen segs (compile_expr a @ compile_expr b @ rest) st = Calcul_loop VTlen segs (compile_expr b @ rest) st1"
    "leaves st (eval_expr (Probe st) segs a) st1"
    using assms(1) [of st "compile_expr b @ rest"] assms(3,5,7) room by auto
  then obtain st2 where
    "Calcul_loop VTlen segs (compile_expr b @ rest) st1 = Calcul_loop VTlen segs rest st2"
    "leaves st1 (eval_expr (Probe st1) segs b) st2"
    using assms(2) [of st1 rest] assms(4,7) room by (auto simp: leaves_def)
  moreover have "Probe st1 = Probe st" using st1(2) by (simp add: leaves_def)
  ultimately show thesis
    using that [of st2] st1 assms(5) room depth_pos [of b] by (auto simp: leaves2_def sized_def)
qed

lemma run_expr:
  assumes "ok_expr VTlen (Probe st) segs e" "sized st" "sp st + depth e < SS" "rest \<noteq> []"
  shows "\<exists>st'. Calcul_loop VTlen segs (compile_expr e @ rest) st = Calcul_loop VTlen segs rest st' \<and>
    leaves st (eval_expr (Probe st) segs e) st'"
  using assms
proof (induction e arbitrary: st rest)
  case (Ref w)
  have w: "ok_word w" "is_wdigit (hd w)" "fst (param_ref w) < VTlen" using Ref.prems(1) by simp_all
  obtain v where v: "shmGetValue (Probe st) segs (fst (param_ref w)) (snd (param_ref w)) = Value v"
    "segment_val (Probe st) segs w = Some v"
    using Ref.prems(1) by (auto split: prod.splits sys.splits)
  obtain st' where st': "push (of_int_fp float32 (sint v)) (v = SZARP_NO_DATA) st = Some st'"
    "leaves st \<lparr> cv_num = of_int_fp float32 (sint v), cv_nodata = (v = SZARP_NO_DATA), cv_sticky = False \<rparr> st'"
    using push_leaves [OF Ref.prems(2)] Ref.prems(3) by fastforce
  have "calc_step VTlen segs (w @ 32 # rest) st = exec_param VTlen segs (w @ 32 # rest) st"
    using w Ref.prems(3) by (cases w) (auto simp: calc_step_def ok_word_def)
  also have "\<dots> = Go (Some (32 # rest)) st'"
    using w v st'(1)
    by (simp add: exec_param_def param_ref_space wcschr_space_word Let_def split: prod.splits)
  finally show ?case
    using loop_next [of VTlen segs "w @ 32 # rest"] Ref.prems(4) st'(2) v(2) by auto
next
  case (Const w)
  have w: "ok_word w" using Const.prems(1) by simp
  obtain st' where st': "push (wcstof w) False st = Some st'"
    "leaves st \<lparr> cv_num = wcstof w, cv_nodata = False, cv_sticky = False \<rparr> st'"
    using push_leaves [OF Const.prems(2)] Const.prems(3) by fastforce
  have "calc_step VTlen segs (35 # w @ 32 # rest) st = Go (Some (32 # rest)) st'"
    using w st'(1) Const.prems(3)
    by (simp add: calc_step_def exec_const_def is_wdigit_def wcstof_space wcschr_space_word)
  then show ?case
    using loop_next [of VTlen segs "35 # w @ 32 # rest"] Const.prems(4) st'(2) by auto
next
  case (Bin f a b)
  obtain st2 where st2: "Calcul_loop VTlen segs (compile_expr a @ compile_expr b @ binop_code f # 32 # rest) st
      = Calcul_loop VTlen segs (binop_code f # 32 # rest) st2"
    "leaves2 st (eval_expr (Probe st) segs a) (eval_expr (Probe st) segs b) st2"
    "0 \<le> sp st" "sp st + 2 < SS"
    using run_two [OF Bin.IH, of st "binop_code f # 32 # rest"] Bin.prems by auto
  obtain st' where "calc_step VTlen segs (binop_code f # 32 # rest) st2 = Go (Some (binop_code f # 32 # rest)) st'"
    "leaves st (eval_expr (Probe st) segs (Bin f a b)) st'"
    using operator_leaves [OF st2(2-4)] by blast
  then show ?case using st2 Bin.prems(4)
    by (auto simp: loop_next leaves_def loop_space)
next
  case (Alt a b)
  obtain st2 where st2: "Calcul_loop VTlen segs (compile_expr a @ compile_expr b @ 78 # 32 # rest) st
      = Calcul_loop VTlen segs (78 # 32 # rest) st2"
    "leaves2 st (eval_expr (Probe st) segs a) (eval_expr (Probe st) segs b) st2"
    "0 \<le> sp st" "sp st + 2 < SS"
    using run_two [OF Alt.IH, of st "78 # 32 # rest"] Alt.prems by auto
  obtain st' where "calc_step VTlen segs (78 # 32 # rest) st2 = Go (Some (78 # 32 # rest)) st'"
    "leaves st (eval_expr (Probe st) segs (Alt a b)) st'"
    using alternative_leaves [OF st2(2-4)] by blast
  then show ?case using st2 Alt.prems(4)
    by (auto simp: loop_next leaves_def loop_space)
qed

definition store_formula :: "expr \<Rightarrow> wstring \<Rightarrow> wstring" where
  "store_formula e a = compile_expr e @ compile_expr (Const a) @ [61]"

definition stored_value :: "calc_value \<Rightarrow> short" where
  "stored_value v = (if cv_sticky v \<or> cv_nodata v then SZARP_NO_DATA else to_short (frint (cv_num v)))"

lemma store_leaves2:
  assumes "leaves2 st v (\<lparr> cv_num = x, cv_nodata = n, cv_sticky = False \<rparr>) st2" "0 \<le> sp st" "sp st + 2 < SS"
    and "\<not> CalculNoData st" "\<not> NullFormula st" "unat (to_short (frint x)) < VTlen"
  shows "\<exists>st'. Calcul_loop VTlen segs [61] st2 = Return st' \<and>
    Probe st' = (Probe st)[unat (to_short (frint x)) := stored_value v]"
proof -
  note D = leaves2D [OF assms(1)]
  have "calc_step VTlen segs [61] st2 = exec_store VTlen st2"
    using D assms(2,3) by (simp add: calc_step_def is_wdigit_def)
  then show ?thesis
    using D assms unfolding Calcul_loop.simps [of VTlen segs "[61]" st2]
    by (auto simp: exec_store_def Let_def stored_value_def)
qed

text \<open>C10. The stack machine agrees with the recursive semantics: running the formula of an
  expression that fits the stack, followed by the constant \<open>a\<close> and \<open>=\<close>, returns without a crash
  and stores at the address \<open>a\<close> denotes the rounded value of the expression, or no data if an
  operand of an operator had none, a divisor was zero, or the value itself has none; every other
  probe keeps its value.\<close>

theorem Calcul_evaluates:
  assumes "ok_expr VTlen P segs e" "depth e < SS - 1" "ok_word a"
    and "unat (to_short (frint (wcstof a))) < VTlen"
  shows "\<exists>st. Calcul VTlen segs (store_formula e a) P = Return st \<and>
    Probe st = P[unat (to_short (frint (wcstof a))) := stored_value (eval_expr P segs e)]"
proof -
  let ?st = "calc_init P"
  have init: "sized ?st" "sp ?st = 0" "Probe ?st = P" "\<not> CalculNoData ?st" "\<not> NullFormula ?st"
    by (simp_all add: calc_init_def sized_def)
  obtain st2 where st2:
    "Calcul_loop VTlen segs (compile_expr e @ compile_expr (Const a) @ [61]) ?st = Calcul_loop VTlen segs [61] st2"
    "leaves2 ?st (eval_expr P segs e) (eval_expr P segs (Const a)) st2" "0 \<le> sp ?st" "sp ?st + 2 < SS"
    using run_two [where VTlen = VTlen and segs = segs and a = e and b = "Const a" and st = ?st and rest = "[61]",
        OF run_expr run_expr] init assms by auto
  then show ?thesis
    using store_leaves2 [of ?st "eval_expr P segs e" "wcstof a" False st2 VTlen segs] init assms(4)
    by (simp add: Calcul_def store_formula_def)
qed

theorem Calcul_evaluates_witness:
  "\<exists>st. Calcul 2 \<lparr> sMinute = None, sMin10 = None, sHour = None \<rparr>
      (store_formula (Bin Plus (Ref [48]) (Const [53])) [49]) [7, SZARP_NO_DATA] = Return st \<and>
    Probe st = [7, 12]"
proof -
  let ?segs = "\<lparr> sMinute = None, sMin10 = None, sHour = None \<rparr>"
  have "ok_expr 2 [7, SZARP_NO_DATA] ?segs (Bin Plus (Ref [48]) (Const [53]))" by code_simp
  moreover have "unat (to_short (frint (wcstof [49]))) = 1" by code_simp
  moreover have "stored_value (eval_expr [7, SZARP_NO_DATA] ?segs (Bin Plus (Ref [48]) (Const [53]))) = 12"
    by code_simp
  ultimately show ?thesis
    using Calcul_evaluates [of 2 "[7, SZARP_NO_DATA]" ?segs "Bin Plus (Ref [48]) (Const [53])" "[49]"]
    by (simp add: ok_word_def del: eval_expr.simps ok_expr.simps)
qed

text \<open>Whatever the formula, an evaluation that returns has changed at most one probe, at an
  address inside the segment.\<close>

theorem Calcul_writes_one:
  assumes "Calcul VTlen segs formula P = Return st"
  shows "length (Probe st) = length P \<and>
    (\<exists>adr. \<forall>i. i \<noteq> adr \<longrightarrow> Probe st ! i = P ! i) \<and> (Probe st \<noteq> P \<longrightarrow> (\<exists>adr<VTlen. Probe st ! adr \<noteq> P ! adr))"
proof -
  have "writes_one VTlen P (Probe st)"
    using Calcul_loop_frame [of VTlen segs formula "calc_init P" st] assms
    by (simp add: Calcul_def calc_init_def)
  then consider "Probe st = P" | adr v where "adr < VTlen" "Probe st = P[adr := v]"
    by (auto simp: writes_one_def)
  then show ?thesis
  proof cases
    case 2
    then have "Probe st \<noteq> P \<Longrightarrow> Probe st ! adr \<noteq> P ! adr"
      by (metis list_update_id list_update_beyond not_le nth_list_update_eq)
    then show ?thesis using 2 by (metis length_list_update nth_list_update_neq)
  qed simp
qed

theorem Calcul_writes_one_witness:
  "\<exists>st. Calcul 1 \<lparr> sMinute = None, sMin10 = None, sHour = None \<rparr> [35, 53, 32, 35, 48, 32, 61] [7] = Return st \<and>
    length (Probe st) = 1"
proof -
  have "case Calcul 1 \<lparr> sMinute = None, sMin10 = None, sHour = None \<rparr> [35, 53, 32, 35, 48, 32, 61] [7] of
      Return st \<Rightarrow> Probe st = [5] | _ \<Rightarrow> False"
    by code_simp
  then obtain st where
    "Calcul 1 \<lparr> sMinute = None, sMin10 = None, sHour = None \<rparr> [35, 53, 32, 35, 48, 32, 61] [7] = Return st"
    by (auto split: step.splits)
  with Calcul_writes_one [OF this] show ?thesis by auto
qed

subsection \<open>Addresses\<close>

lemma float_address:
  assumes "adr < 65536" "d \<le> 9"
  shows "unat (to_short (frint (ffloor (round_to float32 (of_nat adr + of_nat d / 10))))) = adr" (is ?A)
   and "unat (to_uchar (frint (fmul float64 (Fin 10) (fmod1 (round_to float32 (of_nat adr + of_nat d / 10)))))) = d" (is ?B)
proof -
  let ?r = "of_nat adr + of_nat d / 10 :: rat"
  have "(of_nat adr :: rat) \<le> of_nat 65535" using assms(1) by (simp only: of_nat_le_iff)
  then have a: "(of_nat adr :: rat) \<le> 65535" by simp
  have "(of_nat d :: rat) \<le> of_nat 9" using assms(2) by (simp only: of_nat_le_iff)
  then have d: "(of_nat d :: rat) \<le> 9" by simp
  have "\<bar>?r\<bar> < pow2 (15 + 1)" using a d by (simp add: pow2_def)
  then obtain v where v: "round_to float32 ?r = Fin v" "\<bar>v - ?r\<bar> \<le> pow2 (15 - int (prec float32) + 1) / 2"
    by (rule round_to_finite [of _ 15 float32]) (simp_all add: float32_def)
  have err: "\<bar>v - ?r\<bar> \<le> 1 / 512" using v(2) by (simp add: float32_def pow2_def)
  have v0: "v = of_nat adr" if "d = 0"
    using v(1) float32_int [of "int adr"] assms(1) that by simp
  have ge: "of_nat adr \<le> v"
  proof (cases "d = 0")
    case False
    then have "1 \<le> (of_nat d :: rat)" by simp
    then show ?thesis using err by linarith
  qed (simp add: v0)
  have fl: "\<lfloor>v\<rfloor> = int adr"
  proof (rule floor_unique)
    show "of_int (int adr) \<le> v" using ge by simp
    have "v < of_nat adr + 1" using err d by linarith
    then show "v < of_int (int adr) + 1" by simp
  qed
  show ?A using v(1) fl assms(1) unat_to_narrow [of "int adr", where ?'a = 16] 
    by (simp add: to_short_def del: to_int32.simps)
  let ?q = "10 * (v - of_nat adr)"
  have "?q - of_nat d = 10 * (v - ?r)" by (simp add: algebra_simps)
  then have eq: "\<bar>?q - of_nat d\<bar> = 10 * \<bar>v - ?r\<bar>" by (simp only: abs_mult abs_numeral)
  have q: "\<bar>?q - of_nat d\<bar> \<le> 10 / 512" unfolding eq using mult_left_mono [OF err, of 10] by simp
  have "\<bar>?q\<bar> < 16" using q d ge by linarith
  then have "\<bar>?q\<bar> < pow2 (3 + 1)" by (simp add: pow2_def)
  then obtain w where w: "round_to float64 ?q = Fin w" "\<bar>w - ?q\<bar> \<le> pow2 (3 - int (prec float64) + 1) / 2"
    by (rule round_to_finite [of _ 3 float64]) (simp_all add: float64_def)
  have "pow2 (3 - int (prec float64) + 1) \<le> pow2 (- 2)" unfolding pow2_mono_iff by (simp add: float64_def)
  then have "\<bar>w - ?q\<bar> \<le> 1 / 8" using w(2) by (simp add: pow2_def)
  then have "\<bar>w - of_nat d\<bar> < 1 / 2" using q by linarith
  then have "\<bar>w - of_int (int d)\<bar> < 1 / 2" by simp
  then have "rnd_int w = int d" by (rule rnd_int_near)
  moreover have "fmod1 (Fin v) = Fin (v - of_nat adr)"
    using fl ge by (auto simp: trunc_rat_def dest: order_trans [OF of_nat_0_le_iff])
  ultimately show ?B using v(1) w(1) assms(2) unat_to_narrow [of "int d", where ?'a = 8]
    by (simp add: to_uchar_def del: to_int32.simps fmod1.simps)
qed

text \<open>A parameter reference is decoded exactly although it is read as a \<open>float\<close>: the
  number \<open>adr\<close> followed by a decimal digit \<open>d\<close> gives the address \<open>adr\<close> and the segment \<open>d\<close>
  for every 16-bit address and every digit, in spite of the rounding of \<open>wcstof\<close> and of the
  multiplication by ten.\<close>

theorem param_ref_exact:
  assumes "scan_number s = of_nat adr + of_nat d / 10" "adr < 65536" "d \<le> 9"
  shows "param_ref s = (adr, d)"
  using float_address [OF assms(2,3)] by (simp add: param_ref_def wcstof_def assms(1))

theorem param_ref_exact_witness: "param_ref [54, 53, 53, 51, 53, 46, 51] = (65535, 3)"
proof -
  have "scan_number [54, 53, 53, 51, 53, 46, 51] = 655353 / 10" by code_simp
  then show ?thesis by (intro param_ref_exact) simp_all
qed

subsection \<open>Freedom from crashes\<close>

text \<open>Every slot below the stack pointer has been written.\<close>

definition inited :: "calc_state \<Rightarrow> bool" where
  "inited st \<longleftrightarrow> sized st \<and> sp st \<le> SS \<and>
     (\<forall>i. 0 \<le> i \<and> i < sp st \<longrightarrow> rd (stack st) i \<noteq> None \<and> rd (nodata st) i \<noteq> None)"

definition good :: "step \<Rightarrow> bool" where
  "good r = (case r of Go p st \<Rightarrow> inited st | Crash \<Rightarrow> False | _ \<Rightarrow> True)"

lemma good_simps [simp]:
  "good (Go p st) = inited st" "good (Return st)" "\<not> good Crash" "good Quit"
  by (simp_all add: good_def)

lemma initedD:
  assumes "inited st"
  shows "sized st" "0 \<le> sp st" "sp st \<le> SS"
    "0 \<le> i \<Longrightarrow> i < sp st \<Longrightarrow> \<exists>v. rd (stack st) i = Some v"
    "0 \<le> i \<Longrightarrow> i < sp st \<Longrightarrow> \<exists>v. rd (nodata st) i = Some v"
  using assms by (auto simp: inited_def sized_def)

lemma inited_shrink: "inited st \<Longrightarrow> 0 \<le> k \<Longrightarrow> k \<le> sp st \<Longrightarrow> inited (st\<lparr>sp := k\<rparr>)"
  by (simp add: inited_def sized_def)

lemma inited_flags [simp]:
  "inited (st\<lparr>CalculNoData := b\<rparr>) = inited st" "inited (st\<lparr>NullFormula := b\<rparr>) = inited st"
  by (simp_all add: inited_def sized_def)

lemma inited_set_stack:
  "inited st \<Longrightarrow> 0 \<le> i \<Longrightarrow> i < sp st \<Longrightarrow> \<exists>st'. set_stack i v st = Some st' \<and> inited st' \<and> sp st' = sp st"
  by (auto simp: inited_def set_stack_sized sized_def rd_update)

lemma inited_set_nodata:
  "inited st \<Longrightarrow> 0 \<le> i \<Longrightarrow> i < sp st \<Longrightarrow> \<exists>st'. set_nodata i v st = Some st' \<and> inited st' \<and> sp st' = sp st"
  by (auto simp: inited_def set_nodata_sized sized_def rd_update)

lemma inited_push:
  "inited st \<Longrightarrow> sp st < SS \<Longrightarrow> \<exists>st'. push v b st = Some st' \<and> inited st'"
  by (auto simp: inited_def push_def set_nodata_def set_stack_def wr_ok sized_def rd_update)

lemma exec_binary_good:
  assumes "inited st"
    and f: "\<And>a b st. inited st \<Longrightarrow> 1 \<le> sp st \<Longrightarrow> \<exists>st'. f a b st = Some st' \<and> inited st'"
  shows "good (exec_binary f s st)"
proof (cases "sp st < 2")
  case False
  let ?st = "st\<lparr>sp := sp st - 1\<rparr>"
  have i: "inited ?st" using inited_shrink [OF assms(1), of "sp st - 1"] False by simp
  obtain n m where "rd (nodata st) (sp st - 1) = Some n" "rd (nodata st) (sp st - 2) = Some m"
    using initedD(5) [OF assms(1), of "sp st - 1"] initedD(5) [OF assms(1), of "sp st - 2"] False by auto
  moreover obtain a b where "rd (stack st) (sp st - 1) = Some a" "rd (stack st) (sp st - 2) = Some b"
    using initedD(4) [OF assms(1), of "sp st - 1"] initedD(4) [OF assms(1), of "sp st - 2"] False by auto
  moreover have "\<exists>st'. f b a ?st = Some st' \<and> inited st'" using f [OF i] False by simp
  ultimately show ?thesis using i False by (auto simp: exec_binary_def Let_def)
qed (simp add: exec_binary_def)

lemma inited_put: "inited st \<Longrightarrow> 1 \<le> sp st \<Longrightarrow> \<exists>st'. put v st = Some st' \<and> inited st'"
  using inited_set_stack [of st "sp st - 1" v] by (auto simp: put_def)

lemma inited_calc_divide: "inited st \<Longrightarrow> 1 \<le> sp st \<Longrightarrow> \<exists>st'. calc_divide a b st = Some st' \<and> inited st'"
  by (simp add: calc_divide_def inited_put)

lemma inited_mark_if: "inited st \<Longrightarrow> 1 \<le> sp st \<Longrightarrow> \<exists>st'. mark_if b st = Some st' \<and> inited st'"
  using inited_set_nodata [of st "sp st - 1" True] by (auto simp: mark_if_def)

lemma exec_param_good:
  assumes "inited st" "sp st < SS"
  shows "good (exec_param VTlen segs s st)"
proof -
  have "good (or_crash (push v b st) (Go p))" for v b p using inited_push [OF assms, of v b] by auto
  then show ?thesis by (auto simp: exec_param_def Let_def split: prod.splits sys.splits)
qed

lemma exec_const_good: "inited st \<Longrightarrow> sp st < SS \<Longrightarrow> good (exec_const s st)"
  using inited_push [of st "wcstof (tl s)" False] by (auto simp: exec_const_def)

lemma exec_swap_good:
  assumes "inited st"
  shows "good (exec_swap s st)"
proof (cases "sp st < 2")
  case False
  obtain a b where ab: "rd (stack st) (sp st - 1) = Some a" "rd (stack st) (sp st - 2) = Some b"
    using initedD(4) [OF assms, of "sp st - 1"] initedD(4) [OF assms, of "sp st - 2"] False by auto
  obtain st1 where st1: "set_stack (sp st - 1) b st = Some st1" "inited st1" "sp st1 = sp st"
    using inited_set_stack [OF assms, of "sp st - 1" b] False by auto
  obtain st2 where "set_stack (sp st - 2) a st1 = Some st2" "inited st2"
    using inited_set_stack [OF st1(2), of "sp st - 2" a] st1(3) False by auto
  then show ?thesis using ab st1 False by (simp add: exec_swap_def)
qed (simp add: exec_swap_def)

lemma exec_alternative_good:
  assumes "inited st"
  shows "good (exec_alternative s st)"
proof (cases "sp st < 2")
  case False
  let ?st = "st\<lparr>sp := sp st - 1\<rparr>"
  have i: "inited ?st" using inited_shrink [OF assms, of "sp st - 1"] False by simp
  obtain n m where nm: "rd (nodata st) (sp st - 1) = Some n" "rd (nodata st) (sp st - 2) = Some m"
    using initedD(5) [OF assms, of "sp st - 1"] initedD(5) [OF assms, of "sp st - 2"] False by auto
  obtain a where a: "rd (stack st) (sp st - 1) = Some a"
    using initedD(4) [OF assms, of "sp st - 1"] False by auto
  obtain st1 where st1: "set_stack (sp st - 2) a ?st = Some st1" "inited st1" "sp st1 = sp ?st"
    using inited_set_stack [OF i, of "sp st - 2" a] False by auto
  obtain st2 where "set_nodata (sp st - 2) n st1 = Some st2" "inited st2"
    using inited_set_nodata [OF st1(2), of "sp st - 2" n] st1(3) False by auto
  then show ?thesis using nm a st1 i False by (simp add: exec_alternative_def Let_def)
qed (simp add: exec_alternative_def)

lemma exec_if_good:
  assumes "inited st"
  shows "good (exec_if s st)"
proof (cases "\<exists>r. tl s = 102 # r \<and> \<not> sp st < 3")
  case True
  then obtain r where r: "tl s = 102 # r" and sp: "\<not> sp st < 3" by blast
  let ?st = "st\<lparr>sp := sp st - 1\<rparr>"
  have i: "inited ?st" using inited_shrink [OF assms, of "sp st - 1"] sp by simp
  obtain n a b where v: "rd (nodata st) (sp st - 1) = Some n" "rd (stack st) (sp st - 1) = Some a"
    "rd (stack st) (sp st - 2) = Some b"
    using initedD(5) [OF assms, of "sp st - 1"] initedD(4) [OF assms, of "sp st - 1"]
      initedD(4) [OF assms, of "sp st - 2"] sp by auto
  obtain st1 where st1: "set_stack (sp st - 3) b ?st = Some st1" "inited st1" "sp st1 = sp ?st"
    using inited_set_stack [OF i, of "sp st - 3" b] sp by auto
  then show ?thesis
    using inited_shrink [OF i, of "sp st - 2"] inited_shrink [OF st1(2), of "sp st - 2"] i r v st1 sp
    by (simp add: exec_if_def Let_def)
next
  case False
  then show ?thesis using assms by (auto simp: exec_if_def split: list.splits)
qed

lemma exec_store_good:
  assumes "inited st"
  shows "good (exec_store VTlen st)"
proof (cases "sp st < 2")
  case False
  then show ?thesis
    using initedD(4) [OF assms, of "sp st - 1"] initedD(4) [OF assms, of "sp st - 2"]
      initedD(5) [OF assms, of "sp st - 2"]
    by (auto simp: exec_store_def Let_def)
qed (simp add: exec_store_def)

text \<open>Formulas whose text cannot lead the pointer astray: a number is followed by a space
  somewhere, \<open>if\<close> and \<open>null\<close> are not cut off; and without the two operations that read slots
  regardless of the stack pointer, \<open>!\<close> and \<open>$\<close>.\<close>

fun safe_text :: "wstring \<Rightarrow> bool" where
  "safe_text [] = True"
| "safe_text (c # r) \<longleftrightarrow> (is_wdigit c \<or> c = 35 \<longrightarrow> 32 \<in> set r) \<and> (c = 110 \<longrightarrow> 3 \<le> length r) \<and>
     (c = 105 \<longrightarrow> r \<noteq> []) \<and> c \<noteq> 33 \<and> c \<noteq> 36 \<and> safe_text r"

lemma safe_text_append: "safe_text (xs @ ys) \<Longrightarrow> safe_text ys"
  by (induction xs) auto

lemma safe_text_drop: "safe_text s \<Longrightarrow> safe_text (drop k s)"
  using safe_text_append [of "take k s" "drop k s"] by simp

lemma wcschr_space_suffix:
  assumes "32 \<in> set s" "safe_text s"
  obtains t where "wcschr_space s = Some (32 # t)" "safe_text (32 # t)"
proof -
  obtain pre post where s: "s = pre @ 32 # post" "32 \<notin> set pre" using split_list_first [OF assms(1)] by blast
  then have "dropWhile (\<lambda>c. c \<noteq> 32) pre = []" by auto
  then have "wcschr_space s = Some (32 # post)" unfolding s(1) by (simp add: wcschr_space_def dropWhile_stop)
  moreover have "safe_text (32 # post)" using assms(2) safe_text_append unfolding s(1) by blast
  ultimately show thesis using that by blast
qed

lemma calc_step_good:
  assumes "inited st" "safe_text (c # r)"
  shows "good (calc_step VTlen segs (c # r) st)"
  using assms
  by (auto simp: calc_step_def exec_null_def intro!: exec_param_good exec_const_good exec_swap_good
      exec_alternative_good exec_if_good exec_store_good exec_binary_good inited_put inited_calc_divide inited_mark_if)

text \<open>In such a formula the pointer stays inside the text.\<close>

lemma calc_step_pointer:
  assumes "safe_text (c # r)" "calc_step VTlen segs (c # r) st = Go p st'"
  obtains d u where "p = Some (d # u)" "safe_text u"
proof -
  have "\<exists>d u. p = Some (d # u) \<and> safe_text u"
  proof (cases "is_wdigit c \<or> c = 35")
    case True
    with assms have "p = wcschr_space (c # r) \<or> p = wcschr_space r"
      by (auto simp: calc_step_def is_wdigit_def dest!: exec_pointer split: if_splits)
    moreover have "32 \<in> set r" "32 \<in> set (c # r)" "safe_text r" using True assms(1) by auto
    ultimately show ?thesis using assms(1) by (metis wcschr_space_suffix safe_text.simps(2))
  next
    case False
    have "tl (drop 3 (c # r)) = drop 3 r" by (simp only: tl_drop list.sel)
    then have "drop 3 (c # r) \<noteq> []" "safe_text (tl (drop 3 (c # r)))" if "c = 110"
      using assms(1) that safe_text_drop [of r 3] by auto
    moreover have "r \<noteq> []" "safe_text (tl r)" if "c = 105"
      using assms(1) that safe_text_drop [of "c # r" 2] by (auto simp: drop_Suc)
    ultimately show ?thesis
      using assms False
      by (cases r; cases "drop 3 (c # r)")
        (auto simp: calc_step_def dest!: exec_pointer exec_if_pointer split: if_splits)
  qed
  then show thesis using that by blast
qed

lemma Calcul_loop_safe:
  "inited st \<Longrightarrow> safe_text s \<Longrightarrow> s \<noteq> [] \<Longrightarrow> Calcul_loop VTlen segs s st \<noteq> Crash"
proof (induction VTlen segs s st rule: Calcul_loop.induct)
  case (1 VTlen segs s st)
  obtain c r where s: "s = c # r" using "1.prems"(3) by (cases s) auto
  have g: "good (calc_step VTlen segs s st)" using calc_step_good "1.prems" s by simp
  show ?case
  proof (cases "calc_step VTlen segs s st")
    case (Go p st1)
    obtain d u where p: "p = Some (d # u)" "safe_text u"
      using calc_step_pointer "1.prems"(2) Go s by metis
    show ?thesis
      using Go p g "1.IH" [OF Go p(1) refl] unfolding Calcul_loop.simps [of VTlen segs s st] by simp
  qed (use g in \<open>simp_all add: Calcul_loop.simps [of VTlen segs s st]\<close>)
qed




end
