(* ===== verification/Definable.thy ===== *)
theory Definable
  imports Calcul
begin

text \<open>
  The formula evaluator of the data base library, \<open>szbase/definablecalculate.cc\<close>: the value of a
  definable parameter at one probe. The formula is in reverse Polish notation; the stack holds
  doubles, and no data is NaN. A word that begins with a digit stands for the next parameter of the
  formula, whatever its text. The stack belongs to the caller and keeps its contents from probe to
  probe; a slot that was never written is \<open>None\<close>. Reading such a slot, leaving an array or following
  an unset pointer is a \<open>Dcrash\<close>. The function \<open>pow\<close> of the mathematical library is an argument.
\<close>

abbreviation is_nan :: "fp \<Rightarrow> bool" where
  "is_nan v \<equiv> v = FNaN"

subsection \<open>Functions\<close>

definition szb_fixo :: "slots \<Rightarrow> fp option" where
  "szb_fixo parlst = do {
     p0 \<leftarrow> rd parlst 0; p1 \<leftarrow> rd parlst 1; p2 \<leftarrow> rd parlst 2;
     let (x, y, z) = fixo_index (to_short (frint p0)) (to_short (frint p1)) (to_short (frint p2));
     plane \<leftarrow> c_index Fi x; row \<leftarrow> c_index plane y; v \<leftarrow> c_index row z;
     Some (hundredths float64 v) }"

definition szb_tab_reg_zas :: "slots \<Rightarrow> fp option" where
  "szb_tab_reg_zas parlst = do {
     p0 \<leftarrow> rd parlst 0;
     v \<leftarrow> c_index Tz (reg_index (to_short (frint (fmul float64 p0 (Fin 100)))));
     Some (tenths float64 v) }"

definition szb_tab_reg_pow :: "slots \<Rightarrow> fp option" where
  "szb_tab_reg_pow parlst = do {
     p0 \<leftarrow> rd parlst 0;
     v \<leftarrow> c_index Tp (reg_index (to_short (frint (fmul float64 p0 (Fin 100)))));
     Some (tenths float64 v) }"

definition szb_positive :: "slots \<Rightarrow> fp option" where
  "szb_positive parlst = do { p0 \<leftarrow> rd parlst 0; Some (if fless (Fin 0) p0 then p0 else Fin 0) }"

definition int_limit :: "fp \<Rightarrow> fp" where
  "int_limit p = Fin (of_int (sint (to_int32 (frint p))))"

definition szb_sum_existing :: "slots \<Rightarrow> fp option" where
  "szb_sum_existing parlst = do {
     p0 \<leftarrow> rd parlst 0;
     exist_loop (int_limit p0) (\<lambda>v sum. fadd float64 sum v) 1 (drop 1 parlst) (Fin 0) }"

definition szb_cnt_existing :: "slots \<Rightarrow> fp option" where
  "szb_cnt_existing parlst = do {
     p0 \<leftarrow> rd parlst 0;
     exist_loop (int_limit p0) (\<lambda>v sum. fadd float64 sum (Fin 1)) 1 (drop 1 parlst) (Fin 0) }"

definition szb_water_tank_suwa :: "slots \<Rightarrow> fp option" where
  "szb_water_tank_suwa parlst = do {
     p \<leftarrow> rd parlst 0;
     let p = (if fless p (Fin 0) then Fin 0 else if fless (Fin 100) p then Fin 100 else p);
     let ind = sint (to_int32 (frint (ffloor (fdiv float64 p (Fin 5)))));
     hi \<leftarrow> c_index H2Vtab (ind + 1); lo \<leftarrow> c_index H2Vtab ind;
     let diff = fsub float64 (tenths float64 hi) (tenths float64 lo);
     let slope = fdiv float64 diff (Fin 5);
     let off = fsub float64 p (fmul float64 (of_int_fp float64 ind) (Fin 5));
     let res = fadd float64 (fmul float64 slope off) (tenths float64 lo);
     Some (fmul float64 res (Fin 10)) }"

definition szb_bit_of_log :: "slots \<Rightarrow> fp option" where
  "szb_bit_of_log parlst = do {
     p0 \<leftarrow> rd parlst 0; p1 \<leftarrow> rd parlst 1;
     let val = to_int32 (frint p0);
     let sh = unat (to_int32 (frint p1)) mod 32;
     Some (if val AND push_bit sh 1 \<noteq> 0 then Fin 1 else Fin 0) }"

definition szb_definable_choose_function :: "fp \<Rightarrow> slots \<Rightarrow> fp option" where
  "szb_definable_choose_function funid parlst =
     (let fid = unat (to_short funid) in
      if fid \<ge> MAX_FID then Some (Fin 0)
      else ([szb_fixo, szb_tab_reg_zas, szb_tab_reg_pow, szb_positive, szb_sum_existing,
             szb_cnt_existing, szb_water_tank_suwa, szb_bit_of_log] ! fid) parlst)"

subsection \<open>State\<close>

definition DEFINABLE_STACK_SIZE :: int where "DEFINABLE_STACK_SIZE = 200"

text \<open>A parameter of the formula: its block of data if it has one, the exponent its values are
  scaled with, and for one without a block the value of an averaging script.\<close>

record dparam =
  d_data :: "fp list option"
  d_prec :: int
  d_lua_av :: "fp option"

record dstate =
  dstack :: slots
  dsp :: int
  d_it :: nat

text \<open>What the evaluation of one probe reads: the parameters, the number of the probe, whether it is
  in the summer season (if seasons are configured), and \<open>pow\<close>.\<close>

record denv =
  e_params :: "dparam list"
  e_probe :: nat
  e_summer :: "bool option"
  e_pow :: "fp \<Rightarrow> fp \<Rightarrow> fp"

datatype dstep = Dgo "wstring option" dstate | Dreturn fp | Dcrash

definition dbind :: "'a option \<Rightarrow> ('a \<Rightarrow> dstep) \<Rightarrow> dstep" where
  "dbind x f = (case x of None \<Rightarrow> Dcrash | Some v \<Rightarrow> f v)"

definition dset :: "int \<Rightarrow> fp \<Rightarrow> dstate \<Rightarrow> dstate option" where
  "dset i v st = map_option (\<lambda>a. st\<lparr>dstack := a\<rparr>) (wr (dstack st) i v)"

definition dpush :: "fp \<Rightarrow> dstate \<Rightarrow> dstate option" where
  "dpush v st = map_option (\<lambda>st1. st1\<lparr>dsp := dsp st + 1\<rparr>) (dset (dsp st) v st)"

subsection \<open>Operators\<close>

definition dexec_param :: "denv \<Rightarrow> wstring \<Rightarrow> dstate \<Rightarrow> dstep" where
  "dexec_param env s st =
     (let next = wcschr_space s in
      if dsp st \<ge> DEFINABLE_STACK_SIZE then Dreturn FNaN
      else if d_it st \<ge> length (e_params env) then Dreturn FNaN
      else
        let p = e_params env ! d_it st; go = (\<lambda>st. Dgo next (st\<lparr>d_it := d_it st + 1\<rparr>)) in
        case d_data p of
          Some block \<Rightarrow>
            dbind (c_index block (int (e_probe env))) (\<lambda>v.
            dbind (dpush (if \<not> is_nan v then fmul float64 v (e_pow env (Fin 10) (of_int_fp float64 (d_prec p))) else FNaN) st) go)
        | None \<Rightarrow>
            (case d_lua_av p of
               Some v \<Rightarrow>
                 dbind (dpush v st) (\<lambda>st1.
                 dbind (rd (dstack st1) (dsp st1)) (\<lambda>w.
                 if \<not> is_nan w then Dcrash else go st1))
             | None \<Rightarrow> dbind (dpush FNaN st) go))"

definition dexec_swap :: "wstring \<Rightarrow> dstate \<Rightarrow> dstep" where
  "dexec_swap s st =
     (if dsp st < 2 then Dreturn FNaN
      else
        dbind (rd (dstack st) (dsp st - 1)) (\<lambda>a.
        if is_nan a then Dreturn FNaN
        else dbind (rd (dstack st) (dsp st - 2)) (\<lambda>b.
        if is_nan b then Dreturn FNaN
        else dbind (do { st1 \<leftarrow> dset (dsp st - 1) b st; dset (dsp st - 2) a st1 }) (Dgo (Some s)))))"

definition dexec_dup :: "wstring \<Rightarrow> dstate \<Rightarrow> dstep" where
  "dexec_dup s st =
     dbind (rd (dstack st) (dsp st - 1)) (\<lambda>a.
     if is_nan a then Dreturn FNaN
     else if DEFINABLE_STACK_SIZE \<le> dsp st then Dreturn FNaN
     else dbind (dpush a st) (Dgo (Some s)))"

text \<open>The arguments from index \<open>i\<close> down to \<open>lo\<close>: whether one is no data, \<open>None\<close> for a bad read.\<close>

function any_nodata :: "slots \<Rightarrow> int \<Rightarrow> int \<Rightarrow> bool option" where
  "any_nodata stk i lo =
     (if i < lo then Some False
      else case rd stk i of None \<Rightarrow> None
        | Some v \<Rightarrow> if is_nan v then Some True else any_nodata stk (i - 1) lo)"
  by auto
termination by (relation "measure (\<lambda>(_, i, lo). nat (i - lo + 1))") auto

definition dexec_call :: "wstring \<Rightarrow> dstate \<Rightarrow> dstep" where
  "dexec_call s st =
     (if dsp st < 2 then Dreturn FNaN
      else
        let st1 = st\<lparr>dsp := dsp st - 1\<rparr> in
        dbind (rd (dstack st1) (dsp st1 - 1)) (\<lambda>c.
        let par_cnt = sint (to_short (frint c)); base = dsp st1 - par_cnt - 1 in
        if dsp st1 < par_cnt + 1 then Dreturn FNaN
        else dbind (any_nodata (dstack st1) (dsp st1 - 2) base) (\<lambda>n.
        if n then Dreturn FNaN
        else dbind (do {
            funid \<leftarrow> rd (dstack st1) (dsp st1);
            v \<leftarrow> (if base < int (length (dstack st1))
                  then szb_definable_choose_function funid (drop (nat base) (dstack st1)) else None);
            st2 \<leftarrow> dset base v st1;
            Some (st2\<lparr>dsp := dsp st1 - par_cnt\<rparr>) }) (Dgo (Some s)))))"

definition dexec_const :: "wstring \<Rightarrow> dstate \<Rightarrow> dstep" where
  "dexec_const s st =
     (if DEFINABLE_STACK_SIZE \<le> dsp st then Dreturn FNaN
      else dbind (dpush (wcstod (tl s)) st) (Dgo (wcschr_space (tl s))))"

definition dexec_if :: "wstring \<Rightarrow> dstate \<Rightarrow> dstep" where
  "dexec_if s st =
     (case tl s of
        c # r \<Rightarrow>
          if c = 102 then
            (if dsp st < 3 then Dreturn FNaN
             else
               let st1 = st\<lparr>dsp := dsp st - 1\<rparr> in
               dbind (rd (dstack st1) (dsp st1)) (\<lambda>cond.
               dbind (if feq (Fin 0) cond
                      then do { b \<leftarrow> rd (dstack st1) (dsp st1 - 1); dset (dsp st1 - 2) b st1 }
                      else Some st1) (\<lambda>st2.
               Dgo (Some (tl s)) (st2\<lparr>dsp := dsp st1 - 1\<rparr>))))
          else Dgo (Some (tl s)) st
      | [] \<Rightarrow> Dgo (Some []) st)"

text \<open>The shape of the binary operators: pop, give up on no data, combine; the operator itself gives
  up with \<open>None\<close>.\<close>

definition dexec_binary :: "(fp \<Rightarrow> fp \<Rightarrow> fp option) \<Rightarrow> wstring \<Rightarrow> dstate \<Rightarrow> dstep" where
  "dexec_binary f s st =
     (if dsp st < 2 then Dreturn FNaN
      else
        let st1 = st\<lparr>dsp := dsp st - 1\<rparr> in
        dbind (rd (dstack st1) (dsp st1)) (\<lambda>b.
        if is_nan b then Dreturn FNaN
        else dbind (rd (dstack st1) (dsp st1 - 1)) (\<lambda>a.
        if is_nan a then Dreturn FNaN
        else case f a b of None \<Rightarrow> Dreturn FNaN
          | Some v \<Rightarrow> dbind (dset (dsp st1 - 1) v st1) (Dgo (Some s)))))"

definition ddivide :: "fp \<Rightarrow> fp \<Rightarrow> fp option" where
  "ddivide a b = (if \<not> feq b (Fin 0) then Some (fdiv float64 a b) else None)"

definition join_words :: "fp \<Rightarrow> fp \<Rightarrow> 32 word" where
  "join_words a b = push_bit 16 (scast (to_short (frint a))) OR scast (to_short (frint b))"

definition dword :: "fp \<Rightarrow> fp \<Rightarrow> fp option" where
  "dword a b = Some (of_int_fp float64 (sint (join_words a b)))"

definition dpower :: "(fp \<Rightarrow> fp \<Rightarrow> fp) \<Rightarrow> fp \<Rightarrow> fp \<Rightarrow> fp option" where
  "dpower pow a b =
     (if feq b (Fin 0) then Some (Fin 1)
      else if fle (Fin 0) a then Some (pow a b)
      else None)"

definition dexec_alternative :: "wstring \<Rightarrow> dstate \<Rightarrow> dstep" where
  "dexec_alternative s st =
     (if dsp st < 2 then Dreturn FNaN
      else
        let st1 = st\<lparr>dsp := dsp st - 1\<rparr> in
        dbind (rd (dstack st1) (dsp st1 - 1)) (\<lambda>a.
        if is_nan a
        then dbind (do { b \<leftarrow> rd (dstack st1) (dsp st1); dset (dsp st1 - 1) b st1 }) (Dgo (Some s))
        else Dgo (Some s) st1))"

definition dexec_nodata :: "wstring \<Rightarrow> dstate \<Rightarrow> dstep" where
  "dexec_nodata s st =
     (if DEFINABLE_STACK_SIZE \<le> dsp st then Dreturn FNaN else dbind (dpush FNaN st) (Dgo (Some s)))"

definition dexec_season :: "denv \<Rightarrow> wstring \<Rightarrow> dstate \<Rightarrow> dstep" where
  "dexec_season env s st =
     (if DEFINABLE_STACK_SIZE > dsp st then
        (case e_summer env of
           Some b \<Rightarrow> dbind (dpush (bool_fp b) st) (Dgo (Some s))
         | None \<Rightarrow> Dgo (Some s) st)
      else Dreturn FNaN)"

subsection \<open>The evaluation\<close>

text \<open>One pass of the loop. The character codes are those of \<open>& ! $ # ? + - * / > < ~ : ^ N X S\<close>.\<close>

definition dcalc_step :: "denv \<Rightarrow> wstring \<Rightarrow> dstate \<Rightarrow> dstep" where
  "dcalc_step env s st =
     (case s of [] \<Rightarrow> Dgo (Some []) st
      | c # _ \<Rightarrow>
        if is_wdigit c then dexec_param env s st
        else if c = 38 then dexec_swap s st
        else if c = 33 then dexec_dup s st
        else if c = 36 then dexec_call s st
        else if c = 35 then dexec_const s st
        else if c = 63 then dexec_if s st
        else if c = 43 then dexec_binary (\<lambda>a b. Some (fadd float64 a b)) s st
        else if c = 45 then dexec_binary (\<lambda>a b. Some (fsub float64 a b)) s st
        else if c = 42 then dexec_binary (\<lambda>a b. Some (fmul float64 a b)) s st
        else if c = 47 then dexec_binary ddivide s st
        else if c = 62 then dexec_binary (\<lambda>a b. Some (bool_fp (fless b a))) s st
        else if c = 60 then dexec_binary (\<lambda>a b. Some (bool_fp (fless a b))) s st
        else if c = 126 then dexec_binary (\<lambda>a b. Some (bool_fp (feq a b))) s st
        else if c = 58 then dexec_binary dword s st
        else if c = 94 then dexec_binary (dpower (e_pow env)) s st
        else if c = 78 then dexec_alternative s st
        else if c = 88 then dexec_nodata s st
        else if c = 83 then dexec_season env s st
        else Dgo (Some s) st)"

lemma dbind_Dgo: "dbind x f = Dgo t st \<longleftrightarrow> (\<exists>v. x = Some v \<and> f v = Dgo t st)"
  by (simp add: dbind_def split: option.splits)

lemma dbind_Some [simp]: "dbind (Some v) f = f v"
  by (simp add: dbind_def)

lemma dexec_param_pointer: "dexec_param env s st = Dgo p st' \<Longrightarrow> p = wcschr_space s"
  unfolding dexec_param_def Let_def
  by (simp only: dbind_Dgo dstep.simps dstep.distinct split: if_splits option.splits) (auto simp: dbind_Dgo split: if_splits)

lemma dexec_call_pointer: "dexec_call s st = Dgo p st' \<Longrightarrow> p = Some s"
  unfolding dexec_call_def Let_def
  by (auto simp only: dbind_Dgo dstep.simps dstep.distinct split: if_splits)

lemma dexec_if_pointer: "dexec_if s st = Dgo p st' \<Longrightarrow> p = Some (tl s)"
  by (auto simp: dexec_if_def Let_def dbind_Dgo split: if_splits list.splits)

lemma dexec_binary_pointer: "dexec_binary f s st = Dgo p st' \<Longrightarrow> p = Some s"
  by (auto simp: dexec_binary_def Let_def dbind_Dgo split: if_splits option.splits)

lemma dexec_pointer:
  "dexec_swap s st = Dgo p st' \<Longrightarrow> p = Some s"
  "dexec_dup s st = Dgo p st' \<Longrightarrow> p = Some s"
  "dexec_const s st = Dgo p st' \<Longrightarrow> p = wcschr_space (tl s)"
  "dexec_alternative s st = Dgo p st' \<Longrightarrow> p = Some s"
  "dexec_nodata s st = Dgo p st' \<Longrightarrow> p = Some s"
  "dexec_season env s st = Dgo p st' \<Longrightarrow> p = Some s"
  by (auto simp: dexec_swap_def dexec_dup_def dexec_const_def dexec_alternative_def dexec_nodata_def dexec_season_def
      Let_def dbind_Dgo split: if_splits option.splits)

lemmas dexec_pointers = dexec_param_pointer dexec_call_pointer dexec_if_pointer dexec_binary_pointer dexec_pointer

lemma dcalc_step_forward: "dcalc_step env s st = Dgo (Some t) st' \<Longrightarrow> length t \<le> length s"
  using wcschr_space_length [of s t] wcschr_space_length [of "tl s" t]
  by (auto simp: dcalc_step_def dest!: dexec_pointers split: if_splits list.splits)

text \<open>The end: the value of the bottom slot, whatever is above it.\<close>

definition dfinish :: "dstate \<Rightarrow> dstep" where
  "dfinish st =
     (if dsp st < 0 then Dreturn FNaN
      else dbind (rd (dstack st) 0) (\<lambda>v. if is_nan v then Dreturn FNaN else Dreturn v))"

function definable_loop :: "denv \<Rightarrow> wstring \<Rightarrow> dstate \<Rightarrow> dstep" where
  "definable_loop env s st =
     (case dcalc_step env s st of
        Dgo p st' \<Rightarrow>
          (case p of None \<Rightarrow> dfinish st'
           | Some t \<Rightarrow>
             (case t of [] \<Rightarrow> Dcrash
              | _ # u \<Rightarrow> if u = [] then dfinish st' else definable_loop env u st'))
      | r \<Rightarrow> r)"
  by pat_completeness auto
termination
  by (relation "measure (\<lambda>(_, s, _). length s)") (auto dest!: dcalc_step_forward)

declare definable_loop.simps [simp del]

text \<open>The whole function: its value, and whether it reports an error.\<close>

definition szb_definable_calculate :: "denv \<Rightarrow> wstring \<Rightarrow> slots \<Rightarrow> (fp \<times> bool) option" where
  "szb_definable_calculate env formula stk =
     (if formula = [] then Some (FNaN, True)
      else case definable_loop env formula \<lparr>dstack = stk, dsp = 0, d_it = 0\<rparr> of
          Dreturn v \<Rightarrow> Some (v, False)
        | _ \<Rightarrow> None)"

subsection \<open>Reference semantics\<close>

datatype dbinop = DPlus | DMinus | DTimes | DOver | DGreater | DLess | DEqual | DWord | DPower

datatype dexpr =
    DParam wstring
  | DConst wstring
  | DNoData
  | DBin dbinop dexpr dexpr
  | DAlt dexpr dexpr
  | DIf dexpr dexpr dexpr

fun dbinop_code :: "dbinop \<Rightarrow> wchar" where
  "dbinop_code DPlus = 43"
| "dbinop_code DMinus = 45"
| "dbinop_code DTimes = 42"
| "dbinop_code DOver = 47"
| "dbinop_code DGreater = 62"
| "dbinop_code DLess = 60"
| "dbinop_code DEqual = 126"
| "dbinop_code DWord = 58"
| "dbinop_code DPower = 94"

fun dcompile :: "dexpr \<Rightarrow> wstring" where
  "dcompile (DParam w) = w @ [32]"
| "dcompile (DConst w) = 35 # w @ [32]"
| "dcompile DNoData = [88]"
| "dcompile (DBin f a b) = dcompile a @ dcompile b @ [dbinop_code f]"
| "dcompile (DAlt a b) = dcompile a @ dcompile b @ [78]"
| "dcompile (DIf a b c) = dcompile a @ dcompile b @ dcompile c @ [63, 102]"

fun dwords_ok :: "dexpr \<Rightarrow> bool" where
  "dwords_ok (DParam w) \<longleftrightarrow> ok_word w \<and> is_wdigit (hd w)"
| "dwords_ok (DConst w) \<longleftrightarrow> ok_word w"
| "dwords_ok DNoData \<longleftrightarrow> True"
| "dwords_ok (DBin f a b) \<longleftrightarrow> dwords_ok a \<and> dwords_ok b"
| "dwords_ok (DAlt a b) \<longleftrightarrow> dwords_ok a \<and> dwords_ok b"
| "dwords_ok (DIf a b c) \<longleftrightarrow> dwords_ok a \<and> dwords_ok b \<and> dwords_ok c"

text \<open>The number of parameters of an expression, and the stack it needs.\<close>

fun dcount :: "dexpr \<Rightarrow> nat" where
  "dcount (DParam w) = 1"
| "dcount (DConst w) = 0"
| "dcount DNoData = 0"
| "dcount (DBin f a b) = dcount a + dcount b"
| "dcount (DAlt a b) = dcount a + dcount b"
| "dcount (DIf a b c) = dcount a + dcount b + dcount c"

fun ddepth :: "dexpr \<Rightarrow> int" where
  "ddepth (DBin f a b) = max (ddepth a) (1 + ddepth b)"
| "ddepth (DAlt a b) = max (ddepth a) (1 + ddepth b)"
| "ddepth (DIf a b c) = max (ddepth a) (max (1 + ddepth b) (2 + ddepth c))"
| "ddepth _ = 1"

definition dparam_value :: "denv \<Rightarrow> nat \<Rightarrow> fp" where
  "dparam_value env i = (case d_data (e_params env ! i) of None \<Rightarrow> FNaN
     | Some block \<Rightarrow> let v = block ! e_probe env in
         if is_nan v then FNaN
         else fmul float64 v (e_pow env (Fin 10) (of_int_fp float64 (d_prec (e_params env ! i)))))"

fun dapply :: "denv \<Rightarrow> dbinop \<Rightarrow> fp \<Rightarrow> fp \<Rightarrow> fp option" where
  "dapply env DPlus a b = Some (fadd float64 a b)"
| "dapply env DMinus a b = Some (fsub float64 a b)"
| "dapply env DTimes a b = Some (fmul float64 a b)"
| "dapply env DOver a b = (if b = Fin 0 then None else Some (fdiv float64 a b))"
| "dapply env DGreater a b = Some (if fless b a then Fin 1 else Fin 0)"
| "dapply env DLess a b = Some (if fless a b then Fin 1 else Fin 0)"
| "dapply env DEqual a b = Some (if a = b then Fin 1 else Fin 0)"
| "dapply env DWord a b = Some (of_int_fp float64 (sint (join_words a b)))"
| "dapply env DPower a b = (if b = Fin 0 then Some (Fin 1) else if fle (Fin 0) a then Some (e_pow env a b) else None)"

text \<open>The value of an expression whose first parameter is the one with the given number; \<open>None\<close> when
  an operator meets no data, a division by zero or a negative base, which makes the whole formula no
  data.\<close>

fun deval :: "denv \<Rightarrow> dexpr \<Rightarrow> nat \<Rightarrow> fp option" where
  "deval env (DParam w) i = Some (dparam_value env i)"
| "deval env (DConst w) i = Some (wcstod w)"
| "deval env DNoData i = Some FNaN"
| "deval env (DBin f a b) i = do {
     va \<leftarrow> deval env a i; vb \<leftarrow> deval env b (i + dcount a);
     if is_nan va \<or> is_nan vb then None else dapply env f va vb }"
| "deval env (DAlt a b) i = do {
     va \<leftarrow> deval env a i; vb \<leftarrow> deval env b (i + dcount a); Some (if is_nan va then vb else va) }"
| "deval env (DIf a b c) i = do {
     va \<leftarrow> deval env a i; vb \<leftarrow> deval env b (i + dcount a); vc \<leftarrow> deval env c (i + dcount a + dcount b);
     Some (if vc = Fin 0 then vb else va) }"

definition dparams_ok :: "denv \<Rightarrow> bool" where
  "dparams_ok env \<longleftrightarrow> (\<forall>p \<in> set (e_params env). case d_data p of
     None \<Rightarrow> d_lua_av p = None | Some block \<Rightarrow> e_probe env < length block)"

subsection \<open>The evaluator computes it\<close>

definition dcontinue :: "denv \<Rightarrow> wstring \<Rightarrow> dstate \<Rightarrow> dstep" where
  "dcontinue env u st = (if u = [] then dfinish st else definable_loop env u st)"

definition dready :: "int \<Rightarrow> dstate \<Rightarrow> bool" where
  "dready k st \<longleftrightarrow> 0 \<le> dsp st \<and> dsp st + k \<le> 200 \<and> length (dstack st) = 200"

definition dleaves :: "dstate \<Rightarrow> fp \<Rightarrow> nat \<Rightarrow> dstate \<Rightarrow> bool" where
  "dleaves st v n st' \<longleftrightarrow> dsp st' = dsp st + 1 \<and> d_it st' = d_it st + n \<and> length (dstack st') = 200 \<and>
     rd (dstack st') (dsp st) = Some v \<and> (\<forall>i < dsp st. rd (dstack st') i = rd (dstack st) i)"

lemma dcontinue_step:
  assumes "dcalc_step env (c # w) st = Dgo (Some (x # u)) st'"
  shows "dcontinue env (c # w) st = dcontinue env u st'"
  using assms by (simp add: dcontinue_def definable_loop.simps [of env "c # w"])

lemma dcontinue_return:
  assumes "dcalc_step env (c # w) st = Dreturn v"
  shows "dcontinue env (c # w) st = Dreturn v"
  using assms by (simp add: dcontinue_def definable_loop.simps [of env "c # w"])

lemma dset_ok:
  "0 \<le> i \<Longrightarrow> i < int (length (dstack st)) \<Longrightarrow> dset i v st = Some (st\<lparr>dstack := (dstack st)[nat i := Some v]\<rparr>)"
  by (simp add: dset_def wr_ok)

lemma dpush_leaves:
  assumes "dready 1 st"
  shows "\<exists>st'. dpush v st = Some st' \<and> dleaves st v 0 st'"
  using assms by (auto simp: dpush_def dset_ok dready_def dleaves_def rd_update)

text \<open>Replacing the slots of the operands by a result.\<close>

lemma dset_leaves:
  assumes "0 \<le> dsp st" "dsp st < 200" "length (dstack st2) = 200" "\<forall>i < dsp st. rd (dstack st2) i = rd (dstack st) i"
    "dsp st' = dsp st + 1" "d_it st' = d_it st + n" "dstack st' = (dstack st2)[nat (dsp st) := Some v]"
  shows "dleaves st v n st'"
  using assms by (auto simp: dleaves_def rd_update)

lemma run_dparam:
  assumes "ok_word w" "is_wdigit (hd w)" "dparams_ok env" "dready 1 st" "d_it st < length (e_params env)"
  shows "\<exists>st'. dcontinue env (w @ 32 # u) st = dcontinue env u st' \<and> dleaves st (dparam_value env (d_it st)) 1 st'"
proof -
  obtain c w' where w: "w = c # w'" "is_wdigit c" using assms(1,2) by (cases w) (auto simp: ok_word_def)
  let ?p = "e_params env ! d_it st"
  have p: "case d_data ?p of None \<Rightarrow> d_lua_av ?p = None | Some block \<Rightarrow> e_probe env < length block"
    using assms(3,5) by (simp add: dparams_ok_def)
  obtain st1 where st1: "dpush (dparam_value env (d_it st)) st = Some st1" "dleaves st (dparam_value env (d_it st)) 0 st1"
    using dpush_leaves [OF assms(4)] by blast
  have "dcalc_step env (w @ 32 # u) st = Dgo (Some (32 # u)) (st1\<lparr>d_it := d_it st1 + 1\<rparr>)"
    using w p st1(1) assms(4,5) wcschr_space_word [OF assms(1), of u]
    by (auto simp: dcalc_step_def dexec_param_def DEFINABLE_STACK_SIZE_def dready_def dparam_value_def Let_def c_index_in
        split: option.splits if_splits)
  then show ?thesis using dcontinue_step [of env c "w' @ 32 # u" st 32 u] st1(2) w(1)
    by (intro exI [of _ "st1\<lparr>d_it := d_it st1 + 1\<rparr>"]) (auto simp: dleaves_def)
qed

lemma run_dconst:
  assumes "ok_word w" "dready 1 st"
  shows "\<exists>st'. dcontinue env (35 # w @ 32 # u) st = dcontinue env u st' \<and> dleaves st (wcstod w) 0 st'"
proof -
  obtain st1 where st1: "dpush (wcstod w) st = Some st1" "dleaves st (wcstod w) 0 st1"
    using dpush_leaves [OF assms(2)] by blast
  have "wcstod (w @ 32 # u) = wcstod w" by (simp add: wcstod_def scan_number_space [OF assms(1)])
  then have "dcalc_step env (35 # w @ 32 # u) st = Dgo (Some (32 # u)) st1"
    using st1(1) assms(2) wcschr_space_word [OF assms(1), of u]
    by (simp add: dcalc_step_def dexec_const_def DEFINABLE_STACK_SIZE_def dready_def is_wdigit_def)
  then show ?thesis using dcontinue_step st1(2) by blast
qed

lemma run_dnodata:
  assumes "dready 1 st"
  shows "\<exists>st'. dcontinue env (88 # u) st = dcontinue env u st' \<and> dleaves st FNaN 0 st'"
proof -
  obtain st1 where st1: "dpush FNaN st = Some st1" "dleaves st FNaN 0 st1" using dpush_leaves [OF assms] by blast
  then have "dcalc_step env (88 # u) st = Dgo (Some (88 # u)) st1"
    using assms by (simp add: dcalc_step_def dexec_nodata_def DEFINABLE_STACK_SIZE_def dready_def is_wdigit_def)
  then show ?thesis using dcontinue_step st1(2) by blast
qed

lemma dcalc_step_binary:
  "dcalc_step env (dbinop_code f # u) st = dexec_binary (dapply env f) (dbinop_code f # u) st"
proof -
  have [simp]: "ddivide = dapply env DOver" "dword = dapply env DWord" "dpower (e_pow env) = dapply env DPower"
    by (auto simp: fun_eq_iff ddivide_def dword_def dpower_def feq_def)
  have eq: "dexec_binary (\<lambda>a b. Some (bool_fp (feq a b))) s st = dexec_binary (dapply env DEqual) s st" for s
    by (simp add: dexec_binary_def Let_def dbind_def feq_def bool_fp_def cong: if_cong option.case_cong)
  have pl: "(\<lambda>a b. Some (fadd float64 a b)) = dapply env DPlus" "(\<lambda>a b. Some (fsub float64 a b)) = dapply env DMinus"
    "(\<lambda>a b. Some (fmul float64 a b)) = dapply env DTimes" "(\<lambda>a b. Some (bool_fp (fless b a))) = dapply env DGreater"
    "(\<lambda>a b. Some (bool_fp (fless a b))) = dapply env DLess"
    by (simp_all add: fun_eq_iff bool_fp_def)
  show ?thesis by (cases f) (simp_all add: dcalc_step_def is_wdigit_def pl eq)
qed

definition dleaves2 :: "dstate \<Rightarrow> fp \<Rightarrow> fp \<Rightarrow> nat \<Rightarrow> dstate \<Rightarrow> bool" where
  "dleaves2 st va vb n st' \<longleftrightarrow> dsp st' = dsp st + 2 \<and> d_it st' = d_it st + n \<and> length (dstack st') = 200 \<and>
     rd (dstack st') (dsp st) = Some va \<and> rd (dstack st') (dsp st + 1) = Some vb \<and>
     (\<forall>i < dsp st. rd (dstack st') i = rd (dstack st) i)"

lemma dleaves_trans: "dleaves st va n st1 \<Longrightarrow> dleaves st1 vb m st2 \<Longrightarrow> dleaves2 st va vb (n + m) st2"
  by (auto simp: dleaves_def dleaves2_def)

lemma dleaves_ready: "dleaves st v n st' \<Longrightarrow> dready (k + 1) st \<Longrightarrow> dready k st'"
  by (auto simp: dleaves_def dready_def)

lemma rd_range: "rd a i = Some v \<Longrightarrow> 0 \<le> i \<and> i < int (length a)"
  by (auto simp: rd_def split: if_splits)

lemma run_dbinary:
  assumes "dleaves2 st va vb n st2"
  shows "case (if is_nan va \<or> is_nan vb then None else dapply env f va vb) of
      None \<Rightarrow> dcontinue env (dbinop_code f # u) st2 = Dreturn FNaN
    | Some v \<Rightarrow> \<exists>st'. dcontinue env (dbinop_code f # u) st2 = dcontinue env u st' \<and> dleaves st v n st'"
proof -
  have l: "dsp st2 = dsp st + 2" "rd (dstack st2) (dsp st) = Some va" "rd (dstack st2) (dsp st + 1) = Some vb"
    "length (dstack st2) = 200" "0 \<le> dsp st" "dsp st < 200" "d_it st2 = d_it st + n" "\<forall>i < dsp st. rd (dstack st2) i = rd (dstack st) i"
    using assms rd_range [of "dstack st2" "dsp st" va] by (auto simp: dleaves2_def)
  let ?r = "if is_nan va \<or> is_nan vb then None else dapply env f va vb"
  show ?thesis
  proof (cases ?r)
    case None
    then have "dexec_binary (dapply env f) (dbinop_code f # u) st2 = Dreturn FNaN"
      using l by (auto simp: dexec_binary_def Let_def add.commute split: if_splits)
    then show ?thesis using None dcontinue_return dcalc_step_binary by simp
  next
    case (Some v)
    let ?st' = "st2\<lparr>dsp := dsp st2 - 1, dstack := (dstack st2)[nat (dsp st) := Some v]\<rparr>"
    have "dexec_binary (dapply env f) (dbinop_code f # u) st2 = Dgo (Some (dbinop_code f # u)) ?st'"
      using Some l by (auto simp: dexec_binary_def Let_def dset_ok add.commute split: if_splits)
    then have "dcontinue env (dbinop_code f # u) st2 = dcontinue env u ?st'"
      using dcontinue_step dcalc_step_binary by simp
    moreover have "dleaves st v n ?st'" using l by (intro dset_leaves [of st st2]) simp_all
    ultimately show ?thesis using Some by auto
  qed
qed

lemma run_dalternative:
  assumes "dleaves2 st va vb n st2"
  shows "\<exists>st'. dcontinue env (78 # u) st2 = dcontinue env u st' \<and> dleaves st (if is_nan va then vb else va) n st'"
proof -
  have l: "dsp st2 = dsp st + 2" "rd (dstack st2) (dsp st) = Some va" "rd (dstack st2) (dsp st + 1) = Some vb"
    "length (dstack st2) = 200" "0 \<le> dsp st" "dsp st < 200" "d_it st2 = d_it st + n" "\<forall>i < dsp st. rd (dstack st2) i = rd (dstack st) i"
    using assms rd_range [of "dstack st2" "dsp st" va] by (auto simp: dleaves2_def)
  let ?st' = "if is_nan va then st2\<lparr>dsp := dsp st2 - 1, dstack := (dstack st2)[nat (dsp st) := Some vb]\<rparr> else st2\<lparr>dsp := dsp st2 - 1\<rparr>"
  have "dcalc_step env (78 # u) st2 = Dgo (Some (78 # u)) ?st'"
    using l by (auto simp: dcalc_step_def is_wdigit_def dexec_alternative_def Let_def dset_ok add.commute)
  then have "dcontinue env (78 # u) st2 = dcontinue env u ?st'" by (rule dcontinue_step)
  moreover have "dleaves st (if is_nan va then vb else va) n ?st'"
    using l dset_leaves [of st st2 ?st' n vb] by (auto simp: dleaves_def)
  ultimately show ?thesis by blast
qed

lemma run_dif:
  assumes "dleaves2 st va vb n st2" "dleaves st2 vc m st3"
  shows "\<exists>st'. dcontinue env (63 # 102 # u) st3 = dcontinue env u st' \<and> dleaves st (if vc = Fin 0 then vb else va) (n + m) st'"
proof -
  have l: "dsp st3 = dsp st + 3" "rd (dstack st3) (dsp st) = Some va" "rd (dstack st3) (dsp st + 1) = Some vb"
    "rd (dstack st3) (dsp st + 2) = Some vc"
    "length (dstack st3) = 200" "d_it st3 = d_it st + (n + m)" "\<forall>i < dsp st. rd (dstack st3) i = rd (dstack st) i"
    using assms by (auto simp: dleaves2_def dleaves_def)
  have b: "0 \<le> dsp st" "dsp st < 200" using rd_range [OF l(2)] l(5) by simp_all
  let ?st' = "if vc = Fin 0 then st3\<lparr>dsp := dsp st3 - 2, dstack := (dstack st3)[nat (dsp st) := Some vb]\<rparr> else st3\<lparr>dsp := dsp st3 - 2\<rparr>"
  have "dcalc_step env (63 # 102 # u) st3 = Dgo (Some (102 # u)) ?st'"
    using l b by (auto simp: dcalc_step_def is_wdigit_def dexec_if_def Let_def dset_ok feq_def add.commute)
  then have "dcontinue env (63 # 102 # u) st3 = dcontinue env u ?st'" by (rule dcontinue_step)
  moreover have "dleaves st (if vc = Fin 0 then vb else va) (n + m) ?st'"
    using l b dset_leaves [of st st3 ?st' "n + m" vb] by (auto simp: dleaves_def)
  ultimately show ?thesis by blast
qed

text \<open>Running the text \<open>t\<close> from \<open>st1\<close> leaves the result on top of \<open>st\<close>, or ends with no data.\<close>

definition reaches :: "denv \<Rightarrow> wstring \<Rightarrow> dstate \<Rightarrow> dstate \<Rightarrow> fp option \<Rightarrow> nat \<Rightarrow> wstring \<Rightarrow> bool" where
  "reaches env t st1 st r n u \<longleftrightarrow> (case r of
       None \<Rightarrow> dcontinue env (t @ u) st1 = Dreturn FNaN
     | Some v \<Rightarrow> \<exists>st'. dcontinue env (t @ u) st1 = dcontinue env u st' \<and> dleaves st v n st')"

lemma reaches_seq:
  assumes "reaches env t1 st1 st1 r1 n1 (t2 @ u)"
    and "\<And>v st2. r1 = Some v \<Longrightarrow> dleaves st1 v n1 st2 \<Longrightarrow> reaches env t2 st2 st (r2 v) n u"
  shows "reaches env (t1 @ t2) st1 st (r1 \<bind> r2) n u"
proof (cases r1)
  case None
  then show ?thesis using assms(1) by (simp add: reaches_def)
next
  case (Some v)
  then obtain st2 where st2: "dcontinue env (t1 @ t2 @ u) st1 = dcontinue env (t2 @ u) st2" "dleaves st1 v n1 st2"
    using assms(1) by (auto simp: reaches_def)
  from assms(2) [OF Some st2(2)] show ?thesis using st2(1) Some by (cases "r2 v") (auto simp: reaches_def)
qed

lemma dready_max: "dready (max j k) st \<longleftrightarrow> dready j st \<and> dready k st"
  by (auto simp: dready_def max_def)

lemma dleaves_it: "dleaves st v n st' \<Longrightarrow> d_it st' = d_it st + n"
  by (simp add: dleaves_def)

lemma run_dexpr:
  assumes "dwords_ok e" "dparams_ok env" "dready (ddepth e) st" "d_it st + dcount e \<le> length (e_params env)"
  shows "reaches env (dcompile e) st st (deval env e (d_it st)) (dcount e) u"
  using assms(1,3,4)
proof (induction e arbitrary: st u)
  case (DParam w st u)
  then show ?case using run_dparam [OF _ _ assms(2), of w st u] by (simp add: reaches_def)
next
  case (DConst w st u)
  then show ?case using run_dconst [of w st env u] by (simp add: reaches_def)
next
  case (DNoData st u)
  then show ?case using run_dnodata [of st env u] by (simp add: reaches_def)
next
  case (DBin f a b st u)
  have a: "reaches env (dcompile a) st st (deval env a (d_it st)) (dcount a) w" for w
    using DBin.IH(1) [of st w] DBin.prems by (simp add: dready_max add.commute)
  have b: "reaches env (dcompile b) st1 st1 (deval env b (d_it st + dcount a)) (dcount b) w"
    if "dleaves st va (dcount a) st1" for va st1 w
    using DBin.IH(2) [of st1 w] DBin.prems dleaves_it [OF that] dleaves_ready [OF that, of "ddepth b"]
    by (simp add: dready_max add.commute)
  have o: "reaches env [dbinop_code f] st2 st (if is_nan va \<or> is_nan vb then None else dapply env f va vb) (dcount a + dcount b) u"
    if "dleaves st va (dcount a) st1" "dleaves st1 vb (dcount b) st2" for va vb st1 st2
    using run_dbinary [OF dleaves_trans [OF that], of env f u] unfolding reaches_def append.simps .
  show ?case
    unfolding dcompile.simps deval.simps dcount.simps
    by (rule reaches_seq [OF a], rule reaches_seq [OF b], assumption, rule o)
next
  case (DAlt a b st u)
  have a: "reaches env (dcompile a) st st (deval env a (d_it st)) (dcount a) w" for w
    using DAlt.IH(1) [of st w] DAlt.prems by (simp add: dready_max add.commute)
  have b: "reaches env (dcompile b) st1 st1 (deval env b (d_it st + dcount a)) (dcount b) w"
    if "dleaves st va (dcount a) st1" for va st1 w
    using DAlt.IH(2) [of st1 w] DAlt.prems dleaves_it [OF that] dleaves_ready [OF that, of "ddepth b"]
    by (simp add: dready_max add.commute)
  have o: "reaches env [78] st2 st (Some (if is_nan va then vb else va)) (dcount a + dcount b) u"
    if "dleaves st va (dcount a) st1" "dleaves st1 vb (dcount b) st2" for va vb st1 st2
    using run_dalternative [OF dleaves_trans [OF that], of env u] by (simp add: reaches_def)
  show ?case
    unfolding dcompile.simps deval.simps dcount.simps
    by (rule reaches_seq [OF a], rule reaches_seq [OF b], assumption, rule o)
next
  case (DIf a b c st u)
  have a: "reaches env (dcompile a) st st (deval env a (d_it st)) (dcount a) w" for w
    using DIf.IH(1) [of st w] DIf.prems by (simp add: dready_max add.commute)
  have b: "reaches env (dcompile b) st1 st1 (deval env b (d_it st + dcount a)) (dcount b) w"
    if "dleaves st va (dcount a) st1" for va st1 w
    using DIf.IH(2) [of st1 w] DIf.prems dleaves_it [OF that] dleaves_ready [OF that, of "ddepth b"]
    by (simp add: dready_max add.commute)
  have c: "reaches env (dcompile c) st2 st2 (deval env c (d_it st + dcount a + dcount b)) (dcount c) w"
    if "dleaves st va (dcount a) st1" "dleaves st1 vb (dcount b) st2" for va vb st1 st2 w
  proof -
    have "dready (ddepth c) st2"
      using dleaves_ready [OF that(2), of "ddepth c"] dleaves_ready [OF that(1), of "ddepth c + 1"] DIf.prems(2)
      by (simp add: dready_max add.commute add.left_commute)
    then show ?thesis using DIf.IH(3) [of st2 w] DIf.prems dleaves_it [OF that(1)] dleaves_it [OF that(2)] by simp
  qed
  have o: "reaches env [63, 102] st3 st (Some (if vc = Fin 0 then vb else va)) (dcount a + dcount b + dcount c) u"
    if "dleaves st va (dcount a) st1" "dleaves st1 vb (dcount b) st2" "dleaves st2 vc (dcount c) st3" for va vb vc st1 st2 st3
    using run_dif [OF dleaves_trans [OF that(1,2)] that(3), of env u] by (simp add: reaches_def)
  show ?case
    unfolding dcompile.simps deval.simps dcount.simps
    by (rule reaches_seq [OF a], rule reaches_seq [OF b], assumption, rule reaches_seq [OF c], assumption+, rule o)
qed

subsection \<open>Properties\<close>

text \<open>C8. The evaluator computes the semantics of expressions: for every expression over parameters,
  constants, the arithmetic, comparison, word and power operators, the no-data alternative and the
  conditional, of at most 200 slots of stack and with a block of data for each parameter, evaluating
  its formula ends without an error and gives the value of the recursive semantics, and no data
  where an operator meets no data, a division by zero or a negative base. What the stack held
  before does not matter.\<close>

theorem definable_evaluates:
  assumes "dwords_ok e" "dparams_ok env" "ddepth e \<le> 200" "dcount e \<le> length (e_params env)" "length stk = 200"
  shows "szb_definable_calculate env (dcompile e) stk =
    Some (case deval env e 0 of None \<Rightarrow> FNaN | Some v \<Rightarrow> v, False)"
proof -
  let ?st = "\<lparr>dstack = stk, dsp = 0, d_it = 0\<rparr>"
  have "reaches env (dcompile e) ?st ?st (deval env e 0) (dcount e) []"
    using run_dexpr [OF assms(1,2), of ?st "[]"] assms(3-5) by (simp add: dready_def)
  moreover have ne: "dcompile e \<noteq> []" by (cases e) auto
  moreover have "dfinish st' = Dreturn v" if "dleaves ?st v n st'" for v n st'
    using that by (auto simp: dfinish_def dleaves_def)
  ultimately show ?thesis
    by (auto simp: reaches_def szb_definable_calculate_def dcontinue_def split: option.splits)
qed

definition demo_denv :: denv where
  "demo_denv = \<lparr>e_params = [\<lparr>d_data = Some [FNaN], d_prec = 0, d_lua_av = None\<rparr>, \<lparr>d_data = Some [Fin 5], d_prec = 0, d_lua_av = None\<rparr>],
     e_probe = 0, e_summer = None, e_pow = (\<lambda>_ _. Fin 1)\<rparr>"

theorem definable_evaluates_witness:
  "szb_definable_calculate demo_denv (dcompile (DBin DPlus (DAlt (DParam [49]) (DParam [50])) (DConst [50]))) (replicate 200 None) =
     Some (Fin 7, False)"
proof -
  let ?e = "DBin DPlus (DAlt (DParam [49]) (DParam [50])) (DConst [50])"
  have "dwords_ok ?e" "dparams_ok demo_denv" "ddepth ?e \<le> 200" "dcount ?e \<le> length (e_params demo_denv)" "length (replicate 200 None) = 200"
    by (simp_all add: ok_word_def is_wdigit_def dparams_ok_def demo_denv_def)
  from definable_evaluates [OF this] have "szb_definable_calculate demo_denv (dcompile ?e) (replicate 200 None) =
      Some (case deval demo_denv ?e 0 of None \<Rightarrow> FNaN | Some v \<Rightarrow> v, False)" .
  moreover have "deval demo_denv ?e 0 = Some (Fin 7)" by code_simp
  ultimately show ?thesis by simp
qed

text \<open>Joining two words loses the high word when the low word is negative: the sign of the low
  word is spread over the whole result, which then is the low word alone.\<close>

theorem negative_low_word_wins:
  assumes "sint (to_short (frint b)) < 0"
  shows "dword a b = Some (of_int_fp float64 (sint (to_short (frint b))))"
proof -
  let ?h = "to_short (frint a)" and ?l = "to_short (frint b)"
  have neg: "bit ?l 15" using assms bit_last_iff [of ?l] by simp
  have "join_words a b = (scast ?l :: 32 word)"
  proof (rule bit_word_eqI)
    fix n assume n: "n < LENGTH(32)"
    show "bit (join_words a b) n = bit (scast ?l :: 32 word) n"
    proof (cases "n < 16")
      case True
      then show ?thesis using n by (simp add: join_words_def bit_simps)
    next
      case False
      then have "bit (scast ?l :: 32 word) n" using n neg by (simp add: bit_simps min_def)
      then show ?thesis by (simp add: join_words_def bit_simps)
    qed
  qed
  moreover have "sint (scast ?l :: 32 word) = sint ?l"
    using sint_short_bounds [of ?l] by (simp only: scast_eq) (intro sint_word_of_int_eq, simp_all)
  ultimately show ?thesis by (simp add: dword_def)
qed

theorem negative_low_word_wins_witness: "dword (Fin 3) (Fin (- 1)) = Some (of_int_fp float64 (- 1))"
proof -
  have "sint (to_short (frint (Fin (- 1)))) = - 1" by code_simp
  then show ?thesis using negative_low_word_wins [of "Fin (- 1)" "Fin 3"] by simp
qed

end
