(* ===== verification/File_Remover.thy ===== *)
theory File_Remover
  imports Szb_Name
begin

text \<open>
  The clean-up of the ten-second cache, \<open>meaner3/fileremover.cc\<close>, and the waiting routine of
  the prober that runs it, \<open>TProber::WaitForCycle\<close>.

  The recursive directory iterator is the list of the paths still to visit, the end iterator the
  empty list. The file system is the set of the regular files. \<open>boost::lexical_cast\<close> is an
  argument. The clock is a function from the number of entries checked in this run to the time
  then read.
\<close>

record file_remover =
  m_months :: int
  m_iter :: "wstring list"
  m_last_month :: int
  m_current_year :: int
  m_current_month :: int

text \<open>The file name of a path: what follows the last slash.\<close>

definition path_filename :: "wstring \<Rightarrow> wstring" where
  "path_filename p = rev (takeWhile (\<lambda>c. c \<noteq> ch_slash) (rev p))"

definition FilenameToYearMonth :: "(wstring \<Rightarrow> int option) \<Rightarrow> wstring \<Rightarrow> (int \<times> int) option" where
  "FilenameToYearMonth lexical_cast filename =
     (if length filename \<noteq> 10 then None
      else if take 4 (drop 6 filename) \<noteq> suffix_szc then None
      else case lexical_cast (take 4 filename) of
        None \<Rightarrow> None
      | Some year \<Rightarrow> (case lexical_cast (take 2 (drop 4 filename)) of
          None \<Rightarrow> None
        | Some month \<Rightarrow> Some (year, month)))"

definition FileOutdated :: "(wstring \<Rightarrow> int option) \<Rightarrow> file_remover \<Rightarrow> wstring \<Rightarrow> bool" where
  "FileOutdated lexical_cast fr filename =
     (case FilenameToYearMonth lexical_cast filename of
        None \<Rightarrow> False
      | Some (year, month) \<Rightarrow>
          (m_current_year fr * 12) + m_current_month fr - (year * 12) - month > m_months fr)"

text \<open>\<open>CheckPath\<close> returns whether it removed the file, and the file system after it.\<close>

definition CheckPath ::
  "(wstring \<Rightarrow> int option) \<Rightarrow> file_remover \<Rightarrow> wstring set \<Rightarrow> wstring \<Rightarrow> bool \<times> wstring set" where
  "CheckPath lexical_cast fr fs p =
     (if p \<notin> fs then (False, fs)
      else if FileOutdated lexical_cast fr (path_filename p) then (True, fs - {p})
      else (False, fs))"

definition TimeToYearMonth :: "time_t \<Rightarrow> file_remover \<Rightarrow> file_remover" where
  "TimeToYearMonth t fr =
     (case gmtime_r t of
        None \<Rightarrow> fr
      | Some x \<Rightarrow> fr\<lparr>m_current_year := c_int (tm_year x + 1900), m_current_month := tm_mon x + 1\<rparr>)"

text \<open>The loop of \<open>Go\<close>. An interrupted run leaves the iterator at the entry it checked last.
  The result is the remover, the file system and the last time read.\<close>

fun go_loop :: "(wstring \<Rightarrow> int option) \<Rightarrow> time_t \<Rightarrow> (nat \<Rightarrow> time_t) \<Rightarrow> nat \<Rightarrow> file_remover
    \<Rightarrow> wstring set \<Rightarrow> wstring list \<Rightarrow> time_t \<Rightarrow> file_remover \<times> wstring set \<times> time_t" where
  "go_loop lc maxtime clock k fr fs [] t = (fr\<lparr>m_iter := []\<rparr>, fs, t)"
| "go_loop lc maxtime clock k fr fs (p # ps) t =
     (let fs' = snd (CheckPath lc fr fs p); t' = clock k in
      if t' \<ge> maxtime then (fr\<lparr>m_iter := p # ps\<rparr>, fs', t')
      else go_loop lc maxtime clock (Suc k) fr fs' ps t')"

definition Go :: "(wstring \<Rightarrow> int option) \<Rightarrow> wstring list \<Rightarrow> time_t \<Rightarrow> (nat \<Rightarrow> time_t) \<Rightarrow> time_t
    \<Rightarrow> file_remover \<Rightarrow> wstring set \<Rightarrow> file_remover \<times> wstring set \<times> time_t" where
  "Go lc dir_listing now clock maxtime fr fs =
     (let fr1 = TimeToYearMonth now fr in
      if m_iter fr1 = [] \<and> m_last_month fr1 = m_current_month fr1 then (fr1, fs, 0)
      else let iter = (if m_iter fr1 = [] then dir_listing else m_iter fr1);
               fr2 = fr1\<lparr>m_last_month := m_current_month fr1\<rparr>;
               (fr3, fs', t) = go_loop lc maxtime clock 0 fr2 fs iter now
           in (fr3, fs', now - t))"

text \<open>\<open>TProber::WaitForCycle\<close>: the seconds it will sleep, after running the remover for at most
  that long, and the planned waiting time it returns.\<close>

definition WaitForCycle :: "(wstring \<Rightarrow> int option) \<Rightarrow> wstring list \<Rightarrow> time_t \<Rightarrow> (nat \<Rightarrow> time_t)
    \<Rightarrow> time_t \<Rightarrow> time_t \<Rightarrow> file_remover \<Rightarrow> wstring set
    \<Rightarrow> file_remover \<times> wstring set \<times> time_t \<times> time_t" where
  "WaitForCycle lc dir_listing now clock period t fr fs =
     (let tosleep = period - t smod period;
          (fr', fs', used) = Go lc dir_listing now clock (now + tosleep) fr fs
      in (fr', fs', tosleep - used, tosleep))"

subsection \<open>What is removed\<close>

lemma FileOutdated_frame [simp]:
  "FileOutdated lc (fr\<lparr>m_iter := x\<rparr>) n = FileOutdated lc fr n"
  "FileOutdated lc (fr\<lparr>m_last_month := y\<rparr>) n = FileOutdated lc fr n"
  by (auto simp: FileOutdated_def split: option.splits)

lemma CheckPath_fs: "snd (CheckPath lc fr fs p) =
    (if FileOutdated lc fr (path_filename p) then fs - {p} else fs)"
  by (auto simp: CheckPath_def)

lemma go_loop_fs:
  assumes "go_loop lc maxtime clock k fr fs ps t = (fr', fs', t')"
  shows "fs - {p \<in> set ps. FileOutdated lc fr (path_filename p)} \<subseteq> fs' \<and> fs' \<subseteq> fs \<and>
    (m_iter fr' = [] \<longrightarrow> fs' = fs - {p \<in> set ps. FileOutdated lc fr (path_filename p)})"
  using assms
proof (induction lc maxtime clock k fr fs ps t rule: go_loop.induct)
  case (1 lc maxtime clock k fr fs t)
  then show ?case by auto
next
  case (2 lc maxtime clock k fr fs p ps t)
  show ?case
  proof (cases "clock k \<ge> maxtime")
    case True
    with "2.prems" show ?thesis by (auto simp: Let_def CheckPath_fs split: if_splits)
  next
    case False
    with "2.prems" "2.IH" [OF refl refl] show ?thesis
      by (auto simp: Let_def CheckPath_fs split: if_splits)
  qed
qed


subsection \<open>How long the prober waits\<close>

lemma go_loop_time:
  assumes "go_loop lc maxtime clock k fr fs ps t = (fr', fs', t')"
    and "\<And>j. base \<le> clock j" and "base \<le> t"
  shows "base \<le> t'"
  using assms
proof (induction lc maxtime clock k fr fs ps t rule: go_loop.induct)
  case (1 lc maxtime clock k fr fs t)
  then show ?case by simp
next
  case (2 lc maxtime clock k fr fs p ps t)
  show ?case
  proof (cases "clock k \<ge> maxtime")
    case True
    with "2.prems" show ?thesis by (auto simp: Let_def)
  next
    case False
    with "2" show ?thesis by (auto simp: Let_def)
  qed
qed


text \<open>A prober that starts to wait 2 seconds into a ten-second cycle and spends 3 seconds on the
  clean-up then sleeps 11 seconds instead of 5.\<close>

definition demo_remover :: file_remover where
  "demo_remover = \<lparr> m_months = 2, m_iter = [], m_last_month = 0, m_current_year = 0,
     m_current_month = 0 \<rparr>"



end
