(* ===== verification/Parcook_Loop.thy ===== *)
theory Parcook_Loop
  imports Parcook_Avg Calcul Calendar
begin

text \<open>
  The main loop of \<open>parcook/parcook.cc\<close>: one cycle copies the segments of the line daemons into
  the probes segment, runs the formulas, runs the Lua scripts, and rolls the new probes through
  the minute, ten-minute and hour averages. The Lua interpreter is an argument; a segment that
  cannot be attached ends the program.
\<close>

subsection \<open>State\<close>

record line_info =
  ParBase :: nat
  ParTotal :: nat
  ValTab :: "short list"

record lua_info =
  lua_index :: nat
  lua_prec :: int
  lua_script :: nat

record config =
  infos :: "param_info list"
  VTlen :: nat
  Equations :: "wstring list"
  names :: "wstring list"
  precs :: "int list"
  scripts :: "lua_info list"

record par_state =
  Sums :: sum_table
  Cnts :: cnt_table
  Probes :: history
  Minutes :: history
  Min10s :: history
  Minute :: "short list"
  Min10 :: "short list"
  Hour :: "short list"
  last_min :: int
  last_min10 :: int
  first_time :: bool

datatype 'a cycle = Done 'a | Exited | Crashed

text \<open>Which segments can be attached during a cycle.\<close>

record attach =
  at_probe :: bool
  at_line :: "nat \<Rightarrow> bool"
  at_minute :: bool
  at_min10 :: bool
  at_hour :: bool

subsection \<open>Lines\<close>

definition copy_line :: "line_info \<Rightarrow> short list \<Rightarrow> short list" where
  "copy_line li P = foldl (\<lambda>P ii. P[nat (int (ParBase li + ii) mod 65536) := ValTab li ! ii]) P [0..<ParTotal li]"

fun copy_lines :: "(nat \<Rightarrow> bool) \<Rightarrow> nat \<Rightarrow> line_info list \<Rightarrow> short list \<Rightarrow> short list cycle" where
  "copy_lines ok i [] P = Done P"
| "copy_lines ok i (li # ls) P = (if ok i then copy_lines ok (Suc i) ls (copy_line li P) else Exited)"

subsection \<open>Formulas\<close>

fun run_equations :: "nat \<Rightarrow> segments \<Rightarrow> wstring list \<Rightarrow> short list \<Rightarrow> short list cycle" where
  "run_equations n segs [] P = Done P"
| "run_equations n segs (f # fs) P =
     (case Calcul n segs f P of
        Return st \<Rightarrow> run_equations n segs fs (Probe st)
      | Go p st \<Rightarrow> run_equations n segs fs (Probe st)
      | Crash \<Rightarrow> Crashed
      | Quit \<Rightarrow> Exited)"

subsection \<open>Lua parameters\<close>

fun times10 :: "nat \<Rightarrow> fp \<Rightarrow> fp" where
  "times10 0 v = v"
| "times10 (Suc n) v = times10 n (fmul float64 v (Fin 10))"

fun over10 :: "nat \<Rightarrow> fp \<Rightarrow> fp" where
  "over10 0 v = v"
| "over10 (Suc n) v = over10 n (fdiv float64 v (Fin 10))"

text \<open>The probe a script's result becomes.\<close>

definition script_value :: "int \<Rightarrow> fp option \<Rightarrow> short" where
  "script_value pr res =
     (case res of None \<Rightarrow> SZARP_NO_DATA
      | Some r \<Rightarrow>
        if r = FNaN then SZARP_NO_DATA
        else
          let r = (if pr < 5 then times10 (nat pr) r else r) in
          if fless (Fin 32767) r then
            (if fless r (Fin 65536) then to_short r else SZARP_NO_DATA)
          else if fless r (Fin (- 32768)) then SZARP_NO_DATA
          else to_short r)"

type_synonym lua = "(wstring \<Rightarrow> fp option) \<Rightarrow> nat \<Rightarrow> fp option"

fun execute_scripts :: "lua \<Rightarrow> (wstring \<Rightarrow> fp option) \<Rightarrow> lua_info list \<Rightarrow> short list \<Rightarrow> short list" where
  "execute_scripts lua pv [] P = P"
| "execute_scripts lua pv (i # is) P =
     execute_scripts lua pv is (P[lua_index i := script_value (lua_prec i) (lua pv (lua_script i))])"

definition ipc_value :: "int \<Rightarrow> short \<Rightarrow> fp" where
  "ipc_value pr v = (if v = SZARP_NO_DATA then FNaN
     else if pr < 5 then over10 (nat pr) (of_int_fp float64 (sint v)) else of_int_fp float64 (sint v))"

definition ipc_values :: "config \<Rightarrow> short list \<Rightarrow> wstring \<Rightarrow> fp option" where
  "ipc_values cfg P = map_of (rev (zip (names cfg) (map2 ipc_value (precs cfg) P)))"

definition calculate_lua_params :: "lua \<Rightarrow> config \<Rightarrow> short list \<Rightarrow> short list cycle" where
  "calculate_lua_params lua cfg P =
     (if length (names cfg) < VTlen cfg then Crashed
      else Done (execute_scripts lua (ipc_values cfg P) (scripts cfg) P))"

subsection \<open>Averages\<close>

definition minute_stage :: "config \<Rightarrow> tm \<Rightarrow> short list \<Rightarrow> par_state \<Rightarrow> par_state" where
  "minute_stage cfg t P st =
     (let (s, c, h) = update_values (infos cfg) (VTlen cfg) 0 P (nat (tm_sec t div 10)) (Sums st, Cnts st, Probes st);
          m = calculate_averages (infos cfg) (VTlen cfg) s c 0 (Minute st);
          (s, c, h2) = update_values (infos cfg) (VTlen cfg) 1 m (nat (tm_min t mod 10)) (s, c, Minutes st)
      in st\<lparr>Sums := s, Cnts := c, Probes := h, Minute := m, Minutes := h2\<rparr>)"

definition min10_stage :: "config \<Rightarrow> tm \<Rightarrow> par_state \<Rightarrow> par_state" where
  "min10_stage cfg t st =
     (let m = calculate_averages (infos cfg) (VTlen cfg) (Sums st) (Cnts st) 1 (Min10 st);
          (s, c, h) = update_values (infos cfg) (VTlen cfg) 2 m (nat (tm_min t div 10)) (Sums st, Cnts st, Min10s st)
      in st\<lparr>Sums := s, Cnts := c, Min10 := m, Min10s := h\<rparr>)"

definition hour_stage :: "config \<Rightarrow> par_state \<Rightarrow> par_state" where
  "hour_stage cfg st =
     st\<lparr>Hour := calculate_averages (infos cfg) (VTlen cfg) (Sums st) (Cnts st) 2 (Hour st)\<rparr>"

subsection \<open>The cycle\<close>

definition MainLoop ::
  "lua \<Rightarrow> config \<Rightarrow> attach \<Rightarrow> tm \<Rightarrow> line_info list \<Rightarrow> short list \<Rightarrow> par_state
     \<Rightarrow> (short list \<times> par_state) cycle" where
  "MainLoop lua cfg att t lines P st =
     (if \<not> at_probe att then Exited
      else case copy_lines (at_line att) 0 lines P of
        Exited \<Rightarrow> Exited | Crashed \<Rightarrow> Crashed
      | Done P1 \<Rightarrow>
        let segs = \<lparr> sMinute = (if at_minute att then Some (Minute st) else None),
                     sMin10 = (if at_min10 att then Some (Min10 st) else None),
                     sHour = (if at_hour att then Some (Hour st) else None) \<rparr> in
        (case run_equations (VTlen cfg) segs (Equations cfg) P1 of
           Exited \<Rightarrow> Exited | Crashed \<Rightarrow> Crashed
         | Done P2 \<Rightarrow>
           (case calculate_lua_params lua cfg P2 of
              Exited \<Rightarrow> Exited | Crashed \<Rightarrow> Crashed
            | Done P3 \<Rightarrow>
              if 6 \<le> tm_sec t div 10 then Crashed
              else if \<not> at_minute att then Exited
              else
                let st1 = minute_stage cfg t P3 st;
                    do10 = (last_min st1 \<noteq> tm_min t \<or> first_time st1);
                    st2 = (if do10 then min10_stage cfg t st1 else st1)\<lparr>last_min := tm_min t\<rparr>;
                    dohour = (last_min10 st2 \<noteq> tm_min t div 10 \<or> first_time st2);
                    st3 = (if dohour then hour_stage cfg st2 else st2)
                            \<lparr>last_min10 := tm_min t div 10, first_time := False\<rparr>
                in if do10 \<and> \<not> at_min10 att then Exited
                   else if dohour \<and> \<not> at_hour att then Exited
                   else Done (P3, st3))))"

text \<open>The time slept after a cycle.\<close>

definition cycle_sleep :: "int \<Rightarrow> tm \<Rightarrow> int" where
  "cycle_sleep BasePeriod t = BasePeriod - tm_sec t smod BasePeriod"

text \<open>\<open>ClearShm\<close>, and the state before the first cycle. The hour segment is not cleared by the
  program, so its content is given.\<close>

definition ClearShm :: "nat \<Rightarrow> short list" where
  "ClearShm number = replicate number SZARP_NO_DATA"

definition parcook_init :: "config \<Rightarrow> short list \<Rightarrow> par_state" where
  "parcook_init cfg hour =
     \<lparr> Sums = alloc_sums (VTlen cfg), Cnts = alloc_cnts (VTlen cfg),
       Probes = alloc_history (VTlen cfg) 6, Minutes = alloc_history (VTlen cfg) 10,
       Min10s = alloc_history (VTlen cfg) 6,
       Minute = ClearShm (VTlen cfg), Min10 = ClearShm (VTlen cfg), Hour = hour,
       last_min = - 1, last_min10 = - 1, first_time = True \<rparr>"

subsection \<open>Invariant\<close>

definition wf_tm :: "tm \<Rightarrow> bool" where
  "wf_tm t \<longleftrightarrow> 0 \<le> tm_sec t \<and> 0 \<le> tm_min t \<and> tm_min t < 60"

definition par_inv :: "config \<Rightarrow> par_state \<Rightarrow> bool" where
  "par_inv cfg st \<longleftrightarrow>
     window_inv (infos cfg) (VTlen cfg) 6 0 (Sums st, Cnts st, Probes st) \<and>
     window_inv (infos cfg) (VTlen cfg) 10 1 (Sums st, Cnts st, Minutes st) \<and>
     window_inv (infos cfg) (VTlen cfg) 6 2 (Sums st, Cnts st, Min10s st) \<and>
     length (Minute st) = VTlen cfg \<and> length (Min10 st) = VTlen cfg \<and> length (Hour st) = VTlen cfg"

lemma window_inv_alloc:
  "pt < 3 \<Longrightarrow> window_inv is V n pt (alloc_sums V, alloc_cnts V, alloc_history V n)"
  by (simp add: window_inv_def alloc_sums_def alloc_cnts_def alloc_history_def get2_def window_sum_def
      window_cnt_def entry_def)

lemma par_inv_init: "length hour = VTlen cfg \<Longrightarrow> par_inv cfg (parcook_init cfg hour)"
  by (simp add: par_inv_def parcook_init_def window_inv_alloc ClearShm_def)

lemma length_calculate_averages [simp]:
  "length (calculate_averages is V S C pt probes) = length probes"
proof -
  have "length (foldl (\<lambda>t ii. calculate_average is S C ii pt t) probes ns) = length probes" for ns
    by (induction ns arbitrary: probes) auto
  then show ?thesis by (simp add: calculate_averages_def)
qed

lemma minute_stage_inv:
  fixes P :: "short list"
  assumes "wf_infos (VTlen cfg) (infos cfg)" "par_inv cfg st" "wf_tm t" "tm_sec t div 10 < 6"
  defines "st' \<equiv> minute_stage cfg t P st"
  shows "par_inv cfg st'"
    and "\<And>a b. a < VTlen cfg \<Longrightarrow>
      get2 (Probes st') a b = (if b = nat (tm_sec t div 10) then P ! a else get2 (Probes st) a b)"
    and "\<exists>s c. window_inv (infos cfg) (VTlen cfg) 6 0 (s, c, Probes st') \<and>
      Minute st' = calculate_averages (infos cfg) (VTlen cfg) s c 0 (Minute st)"
    and "Min10 st' = Min10 st" "Hour st' = Hour st" "last_min st' = last_min st"
    "last_min10 st' = last_min10 st" "first_time st' = first_time st"
proof -
  let ?k = "nat (tm_sec t div 10)" and ?j = "nat (tm_min t mod 10)"
  have k: "?k < 6" "?j < 10" using assms(3,4) by (auto simp: wf_tm_def)
  obtain s1 c1 h1 where u1: "update_values (infos cfg) (VTlen cfg) 0 P ?k (Sums st, Cnts st, Probes st) = (s1, c1, h1)"
    by (metis prod_cases3)
  define m where "m = calculate_averages (infos cfg) (VTlen cfg) s1 c1 0 (Minute st)"
  obtain s2 c2 h2 where u2: "update_values (infos cfg) (VTlen cfg) 1 m ?j (s1, c1, Minutes st) = (s2, c2, h2)"
    by (metis prod_cases3)
  have st': "st' = st\<lparr>Sums := s2, Cnts := c2, Probes := h1, Minute := m, Minutes := h2\<rparr>"
    using u1 u2 by (simp add: st'_def minute_stage_def Let_def m_def)
  have inv: "window_inv (infos cfg) (VTlen cfg) 6 0 (Sums st, Cnts st, Probes st)"
    "window_inv (infos cfg) (VTlen cfg) 10 1 (Sums st, Cnts st, Minutes st)"
    "window_inv (infos cfg) (VTlen cfg) 6 2 (Sums st, Cnts st, Min10s st)"
    using assms(2) by (simp_all add: par_inv_def)
  note U1 = update_values_correct [OF assms(1) inv(1) k(1) u1]
  have inv1: "window_inv (infos cfg) (VTlen cfg) 10 1 (s1, c1, Minutes st)"
    "window_inv (infos cfg) (VTlen cfg) 6 2 (s1, c1, Min10s st)"
    using U1(3) [OF _ inv(2)] U1(3) [OF _ inv(3)] by simp_all
  note U2 = update_values_correct [OF assms(1) inv1(1) k(2) u2]
  show "par_inv cfg st'"
    using U2(1) U2(3) [OF _ U1(1)] U2(3) [OF _ inv1(2)] assms(2) by (simp add: st' par_inv_def m_def)
  show "get2 (Probes st') a b = (if b = ?k then P ! a else get2 (Probes st) a b)" if "a < VTlen cfg" for a b
    using U1(2) [OF that] by (simp add: st')
  show "\<exists>s c. window_inv (infos cfg) (VTlen cfg) 6 0 (s, c, Probes st') \<and>
      Minute st' = calculate_averages (infos cfg) (VTlen cfg) s c 0 (Minute st)"
    using U1(1) by (auto simp: st' m_def)
qed (simp_all add: st'_def minute_stage_def Let_def split: prod.splits)

lemma min10_stage_inv:
  assumes "wf_infos (VTlen cfg) (infos cfg)" "par_inv cfg st" "wf_tm t"
  shows "par_inv cfg (min10_stage cfg t st)"
proof -
  let ?k = "nat (tm_min t div 10)"
  have k: "?k < 6" using assms(3) by (auto simp: wf_tm_def)
  define m where "m = calculate_averages (infos cfg) (VTlen cfg) (Sums st) (Cnts st) 1 (Min10 st)"
  obtain s c h where u: "update_values (infos cfg) (VTlen cfg) 2 m ?k (Sums st, Cnts st, Min10s st) = (s, c, h)"
    by (metis prod_cases3)
  have inv: "window_inv (infos cfg) (VTlen cfg) 6 0 (Sums st, Cnts st, Probes st)"
    "window_inv (infos cfg) (VTlen cfg) 10 1 (Sums st, Cnts st, Minutes st)"
    "window_inv (infos cfg) (VTlen cfg) 6 2 (Sums st, Cnts st, Min10s st)"
    using assms(2) by (simp_all add: par_inv_def)
  note U = update_values_correct [OF assms(1) inv(3) k u]
  show ?thesis
    using U(1) U(3) [OF _ inv(1)] U(3) [OF _ inv(2)] assms(2) u
    by (simp add: min10_stage_def par_inv_def m_def)
qed

lemma min10_stage_Minute [simp]:
  "Minute (min10_stage cfg t st) = Minute st" "Probes (min10_stage cfg t st) = Probes st"
  by (simp_all add: min10_stage_def Let_def split: prod.splits)

lemma hour_stage_inv: "par_inv cfg st \<Longrightarrow> par_inv cfg (hour_stage cfg st)"
  by (simp add: hour_stage_def par_inv_def)

text \<open>A completed cycle is the three stages on the probes the cycle produced.\<close>

lemma MainLoop_Done:
  assumes "MainLoop lua cfg att t lines P st = Done (P', st')"
  shows "tm_sec t div 10 < 6"
    and "\<exists>st1. (st1 = minute_stage cfg t P' st \<or> st1 = min10_stage cfg t (minute_stage cfg t P' st)) \<and>
      (\<exists>b st2. (st2 = st1\<lparr>last_min := b\<rparr> \<or> st2 = hour_stage cfg (st1\<lparr>last_min := b\<rparr>)) \<and>
        (\<exists>c. st' = st2\<lparr>last_min10 := c, first_time := False\<rparr>))"
  using assms
  by (auto simp: MainLoop_def Let_def split: if_splits cycle.splits)

lemma par_inv_flags [simp]:
  "par_inv cfg (st\<lparr>last_min := a\<rparr>) = par_inv cfg st"
  "par_inv cfg (st\<lparr>last_min10 := b, first_time := c\<rparr>) = par_inv cfg st"
  by (simp_all add: par_inv_def)

lemma MainLoop_inv:
  assumes "wf_infos (VTlen cfg) (infos cfg)" "par_inv cfg st" "wf_tm t"
    "MainLoop lua cfg att t lines P st = Done (P', st')"
  shows "par_inv cfg st'"
  using MainLoop_Done [OF assms(4)] minute_stage_inv(1) [OF assms(1-3)] min10_stage_inv [OF assms(1) _ assms(3)]
    hour_stage_inv by (elim exE conjE disjE) simp_all

text \<open>States the program can be in after any number of completed cycles.\<close>

inductive reachable :: "lua \<Rightarrow> config \<Rightarrow> par_state \<Rightarrow> bool" for lua cfg where
  start: "length hour = VTlen cfg \<Longrightarrow> reachable lua cfg (parcook_init cfg hour)"
| cycle: "reachable lua cfg st \<Longrightarrow> wf_tm t \<Longrightarrow> MainLoop lua cfg att t lines P st = Done (P', st') \<Longrightarrow>
    reachable lua cfg st'"

lemma reachable_inv:
  assumes "reachable lua cfg st" "wf_infos (VTlen cfg) (infos cfg)"
  shows "par_inv cfg st"
  using assms by (induction rule: reachable.induct) (auto intro: par_inv_init MainLoop_inv)

subsection \<open>Properties\<close>

text \<open>C1. The running sums and counters are those of the windows: after any number of cycles,
  whatever the line daemons, formulas and scripts delivered, each counter of a parameter that
  carries one is the number of entries with data in its window (the last six probes, ten minute
  averages, six ten-minute averages) and each 64-bit sum, read as a signed number, is the sum of
  these entries, with no overflow.\<close>

theorem running_sums_exact:
  assumes "reachable lua cfg st" "wf_infos (VTlen cfg) (infos cfg)" "p < VTlen cfg" "carries (infos cfg) p"
  shows "sint (get2 (Sums st) p 0) = window_sum (infos cfg) (Probes st) 6 p \<and>
    sint (get2 (Sums st) p 1) = window_sum (infos cfg) (Minutes st) 10 p \<and>
    sint (get2 (Sums st) p 2) = window_sum (infos cfg) (Min10s st) 6 p \<and>
    uint (get2 (Cnts st) p 0) = window_cnt (infos cfg) (Probes st) 6 p \<and>
    uint (get2 (Cnts st) p 1) = window_cnt (infos cfg) (Minutes st) 10 p \<and>
    uint (get2 (Cnts st) p 2) = window_cnt (infos cfg) (Min10s st) 6 p"
proof -
  have read: "sint (get2 (Sums st) p pt) = window_sum (infos cfg) h n p \<and>
      uint (get2 (Cnts st) p pt) = window_cnt (infos cfg) h n p"
    if "window_inv (infos cfg) (VTlen cfg) n pt (Sums st, Cnts st, h)" "n \<le> 255" for n pt h
    using window_inv_read(1,2) [OF that assms(3,4)] by blast
  have "window_inv (infos cfg) (VTlen cfg) 6 0 (Sums st, Cnts st, Probes st)"
    "window_inv (infos cfg) (VTlen cfg) 10 1 (Sums st, Cnts st, Minutes st)"
    "window_inv (infos cfg) (VTlen cfg) 6 2 (Sums st, Cnts st, Min10s st)"
    using reachable_inv [OF assms(1,2)] unfolding par_inv_def by blast+
  from this [THEN read] show ?thesis by simp
qed

theorem running_sums_exact_witness:
  "sint (get2 (Sums (parcook_init \<lparr> infos = [single_info], VTlen = 1, Equations = [], names = [[65]],
      precs = [0], scripts = [] \<rparr> [0])) 0 0) = 0"
proof -
  let ?cfg = "\<lparr> infos = [single_info], VTlen = 1, Equations = [], names = [[65]], precs = [0], scripts = [] \<rparr>"
  have "reachable (\<lambda>_ _. None) ?cfg (parcook_init ?cfg [0])" by (rule reachable.start) simp
  moreover have "wf_infos 1 [single_info]" "carries [single_info] 0"
    by (simp_all add: wf_infos_def carries_def single_info_def)
  ultimately show ?thesis
    using running_sums_exact [of "\<lambda>_ _. None" ?cfg "parcook_init ?cfg [0]" 0]
    by (simp add: parcook_init_def alloc_sums_def get2_def)
qed

text \<open>C14. A minute average is an average: after a cycle that completes, the newest column of the
  probes window holds the probes of the cycle, and the minute segment holds for each parameter
  no data if the window has none, and otherwise the sum of the entries with data divided by their
  number, truncated towards zero; the value lies between any bounds of the entries and is never
  the no-data marker. For a combined parameter this holds of the 32-bit value of its two words.\<close>

theorem minute_average_correct:
  assumes "reachable lua cfg st" "wf_infos (VTlen cfg) (infos cfg)" "wf_tm t"
    and "MainLoop lua cfg att t lines P st = Done (P', st')"
    and "p < VTlen cfg" "carries (infos cfg) p"
    and "\<forall>k v. k < 6 \<and> entry (infos cfg) (Probes st') p k = Some v \<longrightarrow> lo \<le> v \<and> v \<le> hi"
  shows "get2 (Probes st') p (nat (tm_sec t div 10)) = P' ! p \<and>
    (let n = window_cnt (infos cfg) (Probes st') 6 p; v = segment_value (infos cfg) (Minute st') p in
     if n = 0 then Minute st' ! p = SZARP_NO_DATA
     else v = window_sum (infos cfg) (Probes st') 6 p sdiv n \<and> lo \<le> v \<and> v \<le> hi \<and>
          Minute st' ! p \<noteq> SZARP_NO_DATA)"
proof -
  note inv = reachable_inv [OF assms(1,2)]
  note D = MainLoop_Done [OF assms(4)]
  note M = minute_stage_inv(1-3) [OF assms(2) inv assms(3) D(1), where P = P']
  have eq: "Probes st' = Probes (minute_stage cfg t P' st)" "Minute st' = Minute (minute_stage cfg t P' st)"
    using D(2) by (elim exE conjE disjE; simp add: hour_stage_def)+
  obtain s c where sc: "window_inv (infos cfg) (VTlen cfg) 6 0 (s, c, Probes st')"
    "Minute st' = calculate_averages (infos cfg) (VTlen cfg) s c 0 (Minute st)"
    using M(3) eq by auto
  have len: "length (Minute st) = VTlen cfg" using inv by (simp add: par_inv_def)
  note A = averages_correct [OF assms(2) sc(1) _ len assms(5,6), folded sc(2)]
  have nonneg: "0 \<le> window_cnt (infos cfg) (Probes st') 6 p" by (rule window_cnt_bounds(1))
  have "window_cnt (infos cfg) (Probes st') 6 p * lo \<le> window_sum (infos cfg) (Probes st') 6 p"
    "window_sum (infos cfg) (Probes st') 6 p \<le> window_cnt (infos cfg) (Probes st') 6 p * hi"
    using window_sum_bounds [of 6 "infos cfg" "Probes st'" p lo hi] assms(7) by blast+
  then show ?thesis
    using A nonneg sdiv_between [of "window_cnt (infos cfg) (Probes st') 6 p" lo _ hi]
      M(2) [OF assms(5), of "nat (tm_sec t div 10)"]
    by (auto simp: eq Let_def order_less_le)
qed

theorem minute_average_correct_witness:
  "\<exists>st'. MainLoop (\<lambda>_ _. None) \<lparr> infos = [single_info], VTlen = 1, Equations = [], names = [[65]], precs = [0], scripts = [] \<rparr>
      \<lparr> at_probe = True, at_line = (\<lambda>_. True), at_minute = True, at_min10 = True, at_hour = True \<rparr> (gm_tm 0)
      [\<lparr> ParBase = 0, ParTotal = 1, ValTab = [7] \<rparr>] [0]
      (parcook_init \<lparr> infos = [single_info], VTlen = 1, Equations = [], names = [[65]], precs = [0], scripts = [] \<rparr> [0])
      = Done ([7], st') \<and> get2 (Probes st') 0 0 = 7"
proof -
  let ?cfg = "\<lparr> infos = [single_info], VTlen = 1, Equations = [], names = [[65]], precs = [0], scripts = [] \<rparr>"
  let ?att = "\<lparr> at_probe = True, at_line = (\<lambda>_. True), at_minute = True, at_min10 = True, at_hour = True \<rparr>"
  let ?run = "MainLoop (\<lambda>_ _. None) ?cfg ?att (gm_tm 0) [\<lparr> ParBase = 0, ParTotal = 1, ValTab = [7] \<rparr>] [0] (parcook_init ?cfg [0])"
  have r: "reachable (\<lambda>_ _. None) ?cfg (parcook_init ?cfg [0])" by (rule reachable.start) simp
  have w: "wf_infos (VTlen ?cfg) (infos ?cfg)" "carries (infos ?cfg) 0"
    by (simp_all add: wf_infos_def carries_def single_info_def)
  have t: "wf_tm (gm_tm 0)" "nat (tm_sec (gm_tm 0) div 10) = 0" by code_simp+
  have "case ?run of Done (P, st) \<Rightarrow> P = [7] | _ \<Rightarrow> False" by code_simp
  then obtain st' where run: "?run = Done ([7], st')" by (auto split: cycle.splits)
  moreover have "entry (infos ?cfg) (Probes st') 0 k = Some v \<Longrightarrow> entry_lo (infos ?cfg) 0 \<le> v \<and> v \<le> entry_hi (infos ?cfg) 0" for k v
    by (rule entry_bounds)
  ultimately show ?thesis
    using minute_average_correct [OF r w(1) t(1) run _ w(2), of "entry_lo (infos ?cfg) 0" "entry_hi (infos ?cfg) 0"] t(2)
    by auto
qed

lemma to_short_Fin:
  assumes "int_range (trunc_rat q)"
  shows "to_short (Fin q) = word_of_int (trunc_rat q)"
proof -
  have "to_int32 (Fin q) = word_of_int (trunc_rat q)" using assms by (simp add: int_range_def Let_def)
  moreover have "ucast (word_of_int x :: 32 word) = (word_of_int x :: short)" for x
    by (simp add: ucast_down_wi is_down)
  ultimately show ?thesis by (simp only: to_short_def)
qed

lemma trunc_rat_bounds:
  assumes "- of_int n \<le> q" "q < of_int m" "0 \<le> n" "0 < m"
  shows "- n \<le> trunc_rat q \<and> trunc_rat q < m"
proof (cases "q < 0")
  case True
  then have "0 \<le> \<lfloor>- q\<rfloor>" by simp
  moreover have "\<lfloor>- q\<rfloor> \<le> n" using assms(1) by (simp add: floor_le_iff)
  ultimately have "- n \<le> - \<lfloor>- q\<rfloor>" "- \<lfloor>- q\<rfloor> < m" using assms(4) by linarith+
  then show ?thesis using True by (simp only: trunc_rat_def if_True simp_thms)
next
  case False
  then have "0 \<le> \<lfloor>q\<rfloor>" by simp
  then have "- n \<le> \<lfloor>q\<rfloor>" "\<lfloor>q\<rfloor> < m" using assms(2,3) by (linarith, simp add: floor_less_iff)
  then show ?thesis using False by (simp only: trunc_rat_def if_False simp_thms)
qed

text \<open>A script's result becomes a probe by truncation: with \<open>x\<close> the result scaled by the
  precision, a failed script or a NaN gives no data; a number from -32768 up to 65536 gives the
  16-bit pattern of its integer part, where numbers above 32767 are taken as unsigned; any other
  number, and infinities, give no data.\<close>

theorem script_value_range:
  fixes pr :: int and r :: fp
  defines "x \<equiv> (if pr < 5 then times10 (nat pr) r else r)"
  assumes "r \<noteq> FNaN"
  shows "script_value pr None = SZARP_NO_DATA \<and> script_value pr (Some FNaN) = SZARP_NO_DATA \<and>
    (\<forall>q. x = Fin q \<longrightarrow> script_value pr (Some r) =
       (if - 32768 \<le> q \<and> q < 65536 then word_of_int (trunc_rat q) else SZARP_NO_DATA)) \<and>
    (\<forall>s. x = FInf s \<longrightarrow> script_value pr (Some r) = SZARP_NO_DATA)"
proof -
  have sv: "script_value pr (Some r) = (if fless (Fin 32767) x then
      (if fless x (Fin 65536) then to_short x else SZARP_NO_DATA)
      else if fless x (Fin (- 32768)) then SZARP_NO_DATA else to_short x)"
    using assms(2) by (simp add: script_value_def x_def Let_def)
  have "to_short (Fin q) = word_of_int (trunc_rat q)" if "- 32768 \<le> q" "q < 65536" for q
    using trunc_rat_bounds [of 32768 q 65536] that by (intro to_short_Fin) (simp add: int_range_def)
  then have "(\<forall>q. x = Fin q \<longrightarrow> script_value pr (Some r) =
       (if - 32768 \<le> q \<and> q < 65536 then word_of_int (trunc_rat q) else SZARP_NO_DATA)) \<and>
    (\<forall>s. x = FInf s \<longrightarrow> script_value pr (Some r) = SZARP_NO_DATA)"
    by (auto simp: sv)
  then show ?thesis by (simp add: script_value_def)
qed

theorem script_value_range_witness: "script_value 7 (Some (Fin 40000)) = word_of_int 40000"
proof -
  have "trunc_rat 40000 = 40000" by code_simp
  then show ?thesis using script_value_range [of "Fin 40000" 7] by simp
qed

text \<open>The parameter table is well formed: if the words of all combined parameters have
  distinct indices inside the table, \<open>configure_pars_infos\<close> yields a table in which the two
  halves of each pair point at each other, exactly one of them being the most significant word,
  which is what the averaging relies on.\<close>

theorem configure_pars_infos_wf:
  assumes "distinct (pair_indices cs)" "\<forall>i\<in>set (pair_indices cs). i < n"
  shows "wf_infos n (configure_pars_infos n cs) \<and>
    (\<forall>p<n. p \<notin> set (pair_indices cs) \<longrightarrow> configure_pars_infos n cs ! p = single_info)"
  using configure_wf [OF assms] configure_untouched by blast

theorem configure_pars_infos_wf_witness: "wf_infos 3 (configure_pars_infos 3 [(2, 0)])"
  using configure_pars_infos_wf [of "[(2, 0)]" 3] by (simp add: pair_indices_def)

end
