(* ===== verification/Spec2Isabelle.thy ===== *)
theory Spec2Isabelle
  imports Meaner_Main Szb_Lru Szb_Psearch Definable File_Remover Parcook_Loop Cron_Time Szb_Date Szb_Name
begin

text \<open>
  \<^bold>\<open>SZARP, a system that collects, stores and shows process data\<close>

  \<^bold>\<open>The program.\<close> Line daemons read devices and put 16-bit values into shared segments. The
  parameter cooker (\<open>parcook/parcook.cc\<close>) copies these every ten seconds into its probes segment,
  evaluates formulas and scripts over it, and keeps minute, ten-minute and hour averages in further
  segments. The data base daemon (\<open>meaner3/\<close>) copies the segment of ten-minute averages every ten
  minutes and appends the values to the data base, one file of 16-bit probes per parameter and
  month; between the cycles it runs configured commands. The prober, in the same directory, does the
  same for ten-second probes and removes outdated files of its cache. Readers use the data base
  library (\<open>libSzarp2/szbase/\<close>): it knows the names of the files and the times of the probes in
  them, evaluates formulas over them and searches for data.

  \<^bold>\<open>Theories.\<close>

  \<^item> \<open>Prelude\<close>: C integers, C division, strings, generic lemmas. \<open>Calendar\<close>: the part of the C
    library on times (\<open>gmtime\<close>, \<open>timegm\<close>; the time zone is a record of two functions, and the
    locale \<open>time_zone\<close> states what clients rely on, interpreted for the zones of constant offset).
    \<open>Ieee\<close>: \<open>float\<close> and \<open>double\<close> as rationals with round to nearest even, infinities and NaN.
  \<^item> \<open>Szb_Date\<close>: \<open>szbase/szbdate.cc\<close>, all functions. A time of the years 0 to 9999 and a triple of
    year, month and index determine each other; rounding and moving by probe types.
  \<^item> \<open>Szb_Name\<close>: \<open>szbname.cc\<close> and the names of \<open>szbfile.cc\<close>. The encoding of a parameter name is a
    safe relative path; the date is recovered from the name of a file.
  \<^item> \<open>Szb_Search\<close>: the searches of \<open>szbsearch.cc\<close> over ten-minute data, which go from block to
    block and jump over the parts without data. They return, and with the result of a search that
    looks at every slot.
  \<^item> \<open>Szb_Block\<close>: the blocks of data of one month (\<open>szbdatablock.cc\<close>), read from the file of a parameter
    (\<open>realdatablock.cc\<close>) or from the two files of a combined one (\<open>combineddatablock.cc\<close>). The record
    \<open>datablock\<close> has the fields of the class; a cell that was not written is \<open>None\<close>. Loaded blocks hold
    what is in the files, refreshing a block equals loading it again, with the cases in which it
    does not.
  \<^item> \<open>Szb_Range\<close>: the dates of the first and last data from the names of files, in \<open>szbbuf.cc\<close>. The locale
    \<open>picking\<close> states what finding the first name in an order needs of the order, and is interpreted for
    both orders the code uses. The searches between these dates, over the blocks of the files, find
    what looking at every probe written by the daemon finds: this joins \<open>Save_Param\<close>,
    \<open>Szb_Block\<close> and \<open>Szb_Search\<close>.
  \<^item> \<open>Szb_Avg\<close>: single values and averages, \<open>szb_get_avg\<close> and its loops in \<open>szbbuf.cc\<close>; averages over blocks are
    averages of the stored probes. \<open>Szb_Probe\<close>: blocks of ten-second probes fetched from a server,
    \<open>probeblock.cc\<close>, which hold the server's probes however often they are refreshed.
    \<open>Szb_Psearch\<close>: the searches over ten-second probes and of combined, definable and Lua parameters.
  \<^item> \<open>Linked_List\<close>, \<open>Szb_Cache\<close>, \<open>Szb_Cache_Inv\<close>, \<open>Szb_Lru\<close>: the cache of data blocks, \<open>szb_buffer_str\<close>
    and \<open>BlockLocator\<close> of \<open>szbbuf.cc\<close> and \<open>szb_block_t\<close> of \<open>szbblock.cc\<close>. Blocks and locators live in a
    heap, the record \<open>szb_buffer\<close> has the fields of the class. The invariant of the doubly linked
    lists and tables is kept by every operation, no operation follows a bad pointer, and sequences
    of operations refine a list of blocks in the order of their last use.
  \<^item> \<open>Definable\<close>: \<open>szbase/definablecalculate.cc\<close>, the formula evaluator of the library; compiled
    expressions evaluate to their recursive semantics.
  \<^item> \<open>Parcook_Avg\<close>, \<open>Funtable\<close>, \<open>Calcul\<close>, \<open>Parcook_Loop\<close>: \<open>parcook.cc\<close> and \<open>funtable.cc\<close>. The
    record \<open>par_state\<close> holds the segments, histories, running sums and counters under their names
    in the source; \<open>reachable\<close> is the inductive set of the states of the main loop. The running
    sums are exact in every reachable state; the evaluator is safe on formulas of safe text and
    agrees with a recursive semantics.
  \<^item> \<open>Save_Param\<close>: \<open>meaner3/tsaveparam.cc\<close>. A data file is a list of probes, the file system a map
    from paths to files. The locale \<open>probe_store\<close> is the interface of a store of probes by time;
    it is interpreted on the writer and the reader of month files, so that read-back laws proved
    from the interface hold for the files.
  \<^item> \<open>Meaner\<close>: statistics, set-up and the write of a cycle (\<open>tstatus.cc\<close>, \<open>twriter.cc\<close>,
    \<open>tmeaner.cc\<close>, \<open>tprober.cc\<close>). \<open>File_Remover\<close>: \<open>fileremover.cc\<close>.
  \<^item> \<open>Cron_Time\<close>: \<open>misc/crontime.cc\<close>. \<open>Exec\<close>, \<open>Exec_Run\<close>, \<open>Exec_Config\<close>: the execute mechanism,
    \<open>texecsect.cc\<close>, \<open>texecalarm.cc\<close>, \<open>texecute.cc\<close>. A section of the configuration is a record, the
    executor a record of the sections, the list of alarms and the timer; signal handlers interrupt
    the main program between the steps of \<open>exec_step\<close>. \<open>exec_reachable\<close> is the inductive set of the
    states, with the invariant of the alarms and the theorem that the next cycle comes.
  \<^item> \<open>Meaner_Main\<close>: the loop of \<open>meaner3.cc\<close>, which joins the writer and the executor.

  \<^bold>\<open>Bounds and termination.\<close> No definition uses fuel. Loops are total functions with a measure
  (the rest of the formula, the sections not yet reviewed, the slots left), except the two search
  loops and the loop of averages over months, which are partial functions into options, with the
  theorems that they return. Values keep
  their width where the code can overflow: probes are \<open>16 word\<close>, sums \<open>64 word\<close>, counters \<open>8 word\<close>,
  masks \<open>32 word\<close>. Stacks have the sizes of the source (31 and 200 slots); a read of an unwritten
  slot, an index outside of an array, a null pointer and a failed assertion are values of the model,
  so their absence is proved where it is claimed.

  \<^bold>\<open>Arguments of the model.\<close> Time zones, the Lua interpreter, \<open>pow\<close>, \<open>boost::filesystem\<close> and
  \<open>boost::lexical_cast\<close>, the lookup in the configuration file, the answers of the probe server, and the
  outcomes of system calls.

  \<^bold>\<open>Not modelled.\<close> The line daemons, which are mostly exchanges with devices; the configuration
  classes over libxml2; start-up, logging, command lines and the creation of shared segments; the
  Lua parser and optimiser; the network servers; the graphical programs; vendored code and code in
  other languages.
\<close>

end
